(* ===== verification/Kernel_Prelude.thy ===== *)
theory Kernel_Prelude
  imports Main "HOL-Library.Word" "HOL-Library.Monad_Syntax" "HOL-Library.Multiset"
begin

text \<open>
  Shared vocabulary of the development: the machine types of the 32-bit ARM build
  (\<open>CONFIG_LBDAF\<close> set, so \<open>sector_t\<close> is 64 bits wide), addresses, partial memories
  whose reads and writes fault outside their domain, and the generic facts on lists and
  words that the components use.  A fault (a dereference of \<open>NULL\<close> or of an object that
  is not there, a failed \<open>BUG_ON\<close>) and a loop that does not return are both the value
  \<open>None\<close> of the option type, so a theorem that a routine yields \<open>Some\<close> states that it
  returns and that it dereferences only live objects on the way.
\<close>

unbundle bit_operations_syntax

named_theorems layout_simps \<open>reads of memory and of packed fields after a write\<close>
named_theorems frame_simps \<open>predicates on memory that a write elsewhere leaves alone\<close>

type_synonym u8 = "8 word"
type_synonym u16 = "16 word"
type_synonym u32 = "32 word"
type_synonym u64 = "64 word"
type_synonym addr = "32 word"
type_synonym sector_t = "64 word"

abbreviation NULL :: addr where
  "NULL \<equiv> 0"

text \<open>
  Objects of the kernel that carry a \<open>long\<close> or a pointer are aligned to four bytes.
\<close>

definition aligned4 :: "addr \<Rightarrow> bool" where
  "aligned4 p \<longleftrightarrow> p AND 3 = 0"

text \<open>A write through a pointer: it faults where nothing lives at the address.\<close>

definition write_at :: "'p \<Rightarrow> ('n \<Rightarrow> 'n) \<Rightarrow> ('p \<rightharpoonup> 'n) \<Rightarrow> ('p \<rightharpoonup> 'n) option" where
  "write_at p f h = (case h p of None \<Rightarrow> None | Some n \<Rightarrow> Some (h(p \<mapsto> f n)))"

lemma write_at_Some [layout_simps]: "h p = Some n \<Longrightarrow> write_at p f h = Some (h(p \<mapsto> f n))"
  by (simp add: write_at_def)

lemma write_at_dom: "write_at p f h = Some h' \<Longrightarrow> dom h' = dom h"
  by (auto simp: write_at_def dom_def split: option.splits if_splits)

lemma write_at_other: "write_at p f h = Some h' \<Longrightarrow> q \<noteq> p \<Longrightarrow> h' q = h q"
  by (auto simp: write_at_def split: option.splits)

text \<open>The run-time check \<open>BUG_ON(cond)\<close>: the machine stops where the condition holds.\<close>

definition BUG_ON :: "bool \<Rightarrow> unit option" where
  "BUG_ON c = (if c then None else Some ())"

lemma BUG_ON_False [simp]: "BUG_ON False = Some ()" and BUG_ON_True [simp]: "BUG_ON True = None"
  by (simp_all add: BUG_ON_def)

text \<open>Lists.\<close>

lemma remove1_append_notin: "x \<notin> set xs \<Longrightarrow> remove1 x (xs @ ys) = xs @ remove1 x ys"
  by (induction xs) auto

lemma remove1_middle: "x \<notin> set xs \<Longrightarrow> remove1 x (xs @ x # ys) = xs @ ys"
  by (simp add: remove1_append_notin)

lemma mset_remove1_add: "x \<in> set xs \<Longrightarrow> add_mset x (mset (remove1 x xs)) = mset xs"
  by simp

lemma distinct_remove1_mem: "distinct xs \<Longrightarrow> x \<notin> set (remove1 x xs)"
  by simp

end
