(* ===== verification/Rbtree.thy ===== *)
theory Rbtree
  imports Kernel_Prelude
begin

text \<open>
  The red-black trees of \<open>lib/rbtree.c\<close> and \<open>include/linux/rbtree.h\<close>, on an explicit
  memory of \<open>struct rb_node\<close> objects with 32-bit pointers.  The parent pointer and the
  colour share the word \<open>rb_parent_color\<close>, as in the source.  A tree root
  (\<open>struct rb_root\<close>) is the value of its only field, passed in and returned where the
  source writes through \<open>root->rb_node\<close>.  Each loop of the source is a
  \<open>partial_function (option)\<close>: \<open>None\<close> is a fault or a loop that does not return.
\<close>

section \<open>Nodes and the packed parent pointer\<close>

record rb_node =
  rb_parent_color :: u32
  rb_right :: addr
  rb_left :: addr

type_synonym rb_heap = "addr \<rightharpoonup> rb_node"

definition rb_parent :: "rb_node \<Rightarrow> addr" where
  "rb_parent r = rb_parent_color r AND NOT 3"

definition rb_color :: "rb_node \<Rightarrow> u32" where
  "rb_color r = rb_parent_color r AND 1"

definition RB_RED :: u32 where "RB_RED = 0"

definition RB_BLACK :: u32 where "RB_BLACK = 1"

definition rb_is_red :: "rb_node \<Rightarrow> bool" where
  "rb_is_red r \<longleftrightarrow> rb_color r = 0"

definition rb_is_black :: "rb_node \<Rightarrow> bool" where
  "rb_is_black r \<longleftrightarrow> rb_color r \<noteq> 0"

definition rb_set_red :: "rb_node \<Rightarrow> rb_node" where
  "rb_set_red r = r\<lparr>rb_parent_color := rb_parent_color r AND NOT 1\<rparr>"

definition rb_set_black :: "rb_node \<Rightarrow> rb_node" where
  "rb_set_black r = r\<lparr>rb_parent_color := rb_parent_color r OR 1\<rparr>"

definition rb_set_parent :: "addr \<Rightarrow> rb_node \<Rightarrow> rb_node" where
  "rb_set_parent p rb = rb\<lparr>rb_parent_color := (rb_parent_color rb AND 3) OR p\<rparr>"

definition rb_set_color :: "u32 \<Rightarrow> rb_node \<Rightarrow> rb_node" where
  "rb_set_color color rb = rb\<lparr>rb_parent_color := (rb_parent_color rb AND NOT 1) OR color\<rparr>"

definition set_left :: "addr \<Rightarrow> rb_node \<Rightarrow> rb_node" where
  "set_left p rb = rb\<lparr>rb_left := p\<rparr>"

definition set_right :: "addr \<Rightarrow> rb_node \<Rightarrow> rb_node" where
  "set_right p rb = rb\<lparr>rb_right := p\<rparr>"

definition RB_ROOT :: addr where "RB_ROOT = NULL"

definition RB_EMPTY_ROOT :: "addr \<Rightarrow> bool" where
  "RB_EMPTY_ROOT root \<longleftrightarrow> root = NULL"

definition RB_EMPTY_NODE :: "addr \<Rightarrow> rb_heap \<Rightarrow> bool option" where
  "RB_EMPTY_NODE node h = do { n \<leftarrow> h node; Some (rb_parent n = node) }"

definition RB_CLEAR_NODE :: "addr \<Rightarrow> rb_heap \<Rightarrow> rb_heap option" where
  "RB_CLEAR_NODE node h = write_at node (rb_set_parent node) h"

section \<open>Rotations\<close>

text \<open>
  Make the link that holds \<open>old\<close>, in its parent or in the root, hold \<open>new\<close>: the source
  tests the parent's left link first, and in \<open>__rb_rotate_right\<close> the right one.
\<close>

definition rb_change_child ::
  "addr \<Rightarrow> addr \<Rightarrow> addr \<Rightarrow> rb_heap \<Rightarrow> addr \<Rightarrow> (rb_heap \<times> addr) option" where
  "rb_change_child old new parent h root =
     (if parent \<noteq> NULL then do {
        pn \<leftarrow> h parent;
        h \<leftarrow> (if rb_left pn = old then write_at parent (set_left new) h
             else write_at parent (set_right new) h);
        Some (h, root) }
      else Some (h, new))"

definition rb_change_child_right ::
  "addr \<Rightarrow> addr \<Rightarrow> addr \<Rightarrow> rb_heap \<Rightarrow> addr \<Rightarrow> (rb_heap \<times> addr) option" where
  "rb_change_child_right old new parent h root =
     (if parent \<noteq> NULL then do {
        pn \<leftarrow> h parent;
        h \<leftarrow> (if rb_right pn = old then write_at parent (set_right new) h
             else write_at parent (set_left new) h);
        Some (h, root) }
      else Some (h, new))"

definition rb_rotate_left :: "addr \<Rightarrow> rb_heap \<Rightarrow> addr \<Rightarrow> (rb_heap \<times> addr) option" where
  "rb_rotate_left node h root = do {
     nd \<leftarrow> h node;
     let right = rb_right nd;
     let parent = rb_parent nd;
     rd \<leftarrow> h right;
     h \<leftarrow> write_at node (set_right (rb_left rd)) h;
     h \<leftarrow> (if rb_left rd \<noteq> NULL then write_at (rb_left rd) (rb_set_parent node) h else Some h);
     h \<leftarrow> write_at right (set_left node) h;
     h \<leftarrow> write_at right (rb_set_parent parent) h;
     (h, root) \<leftarrow> rb_change_child node right parent h root;
     h \<leftarrow> write_at node (rb_set_parent right) h;
     Some (h, root) }"

definition rb_rotate_right :: "addr \<Rightarrow> rb_heap \<Rightarrow> addr \<Rightarrow> (rb_heap \<times> addr) option" where
  "rb_rotate_right node h root = do {
     nd \<leftarrow> h node;
     let left = rb_left nd;
     let parent = rb_parent nd;
     ld \<leftarrow> h left;
     h \<leftarrow> write_at node (set_left (rb_right ld)) h;
     h \<leftarrow> (if rb_right ld \<noteq> NULL then write_at (rb_right ld) (rb_set_parent node) h else Some h);
     h \<leftarrow> write_at left (set_right node) h;
     h \<leftarrow> write_at left (rb_set_parent parent) h;
     (h, root) \<leftarrow> rb_change_child_right node left parent h root;
     h \<leftarrow> write_at node (rb_set_parent left) h;
     Some (h, root) }"

section \<open>Insertion\<close>

text \<open>\<open>uncle && rb_is_red(uncle)\<close> and \<open>!child || rb_is_black(child)\<close>.\<close>

definition ptr_is_red :: "addr \<Rightarrow> rb_heap \<Rightarrow> bool option" where
  "ptr_is_red p h = (if p = NULL then Some False else do { n \<leftarrow> h p; Some (rb_is_red n) })"

definition ptr_is_black :: "addr \<Rightarrow> rb_heap \<Rightarrow> bool option" where
  "ptr_is_black p h = (if p = NULL then Some True else do { n \<leftarrow> h p; Some (rb_is_black n) })"

text \<open>
  The body of the loop of \<open>rb_insert_color\<close>, for a parent that is the grandparent's left
  child and for one that is its right child: the node of the next iteration, the memory
  and the root.
\<close>

definition rb_insert_color_left ::
  "addr \<Rightarrow> addr \<Rightarrow> addr \<Rightarrow> rb_heap \<Rightarrow> addr \<Rightarrow> (addr \<times> rb_heap \<times> addr) option" where
  "rb_insert_color_left node parent gparent h root = do {
     gd \<leftarrow> h gparent;
     let uncle = rb_right gd;
     uncle_red \<leftarrow> ptr_is_red uncle h;
     if uncle_red then do {
       h \<leftarrow> write_at uncle rb_set_black h;
       h \<leftarrow> write_at parent rb_set_black h;
       h \<leftarrow> write_at gparent rb_set_red h;
       Some (gparent, h, root) }
     else do {
       pd \<leftarrow> h parent;
       (h, root, parent, node) \<leftarrow> (if rb_right pd = node then do {
            (h, root) \<leftarrow> rb_rotate_left parent h root;
            Some (h, root, node, parent) }
          else Some (h, root, parent, node));
       h \<leftarrow> write_at parent rb_set_black h;
       h \<leftarrow> write_at gparent rb_set_red h;
       (h, root) \<leftarrow> rb_rotate_right gparent h root;
       Some (node, h, root) } }"

definition rb_insert_color_right ::
  "addr \<Rightarrow> addr \<Rightarrow> addr \<Rightarrow> rb_heap \<Rightarrow> addr \<Rightarrow> (addr \<times> rb_heap \<times> addr) option" where
  "rb_insert_color_right node parent gparent h root = do {
     gd \<leftarrow> h gparent;
     let uncle = rb_left gd;
     uncle_red \<leftarrow> ptr_is_red uncle h;
     if uncle_red then do {
       h \<leftarrow> write_at uncle rb_set_black h;
       h \<leftarrow> write_at parent rb_set_black h;
       h \<leftarrow> write_at gparent rb_set_red h;
       Some (gparent, h, root) }
     else do {
       pd \<leftarrow> h parent;
       (h, root, parent, node) \<leftarrow> (if rb_left pd = node then do {
            (h, root) \<leftarrow> rb_rotate_right parent h root;
            Some (h, root, node, parent) }
          else Some (h, root, parent, node));
       h \<leftarrow> write_at parent rb_set_black h;
       h \<leftarrow> write_at gparent rb_set_red h;
       (h, root) \<leftarrow> rb_rotate_left gparent h root;
       Some (node, h, root) } }"

partial_function (option) rb_insert_color_loop ::
  "addr \<Rightarrow> rb_heap \<Rightarrow> addr \<Rightarrow> (rb_heap \<times> addr) option" where
  "rb_insert_color_loop node h root = do {
     nd \<leftarrow> h node;
     let parent = rb_parent nd;
     parent_red \<leftarrow> ptr_is_red parent h;
     if \<not> parent_red then Some (h, root)
     else do {
       pd \<leftarrow> h parent;
       let gparent = rb_parent pd;
       gd \<leftarrow> h gparent;
       (node, h, root) \<leftarrow>
         (if parent = rb_left gd then rb_insert_color_left node parent gparent h root
          else rb_insert_color_right node parent gparent h root);
       rb_insert_color_loop node h root } }"

definition rb_insert_color :: "addr \<Rightarrow> rb_heap \<Rightarrow> addr \<Rightarrow> (rb_heap \<times> addr) option" where
  "rb_insert_color node h root = do {
     (h, root) \<leftarrow> rb_insert_color_loop node h root;
     h \<leftarrow> write_at root rb_set_black h;
     Some (h, root) }"

text \<open>
  The third argument of \<open>rb_link_node\<close> points at the link to fill: the root's field or a
  child field of a node.
\<close>

datatype rb_link = Root_link | Left_link addr | Right_link addr

definition read_link :: "rb_link \<Rightarrow> rb_heap \<Rightarrow> addr \<Rightarrow> addr option" where
  "read_link l h root = (case l of
       Root_link \<Rightarrow> Some root
     | Left_link p \<Rightarrow> map_option rb_left (h p)
     | Right_link p \<Rightarrow> map_option rb_right (h p))"

definition write_link :: "rb_link \<Rightarrow> addr \<Rightarrow> rb_heap \<Rightarrow> addr \<Rightarrow> (rb_heap \<times> addr) option" where
  "write_link l v h root = (case l of
       Root_link \<Rightarrow> Some (h, v)
     | Left_link p \<Rightarrow> map_option (\<lambda>h. (h, root)) (write_at p (set_left v) h)
     | Right_link p \<Rightarrow> map_option (\<lambda>h. (h, root)) (write_at p (set_right v) h))"

definition rb_link_node ::
  "addr \<Rightarrow> addr \<Rightarrow> rb_link \<Rightarrow> rb_heap \<Rightarrow> addr \<Rightarrow> (rb_heap \<times> addr) option" where
  "rb_link_node node parent link h root = do {
     h \<leftarrow> write_at node (\<lambda>n. n\<lparr>rb_parent_color := parent, rb_right := NULL, rb_left := NULL\<rparr>) h;
     write_link link node h root }"

section \<open>Removal\<close>

text \<open>
  One iteration of the loop of \<open>__rb_erase_color\<close>, for a node that is its parent's left
  child and for one that is its right child: \<open>Inl\<close> carries the node and the parent the
  next iteration starts from, \<open>Inr\<close> the state at the \<open>break\<close>.
\<close>

definition rb_erase_color_left ::
  "addr \<Rightarrow> rb_node \<Rightarrow> rb_heap \<Rightarrow> addr
     \<Rightarrow> ((addr \<times> addr \<times> rb_heap \<times> addr) + (addr \<times> rb_heap \<times> addr)) option" where
  "rb_erase_color_left parent pd h root = do {
     let other = rb_right pd;
     od \<leftarrow> h other;
     (h, root, other) \<leftarrow> (if rb_is_red od then do {
          h \<leftarrow> write_at other rb_set_black h;
          h \<leftarrow> write_at parent rb_set_red h;
          (h, root) \<leftarrow> rb_rotate_left parent h root;
          pd \<leftarrow> h parent;
          Some (h, root, rb_right pd) }
        else Some (h, root, other));
     od \<leftarrow> h other;
     left_black \<leftarrow> ptr_is_black (rb_left od) h;
     right_black \<leftarrow> ptr_is_black (rb_right od) h;
     if left_black \<and> right_black then do {
       h \<leftarrow> write_at other rb_set_red h;
       nd \<leftarrow> h parent;
       Some (Inl (parent, rb_parent nd, h, root)) }
     else do {
       (h, root, other) \<leftarrow> (if right_black then do {
            h \<leftarrow> write_at (rb_left od) rb_set_black h;
            h \<leftarrow> write_at other rb_set_red h;
            (h, root) \<leftarrow> rb_rotate_right other h root;
            pd \<leftarrow> h parent;
            Some (h, root, rb_right pd) }
          else Some (h, root, other));
       pd \<leftarrow> h parent;
       h \<leftarrow> write_at other (rb_set_color (rb_color pd)) h;
       h \<leftarrow> write_at parent rb_set_black h;
       od \<leftarrow> h other;
       h \<leftarrow> write_at (rb_right od) rb_set_black h;
       (h, root) \<leftarrow> rb_rotate_left parent h root;
       Some (Inr (root, h, root)) } }"

definition rb_erase_color_right ::
  "addr \<Rightarrow> rb_node \<Rightarrow> rb_heap \<Rightarrow> addr
     \<Rightarrow> ((addr \<times> addr \<times> rb_heap \<times> addr) + (addr \<times> rb_heap \<times> addr)) option" where
  "rb_erase_color_right parent pd h root = do {
     let other = rb_left pd;
     od \<leftarrow> h other;
     (h, root, other) \<leftarrow> (if rb_is_red od then do {
          h \<leftarrow> write_at other rb_set_black h;
          h \<leftarrow> write_at parent rb_set_red h;
          (h, root) \<leftarrow> rb_rotate_right parent h root;
          pd \<leftarrow> h parent;
          Some (h, root, rb_left pd) }
        else Some (h, root, other));
     od \<leftarrow> h other;
     left_black \<leftarrow> ptr_is_black (rb_left od) h;
     right_black \<leftarrow> ptr_is_black (rb_right od) h;
     if left_black \<and> right_black then do {
       h \<leftarrow> write_at other rb_set_red h;
       nd \<leftarrow> h parent;
       Some (Inl (parent, rb_parent nd, h, root)) }
     else do {
       (h, root, other) \<leftarrow> (if left_black then do {
            h \<leftarrow> write_at (rb_right od) rb_set_black h;
            h \<leftarrow> write_at other rb_set_red h;
            (h, root) \<leftarrow> rb_rotate_left other h root;
            pd \<leftarrow> h parent;
            Some (h, root, rb_left pd) }
          else Some (h, root, other));
       pd \<leftarrow> h parent;
       h \<leftarrow> write_at other (rb_set_color (rb_color pd)) h;
       h \<leftarrow> write_at parent rb_set_black h;
       od \<leftarrow> h other;
       h \<leftarrow> write_at (rb_left od) rb_set_black h;
       (h, root) \<leftarrow> rb_rotate_right parent h root;
       Some (Inr (root, h, root)) } }"

partial_function (option) rb_erase_color_loop ::
  "addr \<Rightarrow> addr \<Rightarrow> rb_heap \<Rightarrow> addr \<Rightarrow> (addr \<times> rb_heap \<times> addr) option" where
  "rb_erase_color_loop node parent h root = do {
     node_black \<leftarrow> ptr_is_black node h;
     if \<not> (node_black \<and> node \<noteq> root) then Some (node, h, root)
     else do {
       pd \<leftarrow> h parent;
       res \<leftarrow> (if rb_left pd = node then rb_erase_color_left parent pd h root
             else rb_erase_color_right parent pd h root);
       case res of
         Inl (node, parent, h, root) \<Rightarrow> rb_erase_color_loop node parent h root
       | Inr final \<Rightarrow> Some final } }"

definition rb_erase_color ::
  "addr \<Rightarrow> addr \<Rightarrow> rb_heap \<Rightarrow> addr \<Rightarrow> (rb_heap \<times> addr) option" where
  "rb_erase_color node parent h root = do {
     (node, h, root) \<leftarrow> rb_erase_color_loop node parent h root;
     h \<leftarrow> (if node \<noteq> NULL then write_at node rb_set_black h else Some h);
     Some (h, root) }"

text \<open>\<open>while ((left = node->rb_left) != NULL) node = left;\<close> and its mirror image.\<close>

partial_function (option) rb_leftmost :: "addr \<Rightarrow> rb_heap \<Rightarrow> addr option" where
  "rb_leftmost node h = do {
     nd \<leftarrow> h node;
     if rb_left nd \<noteq> NULL then rb_leftmost (rb_left nd) h else Some node }"

partial_function (option) rb_rightmost :: "addr \<Rightarrow> rb_heap \<Rightarrow> addr option" where
  "rb_rightmost node h = do {
     nd \<leftarrow> h node;
     if rb_right nd \<noteq> NULL then rb_rightmost (rb_right nd) h else Some node }"

text \<open>
  Unlinking \<open>node\<close>: the colour, the child and the parent with which the source goes on to
  rebalance.  A node with two children is replaced by its successor, which the source
  unlinks instead; a node with one child or none is replaced by that child.
\<close>

definition rb_erase_two ::
  "addr \<Rightarrow> rb_heap \<Rightarrow> addr \<Rightarrow> (u32 \<times> addr \<times> addr \<times> rb_heap \<times> addr) option" where
  "rb_erase_two old h root = do {
     od \<leftarrow> h old;
     node \<leftarrow> rb_leftmost (rb_right od) h;
     (h, root) \<leftarrow> rb_change_child old node (rb_parent od) h root;
     sd \<leftarrow> h node;
     let child = rb_right sd;
     let parent = rb_parent sd;
     let color = rb_color sd;
     (h, parent) \<leftarrow> (if parent = old then Some (h, node)
        else do {
          h \<leftarrow> (if child \<noteq> NULL then write_at child (rb_set_parent parent) h else Some h);
          h \<leftarrow> write_at parent (set_left child) h;
          od \<leftarrow> h old;
          h \<leftarrow> write_at node (set_right (rb_right od)) h;
          h \<leftarrow> write_at (rb_right od) (rb_set_parent node) h;
          Some (h, parent) });
     od \<leftarrow> h old;
     h \<leftarrow> write_at node (\<lambda>n. n\<lparr>rb_parent_color := rb_parent_color od\<rparr>) h;
     h \<leftarrow> write_at node (set_left (rb_left od)) h;
     h \<leftarrow> write_at (rb_left od) (rb_set_parent node) h;
     Some (color, child, parent, h, root) }"

definition rb_erase_one ::
  "addr \<Rightarrow> addr \<Rightarrow> rb_heap \<Rightarrow> addr \<Rightarrow> (u32 \<times> addr \<times> addr \<times> rb_heap \<times> addr) option" where
  "rb_erase_one node child h root = do {
     nd \<leftarrow> h node;
     let parent = rb_parent nd;
     let color = rb_color nd;
     h \<leftarrow> (if child \<noteq> NULL then write_at child (rb_set_parent parent) h else Some h);
     (h, root) \<leftarrow> rb_change_child node child parent h root;
     Some (color, child, parent, h, root) }"

definition rb_erase :: "addr \<Rightarrow> rb_heap \<Rightarrow> addr \<Rightarrow> (rb_heap \<times> addr) option" where
  "rb_erase node h root = do {
     nd \<leftarrow> h node;
     (color, child, parent, h, root) \<leftarrow>
       (if rb_left nd = NULL then rb_erase_one node (rb_right nd) h root
        else if rb_right nd = NULL then rb_erase_one node (rb_left nd) h root
        else rb_erase_two node h root);
     if color = RB_BLACK then rb_erase_color child parent h root else Some (h, root) }"

section \<open>Walking and replacing\<close>

definition rb_first :: "rb_heap \<Rightarrow> addr \<Rightarrow> addr option" where
  "rb_first h root = (if root = NULL then Some NULL else rb_leftmost root h)"

definition rb_last :: "rb_heap \<Rightarrow> addr \<Rightarrow> addr option" where
  "rb_last h root = (if root = NULL then Some NULL else rb_rightmost root h)"

partial_function (option) rb_up_right :: "addr \<Rightarrow> rb_heap \<Rightarrow> addr option" where
  "rb_up_right node h = do {
     nd \<leftarrow> h node;
     let parent = rb_parent nd;
     if parent = NULL then Some NULL
     else do {
       pd \<leftarrow> h parent;
       if node = rb_right pd then rb_up_right parent h else Some parent } }"

partial_function (option) rb_up_left :: "addr \<Rightarrow> rb_heap \<Rightarrow> addr option" where
  "rb_up_left node h = do {
     nd \<leftarrow> h node;
     let parent = rb_parent nd;
     if parent = NULL then Some NULL
     else do {
       pd \<leftarrow> h parent;
       if node = rb_left pd then rb_up_left parent h else Some parent } }"

definition rb_next :: "addr \<Rightarrow> rb_heap \<Rightarrow> addr option" where
  "rb_next node h = do {
     nd \<leftarrow> h node;
     if rb_parent nd = node then Some NULL
     else if rb_right nd \<noteq> NULL then rb_leftmost (rb_right nd) h
     else rb_up_right node h }"

definition rb_prev :: "addr \<Rightarrow> rb_heap \<Rightarrow> addr option" where
  "rb_prev node h = do {
     nd \<leftarrow> h node;
     if rb_parent nd = node then Some NULL
     else if rb_left nd \<noteq> NULL then rb_rightmost (rb_left nd) h
     else rb_up_left node h }"

definition rb_replace_node ::
  "addr \<Rightarrow> addr \<Rightarrow> rb_heap \<Rightarrow> addr \<Rightarrow> (rb_heap \<times> addr) option" where
  "rb_replace_node victim new h root = do {
     vd \<leftarrow> h victim;
     (h, root) \<leftarrow> rb_change_child victim new (rb_parent vd) h root;
     h \<leftarrow> (if rb_left vd \<noteq> NULL then write_at (rb_left vd) (rb_set_parent new) h else Some h);
     h \<leftarrow> (if rb_right vd \<noteq> NULL then write_at (rb_right vd) (rb_set_parent new) h else Some h);
     vd \<leftarrow> h victim;
     h \<leftarrow> write_at new (\<lambda>_. vd) h;
     Some (h, root) }"

end
