(* ===== verification/Khlist.thy ===== *)
theory Khlist
  imports Kernel_Prelude
begin

text \<open>
  The hash chains of \<open>include/linux/list.h\<close>: lists with a single-pointer head, whose nodes
  point back at the pointer that points at them (\<open>pprev\<close>).  Such a pointer is the \<open>first\<close> field
  of a chain's head or the \<open>next\<close> field of another node; the heads are the entries of an array,
  named by their index.
\<close>

section \<open>The operations\<close>

datatype hlist_ref = HNull | HFirst u32 | HNext addr

record hlist_node =
  hl_next :: addr
  hl_pprev :: hlist_ref

record hlist_mem =
  firsts :: "u32 \<Rightarrow> addr"
  hnodes :: "addr \<rightharpoonup> hlist_node"

definition upd_hnode :: "addr \<Rightarrow> (hlist_node \<Rightarrow> hlist_node) \<Rightarrow> hlist_mem \<Rightarrow> hlist_mem option" where
  "upd_hnode p f m = do { ns \<leftarrow> write_at p f (hnodes m); Some (m\<lparr>hnodes := ns\<rparr>) }"

text \<open>Reads and writes through a \<open>struct hlist_node **\<close>.\<close>

definition read_ref :: "hlist_ref \<Rightarrow> hlist_mem \<Rightarrow> addr option" where
  "read_ref r m = (case r of
       HNull \<Rightarrow> None
     | HFirst i \<Rightarrow> Some (firsts m i)
     | HNext p \<Rightarrow> map_option hl_next (hnodes m p))"

definition write_ref :: "hlist_ref \<Rightarrow> addr \<Rightarrow> hlist_mem \<Rightarrow> hlist_mem option" where
  "write_ref r v m = (case r of
       HNull \<Rightarrow> None
     | HFirst i \<Rightarrow> Some (m\<lparr>firsts := (firsts m)(i := v)\<rparr>)
     | HNext p \<Rightarrow> upd_hnode p (\<lambda>n. n\<lparr>hl_next := v\<rparr>) m)"

definition set_pprev :: "addr \<Rightarrow> hlist_ref \<Rightarrow> hlist_mem \<Rightarrow> hlist_mem option" where
  "set_pprev p r m = upd_hnode p (\<lambda>n. n\<lparr>hl_pprev := r\<rparr>) m"

definition get_pprev :: "addr \<Rightarrow> hlist_mem \<Rightarrow> hlist_ref option" where
  "get_pprev p m = map_option hl_pprev (hnodes m p)"

definition INIT_HLIST_HEAD :: "u32 \<Rightarrow> hlist_mem \<Rightarrow> hlist_mem option" where
  "INIT_HLIST_HEAD i m = write_ref (HFirst i) NULL m"

definition INIT_HLIST_NODE :: "addr \<Rightarrow> hlist_mem \<Rightarrow> hlist_mem option" where
  "INIT_HLIST_NODE h m = do {
     m \<leftarrow> write_ref (HNext h) NULL m;
     set_pprev h HNull m }"

definition hlist_unhashed :: "addr \<Rightarrow> hlist_mem \<Rightarrow> bool option" where
  "hlist_unhashed h m = do { r \<leftarrow> get_pprev h m; Some (r = HNull) }"

definition hlist_empty :: "u32 \<Rightarrow> hlist_mem \<Rightarrow> bool" where
  "hlist_empty i m = (firsts m i = NULL)"

definition hlist_unlink :: "addr \<Rightarrow> hlist_mem \<Rightarrow> hlist_mem option" where
  "hlist_unlink n m = do {
     next' \<leftarrow> read_ref (HNext n) m;
     pprev \<leftarrow> get_pprev n m;
     m \<leftarrow> write_ref pprev next' m;
     if next' \<noteq> NULL then set_pprev next' pprev m else Some m }"

definition hlist_del_init :: "addr \<Rightarrow> hlist_mem \<Rightarrow> hlist_mem option" where
  "hlist_del_init n m = do {
     unhashed \<leftarrow> hlist_unhashed n m;
     if \<not> unhashed then do { m \<leftarrow> hlist_unlink n m; INIT_HLIST_NODE n m } else Some m }"

definition hlist_add_head :: "addr \<Rightarrow> u32 \<Rightarrow> hlist_mem \<Rightarrow> hlist_mem option" where
  "hlist_add_head n i m = do {
     first \<leftarrow> read_ref (HFirst i) m;
     m \<leftarrow> write_ref (HNext n) first m;
     m \<leftarrow> (if first \<noteq> NULL then set_pprev first (HNext n) m else Some m);
     m \<leftarrow> write_ref (HFirst i) n m;
     set_pprev n (HFirst i) m }"

section \<open>Chains\<close>

text \<open>The two maps a memory is: what a reference holds, and what refers to a node.\<close>

definition refs :: "hlist_mem \<Rightarrow> hlist_ref \<rightharpoonup> addr" where
  "refs m = (\<lambda>r. read_ref r m)"

definition pprevs :: "hlist_mem \<Rightarrow> addr \<rightharpoonup> hlist_ref" where
  "pprevs m = (\<lambda>p. get_pprev p m)"

fun hchain :: "(hlist_ref \<rightharpoonup> addr) \<Rightarrow> (addr \<rightharpoonup> hlist_ref) \<Rightarrow> hlist_ref \<Rightarrow> addr list \<Rightarrow> bool" where
  "hchain R P r [] \<longleftrightarrow> R r = Some NULL"
| "hchain R P r (x # xs) \<longleftrightarrow> R r = Some x \<and> x \<noteq> NULL \<and> P x = Some r \<and> hchain R P (HNext x) xs"

lemma hchain_cong:
  "R' r = R r \<Longrightarrow> (\<And>x. x \<in> set xs \<Longrightarrow> R' (HNext x) = R (HNext x)) \<Longrightarrow> (\<And>x. x \<in> set xs \<Longrightarrow> P' x = P x) \<Longrightarrow>
   hchain R' P' r xs = hchain R P r xs"
  by (induction xs arbitrary: r) auto

lemma hchain_NULL: "hchain R P r xs \<Longrightarrow> NULL \<notin> set xs"
  by (induction xs arbitrary: r) auto

lemma hchain_dom: "hchain R P r xs \<Longrightarrow> r \<in> dom R \<and> set xs \<subseteq> dom P \<and> HNext ` set xs \<subseteq> dom R"
proof (induction xs arbitrary: r)
  case (Cons x xs)
  then show ?case using Cons.IH [of "HNext x"] by auto
qed auto

text \<open>
  The array of chains \<open>B\<close>; every node of the set \<open>X\<close> that is on no chain is marked so.
\<close>

definition hash_rep :: "hlist_mem \<Rightarrow> (u32 \<Rightarrow> addr list) \<Rightarrow> addr set \<Rightarrow> bool" where
  "hash_rep m B X \<longleftrightarrow> (\<forall>i. hchain (refs m) (pprevs m) (HFirst i) (B i) \<and> distinct (B i)) \<and>
     (\<forall>i j. i \<noteq> j \<longrightarrow> set (B i) \<inter> set (B j) = {}) \<and>
     (\<forall>i. set (B i) \<subseteq> X) \<and>
     (\<forall>x\<in>X. x \<noteq> NULL \<and> x \<in> dom (hnodes m) \<and> ((\<exists>i. x \<in> set (B i)) \<or> pprevs m x = Some HNull))"

definition hgives :: "hlist_mem option \<Rightarrow> (hlist_ref \<rightharpoonup> addr) \<Rightarrow> (addr \<rightharpoonup> hlist_ref) \<Rightarrow> hlist_mem \<Rightarrow> bool" where
  "hgives r R P m0 \<longleftrightarrow> (\<exists>m. r = Some m \<and> refs m = R \<and> pprevs m = P \<and> dom (hnodes m) = dom (hnodes m0))"

lemma refs_simps: "refs m (HFirst i) = Some (firsts m i)" "refs m HNull = None"
  by (simp_all add: refs_def read_ref_def)

lemma read_ref_refs: "read_ref r m = refs m r" and get_pprev_pprevs: "get_pprev p m = pprevs m p"
  by (simp_all add: refs_def pprevs_def)

lemma hgives_write_ref:
  assumes "r \<in> dom (refs m)"
  shows "hgives (write_ref r v m) ((refs m)(r \<mapsto> v)) (pprevs m) m"
proof (cases r)
  case (HFirst i)
  then show ?thesis
    by (auto simp: hgives_def write_ref_def refs_def pprevs_def read_ref_def get_pprev_def intro!: ext split: hlist_ref.splits)
next
  case (HNext p)
  then obtain n where "hnodes m p = Some n" using assms by (auto simp: refs_def read_ref_def)
  then show ?thesis using HNext
    by (auto simp: hgives_def write_ref_def upd_hnode_def write_at_Some refs_def pprevs_def read_ref_def get_pprev_def
        intro!: ext split: hlist_ref.splits)
qed (use assms in \<open>auto simp: refs_def read_ref_def\<close>)

lemma hgives_set_pprev:
  assumes "p \<in> dom (hnodes m)"
  shows "hgives (set_pprev p r m) (refs m) ((pprevs m)(p \<mapsto> r)) m"
proof -
  from assms obtain n where "hnodes m p = Some n" by auto
  then show ?thesis
    by (auto simp: hgives_def set_pprev_def upd_hnode_def write_at_Some refs_def pprevs_def read_ref_def get_pprev_def
        intro!: ext split: hlist_ref.splits)
qed

definition pred_ref :: "hlist_ref \<Rightarrow> addr list \<Rightarrow> hlist_ref" where
  "pred_ref r xs = (if xs = [] then r else HNext (last xs))"

definition first_of :: "addr list \<Rightarrow> addr" where
  "first_of xs = (case xs of [] \<Rightarrow> NULL | x # _ \<Rightarrow> x)"

lemma hchain_middle:
  "hchain R P r (xs @ n # ys) \<Longrightarrow> P n = Some (pred_ref r xs) \<and> R (HNext n) = Some (first_of ys) \<and> n \<noteq> NULL"
proof (induction xs arbitrary: r)
  case Nil
  then show ?case by (cases ys) (auto simp: pred_ref_def first_of_def)
next
  case (Cons x xs)
  then show ?case using Cons.IH [of "HNext x"] by (auto simp: pred_ref_def)
qed

lemma hchain_delete:
  assumes "hchain R P r (xs @ n # ys)" "distinct (xs @ n # ys)" "r \<notin> HNext ` set (xs @ n # ys)"
    and "R' (pred_ref r xs) = Some (first_of ys)" "\<And>x. x \<noteq> pred_ref r xs \<Longrightarrow> x \<noteq> HNext n \<Longrightarrow> R' x = R x"
    and "ys \<noteq> [] \<Longrightarrow> P' (first_of ys) = Some (pred_ref r xs)" "\<And>x. x \<noteq> n \<Longrightarrow> x \<noteq> first_of ys \<Longrightarrow> P' x = P x"
  shows "hchain R' P' r (xs @ ys)"
  using assms
proof (induction xs arbitrary: r)
  case Nil
  show ?case
  proof (cases ys)
    case (Cons y zs)
    have "hchain R' P' (HNext y) zs = hchain R P (HNext y) zs"
    proof (rule hchain_cong)
      fix x assume "x \<in> set zs"
      then show "P' x = P x" "R' (HNext x) = R (HNext x)"
        using Nil.prems(2,3) Cons by (intro Nil.prems(5,7); auto simp: first_of_def pred_ref_def)+
    qed (use Nil.prems(2,3) Cons in \<open>intro Nil.prems(5); auto simp: pred_ref_def\<close>)
    then show ?thesis using Nil.prems(1,4,6) Cons by (auto simp: pred_ref_def first_of_def)
  qed (use Nil.prems(4) in \<open>auto simp: pred_ref_def first_of_def\<close>)
next
  case (Cons x xs)
  have e: "pred_ref r (x # xs) = pred_ref (HNext x) xs" by (simp add: pred_ref_def)
  have "hchain R' P' (HNext x) (xs @ ys)"
    by (rule Cons.IH) (use Cons.prems e in auto)
  moreover have "pred_ref (HNext x) xs \<noteq> r" "r \<noteq> HNext n" using Cons.prems(3) by (auto simp: pred_ref_def)
  moreover have "x \<noteq> first_of ys" "x \<noteq> n"
    using Cons.prems(1,2) by (cases ys; auto simp: first_of_def)+
  ultimately show ?case using Cons.prems(1,5,7) by (auto simp: e)
qed

lemma hash_rep_unhashed:
  assumes "hash_rep m B X" "n \<in> X"
  shows "hlist_unhashed n m = Some (\<forall>i. n \<notin> set (B i))"
proof (cases "\<exists>i. n \<in> set (B i)")
  case True
  then obtain i xs ys where i: "B i = xs @ n # ys" by (meson split_list)
  have "hchain (refs m) (pprevs m) (HFirst i) (B i)" using assms(1) by (simp add: hash_rep_def)
  from hchain_middle [OF this [unfolded i]] have "pprevs m n = Some (pred_ref (HFirst i) xs)" by simp
  then show ?thesis using True by (auto simp: hlist_unhashed_def get_pprev_pprevs pred_ref_def)
next
  case False
  then show ?thesis using assms by (auto simp: hash_rep_def hlist_unhashed_def get_pprev_pprevs)
qed

lemma hgives_bind:
  assumes "hgives r R P m0"
    "\<And>m. refs m = R \<Longrightarrow> pprevs m = P \<Longrightarrow> dom (hnodes m) = dom (hnodes m0) \<Longrightarrow> hgives (f m) R' P' m0"
  shows "hgives (r \<bind> f) R' P' m0"
  using assms by (auto simp: hgives_def)

lemma hgives_trans: "hgives r R P m \<Longrightarrow> dom (hnodes m) = dom (hnodes m0) \<Longrightarrow> R' = R \<Longrightarrow> P' = P \<Longrightarrow> hgives r R' P' m0"
  by (auto simp: hgives_def)

lemma hgives_step_ref:
  "r \<in> dom (refs m) \<Longrightarrow> dom (hnodes m) = dom (hnodes m0) \<Longrightarrow>
   (\<And>m'. refs m' = (refs m)(r \<mapsto> v) \<Longrightarrow> pprevs m' = pprevs m \<Longrightarrow> dom (hnodes m') = dom (hnodes m0) \<Longrightarrow> hgives (f m') R' P' m0) \<Longrightarrow>
   hgives (write_ref r v m \<bind> f) R' P' m0"
  by (rule hgives_bind [OF hgives_trans [OF hgives_write_ref]]) auto

lemma hgives_step_pprev:
  "p \<in> dom (hnodes m0) \<Longrightarrow> dom (hnodes m) = dom (hnodes m0) \<Longrightarrow>
   (\<And>m'. refs m' = refs m \<Longrightarrow> pprevs m' = (pprevs m)(p \<mapsto> r) \<Longrightarrow> dom (hnodes m') = dom (hnodes m0) \<Longrightarrow> hgives (f m') R' P' m0) \<Longrightarrow>
   hgives (set_pprev p r m \<bind> f) R' P' m0"
  by (rule hgives_bind [OF hgives_trans [OF hgives_set_pprev]]) auto

lemma hgives_last_pprev:
  "p \<in> dom (hnodes m0) \<Longrightarrow> dom (hnodes m) = dom (hnodes m0) \<Longrightarrow> R' = refs m \<Longrightarrow> P' = (pprevs m)(p \<mapsto> r) \<Longrightarrow>
   hgives (set_pprev p r m) R' P' m0"
  by (rule hgives_trans [OF hgives_set_pprev]) auto

lemma dom_refs: "HNext p \<in> dom (refs m) \<longleftrightarrow> p \<in> dom (hnodes m)"
  by (auto simp: refs_def read_ref_def)

lemma hlist_add_head_gives:
  assumes "n \<in> dom (hnodes m)" "refs m (HFirst i) = Some f" "f \<noteq> NULL \<Longrightarrow> f \<in> dom (hnodes m)"
  shows "hgives (hlist_add_head n i m) ((refs m)(HNext n \<mapsto> f, HFirst i \<mapsto> n))
    ((if f \<noteq> NULL then (pprevs m)(f \<mapsto> HNext n) else pprevs m)(n \<mapsto> HFirst i)) m"
  unfolding hlist_add_head_def read_ref_refs assms(2) bind.bind_lunit
proof (rule hgives_step_ref)
  fix m1 assume m1: "refs m1 = (refs m)(HNext n \<mapsto> f)" "pprevs m1 = pprevs m" "dom (hnodes m1) = dom (hnodes m)"
  let ?P = "if f \<noteq> NULL then (pprevs m)(f \<mapsto> HNext n) else pprevs m"
  show "hgives ((if f \<noteq> NULL then set_pprev f (HNext n) m1 else Some m1) \<bind> (\<lambda>m. write_ref (HFirst i) n m \<bind> set_pprev n (HFirst i)))
    ((refs m)(HNext n \<mapsto> f, HFirst i \<mapsto> n)) (?P(n \<mapsto> HFirst i)) m"
  proof (rule hgives_bind [of _ "refs m1" ?P])
    show "hgives (if f \<noteq> NULL then set_pprev f (HNext n) m1 else Some m1) (refs m1) ?P m"
      using hgives_last_pprev [of f m m1] assms(3) m1 by (auto simp: hgives_def)
    fix m2 assume m2: "refs m2 = refs m1" "pprevs m2 = ?P" "dom (hnodes m2) = dom (hnodes m)"
    show "hgives (write_ref (HFirst i) n m2 \<bind> set_pprev n (HFirst i)) ((refs m)(HNext n \<mapsto> f, HFirst i \<mapsto> n)) (?P(n \<mapsto> HFirst i)) m"
      by (rule hgives_step_ref)
         (use m1 m2 assms in \<open>auto simp: refs_simps simp del: fun_upd_apply intro!: hgives_last_pprev\<close>)
  qed
qed (use assms in \<open>auto simp: dom_refs\<close>)


lemma hash_repD:
  assumes "hash_rep m B X"
  shows "hchain (refs m) (pprevs m) (HFirst i) (B i)" "distinct (B i)" "set (B i) \<subseteq> X"
    "i \<noteq> j \<Longrightarrow> set (B i) \<inter> set (B j) = {}" "x \<in> X \<Longrightarrow> x \<noteq> NULL \<and> x \<in> dom (hnodes m)"
    "x \<in> X \<Longrightarrow> \<forall>i. x \<notin> set (B i) \<Longrightarrow> pprevs m x = Some HNull"
  using assms unfolding hash_rep_def by blast+

text \<open>A change of the chain \<open>i\<close> alone.\<close>

lemma hash_rep_update:
  assumes r: "hash_rep m B X" and d: "dom (hnodes m') = dom (hnodes m)"
    and xs: "hchain (refs m') (pprevs m') (HFirst i) xs" "distinct xs" "set xs \<subseteq> insert n (set (B i))"
    and n: "n \<in> X" "\<And>j. j \<noteq> i \<Longrightarrow> n \<notin> set (B j)"
    and R: "\<And>q. q \<noteq> HFirst i \<Longrightarrow> q \<notin> HNext ` insert n (set (B i)) \<Longrightarrow> refs m' q = refs m q"
    and P: "\<And>x. x \<notin> insert n (set (B i)) \<Longrightarrow> pprevs m' x = pprevs m x"
    and gone: "\<And>x. x \<in> insert n (set (B i)) \<Longrightarrow> x \<notin> set xs \<Longrightarrow> pprevs m' x = Some HNull"
  shows "hash_rep m' (B(i := xs)) X"
proof -
  have o: "hchain (refs m') (pprevs m') (HFirst j) (B j)" if "j \<noteq> i" for j
  proof -
    have dj: "x \<notin> insert n (set (B i))" if "x \<in> set (B j)" for x
      using that \<open>j \<noteq> i\<close> hash_repD(4) [OF r, of j i] n(2) [of j] by auto
    have "hchain (refs m') (pprevs m') (HFirst j) (B j) = hchain (refs m) (pprevs m) (HFirst j) (B j)"
      by (rule hchain_cong) (use dj that in \<open>auto intro!: R P\<close>)
    then show ?thesis using hash_repD(1) [OF r] by simp
  qed
  have "pprevs m' x = Some HNull" if "x \<in> X" "\<forall>j. x \<notin> set ((B(i := xs)) j)" for x
  proof (cases "x \<in> insert n (set (B i))")
    case True
    then show ?thesis using gone that(2) by (metis fun_upd_same)
  next
    case False
    then have "\<forall>j. x \<notin> set (B j)" using that(2) by (metis fun_upd_other insertCI)
    then show ?thesis using P [OF False] hash_repD(6) [OF r that(1)] by simp
  qed
  moreover have "set xs \<inter> set (B j) = {}" if "j \<noteq> i" for j
    using xs(3) n(2) [OF that] hash_repD(4) [OF r, of j i] that by auto
  moreover have "set xs \<subseteq> X" using xs(3) n(1) hash_repD(3) [OF r, of i] by blast
  ultimately show ?thesis
    unfolding hash_rep_def d
  proof (intro conjI allI impI ballI)
    fix j k :: u32 assume "j \<noteq> k"
    then show "set ((B(i := xs)) j) \<inter> set ((B(i := xs)) k) = {}"
      using \<open>\<And>j. j \<noteq> i \<Longrightarrow> set xs \<inter> set (B j) = {}\<close> [of k] \<open>\<And>j. j \<noteq> i \<Longrightarrow> set xs \<inter> set (B j) = {}\<close> [of j]
        hash_repD(4) [OF r, of j k] by (cases "j = i"; cases "k = i") (simp_all add: Int_commute)
  next
    fix x assume x: "x \<in> X"
    show "x \<noteq> NULL" "x \<in> dom (hnodes m)" using hash_repD(5) [OF r x] by simp_all
    show "(\<exists>j. x \<in> set ((B(i := xs)) j)) \<or> pprevs m' x = Some HNull"
      using \<open>\<And>x. x \<in> X \<Longrightarrow> \<forall>j. x \<notin> set ((B(i := xs)) j) \<Longrightarrow> pprevs m' x = Some HNull\<close> [OF x] by blast
  next
    fix j show "hchain (refs m') (pprevs m') (HFirst j) ((B(i := xs)) j)" "distinct ((B(i := xs)) j)"
      "set ((B(i := xs)) j) \<subseteq> X"
      using xs(1,2) o [of j] hash_repD(2,3) [OF r, of j] \<open>set xs \<subseteq> X\<close> by (cases "j = i"; simp)+
  qed
qed

lemma hash_rep_add_head:
  assumes r: "hash_rep m B X" and n: "n \<in> X" "\<forall>i. n \<notin> set (B i)"
  shows "\<exists>m'. hlist_add_head n i m = Some m' \<and> hash_rep m' (B(i := n # B i)) X"
proof -
  note c = hash_repD(1) [OF r, of i]
  define f where "f = first_of (B i)"
  have f: "refs m (HFirst i) = Some f" using c by (cases "B i") (auto simp: f_def first_of_def)
  have "f \<noteq> NULL \<Longrightarrow> f \<in> X"
    using hash_repD(3) [OF r, of i] by (cases "B i") (auto simp: f_def first_of_def)
  then have dom: "n \<in> dom (hnodes m)" "f \<noteq> NULL \<Longrightarrow> f \<in> dom (hnodes m)" "n \<noteq> NULL"
    using hash_repD(5) [OF r n(1)] hash_repD(5) [OF r, of f] by simp_all
  from hlist_add_head_gives [OF dom(1) f dom(2)] obtain m' where
    m': "hlist_add_head n i m = Some m'" "refs m' = (refs m)(HNext n \<mapsto> f, HFirst i \<mapsto> n)"
     "pprevs m' = (if f \<noteq> NULL then (pprevs m)(f \<mapsto> HNext n) else pprevs m)(n \<mapsto> HFirst i)"
     "dom (hnodes m') = dom (hnodes m)" by (auto simp: hgives_def)
  have fm: "f = NULL \<longleftrightarrow> B i = []" "B i \<noteq> [] \<Longrightarrow> f \<in> set (B i)"
    using hchain_NULL [OF c] by (cases "B i"; auto simp: f_def first_of_def)+
  have "hash_rep m' (B(i := n # B i)) X"
  proof (rule hash_rep_update [OF r m'(4)])
    have "hchain (refs m') (pprevs m') (HNext n) (B i)"
    proof (cases "B i")
      case (Cons y ys)
      then have f': "f = y" "y \<noteq> NULL" "y \<noteq> n" "n \<notin> set ys" "y \<notin> set ys"
        using c spec [OF n(2), of i] hash_repD(2) [OF r, of i] by (auto simp: f_def first_of_def)
      have "hchain (refs m') (pprevs m') (HNext y) ys = hchain (refs m) (pprevs m) (HNext y) ys"
        by (rule hchain_cong) (use f' m'(2,3) in auto)
      then show ?thesis using c Cons f' m'(2,3) by simp
    qed (use m'(2) fm in simp)
    then show "hchain (refs m') (pprevs m') (HFirst i) (n # B i)"
      using m'(2,3) dom(3) by simp
  next
    fix x assume "x \<notin> insert n (set (B i))"
    then show "pprevs m' x = pprevs m x" using m'(3) fm by (cases "B i = []") auto
  qed (use n hash_repD(2) [OF r, of i] m'(2) in auto)
  with m'(1) show ?thesis by blast
qed


lemma hlist_unlink_gives:
  assumes "refs m (HNext n) = Some q" "pprevs m n = Some r" "r \<in> dom (refs m)" "q \<noteq> NULL \<Longrightarrow> q \<in> dom (hnodes m)"
  shows "hgives (hlist_unlink n m) ((refs m)(r \<mapsto> q)) (if q \<noteq> NULL then (pprevs m)(q \<mapsto> r) else pprevs m) m"
  unfolding hlist_unlink_def read_ref_refs get_pprev_pprevs assms(1,2) bind.bind_lunit
proof (rule hgives_step_ref [OF assms(3) refl])
  fix m1 assume m1: "refs m1 = (refs m)(r \<mapsto> q)" "pprevs m1 = pprevs m" "dom (hnodes m1) = dom (hnodes m)"
  show "hgives (if q \<noteq> NULL then set_pprev q r m1 else Some m1) ((refs m)(r \<mapsto> q))
     (if q \<noteq> NULL then (pprevs m)(q \<mapsto> r) else pprevs m) m"
    using hgives_last_pprev [of q m m1] assms(4) m1 by (auto simp: hgives_def)
qed

lemma INIT_HLIST_NODE_gives:
  assumes "n \<in> dom (hnodes m)"
  shows "hgives (INIT_HLIST_NODE n m) ((refs m)(HNext n \<mapsto> NULL)) ((pprevs m)(n \<mapsto> HNull)) m"
  unfolding INIT_HLIST_NODE_def
  by (rule hgives_step_ref) (use assms in \<open>auto simp: dom_refs intro!: hgives_last_pprev\<close>)

lemma hash_rep_del_init:
  assumes r: "hash_rep m B X" and i: "B i = xs @ n # ys"
  shows "\<exists>m'. hlist_del_init n m = Some m' \<and> hash_rep m' (B(i := xs @ ys)) X"
proof -
  have c: "hchain (refs m) (pprevs m) (HFirst i) (xs @ n # ys)" using hash_repD(1) [OF r, of i] i by simp
  have d: "distinct (xs @ n # ys)" using hash_repD(2) [OF r, of i] i by simp
  have nX: "n \<in> X" using hash_repD(3) [OF r, of i] i by auto
  define p q where "p = pred_ref (HFirst i) xs" and "q = first_of ys"
  have mid: "pprevs m n = Some p" "refs m (HNext n) = Some q" using hchain_middle [OF c] by (simp_all add: p_def q_def)
  have qy: "q = NULL \<longleftrightarrow> ys = []" "ys \<noteq> [] \<Longrightarrow> q \<in> set ys"
    using hchain_NULL [OF c] by (cases ys; auto simp: q_def first_of_def)+
  have pd: "p \<in> dom (refs m)" "p \<noteq> HNext n" "p \<in> insert (HFirst i) (HNext ` set xs)"
    using hchain_dom [OF c] d by (cases xs rule: rev_cases; auto simp: p_def pred_ref_def)+
  have qd: "q \<noteq> NULL \<Longrightarrow> q \<in> dom (hnodes m)"
    using hash_repD(5) [OF r, of q] hash_repD(3) [OF r, of i] qy i by auto
  let ?P1 = "if q \<noteq> NULL then (pprevs m)(q \<mapsto> p) else pprevs m"
  from hlist_unlink_gives [OF mid(2,1) pd(1) qd] obtain m1 where
    m1: "hlist_unlink n m = Some m1" "refs m1 = (refs m)(p \<mapsto> q)" "pprevs m1 = ?P1" "dom (hnodes m1) = dom (hnodes m)"
    by (auto simp: hgives_def)
  have "n \<in> dom (hnodes m1)" using m1(4) hash_repD(5) [OF r nX] by simp
  from INIT_HLIST_NODE_gives [OF this] m1(2-4) obtain m2 where
    m2: "INIT_HLIST_NODE n m1 = Some m2" "refs m2 = (refs m)(p \<mapsto> q, HNext n \<mapsto> NULL)" "pprevs m2 = ?P1(n \<mapsto> HNull)"
      "dom (hnodes m2) = dom (hnodes m)" by (auto simp: hgives_def)
  have qn: "q \<noteq> n" using qy d hash_repD(5) [OF r nX] by (cases "ys = []") auto
  have "hash_rep m2 (B(i := xs @ ys)) X"
  proof (rule hash_rep_update [OF r m2(4), where n = n])
    show "hchain (refs m2) (pprevs m2) (HFirst i) (xs @ ys)"
      by (rule hchain_delete [OF c d])
        (use m2(2,3) pd(2) qy qn in \<open>auto simp: p_def [symmetric] q_def [symmetric]\<close>)
  next
    fix x assume "x \<notin> insert n (set (B i))"
    then show "pprevs m2 x = pprevs m x" using m2(3) qy i by (cases "ys = []") auto
  next
    fix q' assume "q' \<noteq> HFirst i" "q' \<notin> HNext ` insert n (set (B i))"
    then show "refs m2 q' = refs m q'" using m2(2) pd(3) i by auto
  qed (use nX d i m2(3) hash_repD(4) [OF r, of _ i] in auto)
  moreover have "hlist_del_init n m = Some m2"
    using m1(1) m2(1) mid(1) pd by (auto simp: hlist_del_init_def hlist_unhashed_def get_pprev_pprevs)
  ultimately show ?thesis by blast
qed

lemma hlist_del_init_unhashed:
  assumes "hash_rep m B X" "n \<in> X" "\<forall>i. n \<notin> set (B i)"
  shows "hlist_del_init n m = Some m"
  using hash_rep_unhashed [OF assms(1,2)] assms(3) by (simp add: hlist_del_init_def)

end
