(* ===== verification/Blk_Request.thy ===== *)
theory Blk_Request
  imports Rbtree Klist Khlist
begin

text \<open>
  The data of the block layer: requests, bios and the request queue
  (\<open>include/linux/blkdev.h\<close>, \<open>include/linux/bio.h\<close>), with the tests on request flags, jiffies
  comparison and hashing, and the queue operations of \<open>block/blk-core.c\<close> that the I/O
  schedulers rely on.

  A request is named by one address.  Its \<open>queuelist\<close>, \<open>rb_node\<close> and \<open>hash\<close> members live in the
  memories \<open>q_lists\<close>, \<open>q_nodes\<close> and \<open>q_hash\<close> under that address (\<open>container_of\<close> is the
  identity), the other members in \<open>q_reqs\<close>.  The state of a queue is one record, with the
  scheduler's private data in \<open>elevator_data\<close>.
\<close>

section \<open>Requests and bios\<close>

text \<open>The type of a request; a request that is being set up has type 0.\<close>

definition REQ_TYPE_FS :: u32 where "REQ_TYPE_FS = 1"

definition REQ_RW :: u32 where "REQ_RW = push_bit 0 1"
definition REQ_DISCARD :: u32 where "REQ_DISCARD = push_bit 4 1"
definition REQ_SORTED :: u32 where "REQ_SORTED = push_bit 5 1"
definition REQ_SOFTBARRIER :: u32 where "REQ_SOFTBARRIER = push_bit 6 1"
definition REQ_HARDBARRIER :: u32 where "REQ_HARDBARRIER = push_bit 7 1"
definition REQ_NOMERGE :: u32 where "REQ_NOMERGE = push_bit 9 1"
definition REQ_STARTED :: u32 where "REQ_STARTED = push_bit 10 1"
definition REQ_ELVPRIV :: u32 where "REQ_ELVPRIV = push_bit 13 1"
definition REQ_ORDERED_COLOR :: u32 where "REQ_ORDERED_COLOR = push_bit 17 1"
definition REQ_RW_SYNC :: u32 where "REQ_RW_SYNC = push_bit 18 1"

record request =
  cmd_flags :: u32
  cmd_type :: u32
  data_len :: u32
  sector :: sector_t
  rq_bio :: addr
  rq_disk :: addr
  special :: addr
  fifo_time :: u32

record bio =
  bi_sector :: sector_t
  bi_disk :: addr
  bi_rw :: u32
  bi_size :: u32

definition has_flag :: "request \<Rightarrow> u32 \<Rightarrow> bool" where
  "has_flag rq f \<longleftrightarrow> cmd_flags rq AND f \<noteq> 0"

definition blk_fs_request :: "request \<Rightarrow> bool" where
  "blk_fs_request rq \<longleftrightarrow> cmd_type rq = REQ_TYPE_FS"

definition blk_rq_started :: "request \<Rightarrow> bool" where
  "blk_rq_started rq = has_flag rq REQ_STARTED"

definition blk_discard_rq :: "request \<Rightarrow> u32" where
  "blk_discard_rq rq = cmd_flags rq AND REQ_DISCARD"

definition blk_account_rq :: "request \<Rightarrow> bool" where
  "blk_account_rq rq \<longleftrightarrow> blk_rq_started rq \<and> (blk_fs_request rq \<or> blk_discard_rq rq \<noteq> 0)"

definition blk_sorted_rq :: "request \<Rightarrow> bool" where
  "blk_sorted_rq rq = has_flag rq REQ_SORTED"

definition blk_barrier_rq :: "request \<Rightarrow> bool" where
  "blk_barrier_rq rq = has_flag rq REQ_HARDBARRIER"

definition rq_data_dir :: "request \<Rightarrow> u32" where
  "rq_data_dir rq = cmd_flags rq AND 1"

definition rw_is_sync :: "u32 \<Rightarrow> bool" where
  "rw_is_sync rw_flags \<longleftrightarrow> rw_flags AND REQ_RW = 0 \<or> rw_flags AND REQ_RW_SYNC \<noteq> 0"

definition rq_is_sync :: "request \<Rightarrow> bool" where
  "rq_is_sync rq = rw_is_sync (cmd_flags rq)"

definition RQ_NOMERGE_FLAGS :: u32 where
  "RQ_NOMERGE_FLAGS = REQ_NOMERGE OR REQ_STARTED OR REQ_HARDBARRIER OR REQ_SOFTBARRIER"

definition rq_mergeable :: "request \<Rightarrow> bool" where
  "rq_mergeable rq \<longleftrightarrow> \<not> has_flag rq RQ_NOMERGE_FLAGS \<and> (blk_discard_rq rq \<noteq> 0 \<or> blk_fs_request rq)"

definition blk_rq_pos :: "request \<Rightarrow> sector_t" where
  "blk_rq_pos rq = sector rq"

definition blk_rq_bytes :: "request \<Rightarrow> u32" where
  "blk_rq_bytes rq = data_len rq"

definition blk_rq_sectors :: "request \<Rightarrow> u32" where
  "blk_rq_sectors rq = drop_bit 9 (blk_rq_bytes rq)"

definition rq_end_sector :: "request \<Rightarrow> sector_t" where
  "rq_end_sector rq = blk_rq_pos rq + ucast (blk_rq_sectors rq)"

definition BIO_RW_DISCARD :: nat where "BIO_RW_DISCARD = 9"

definition bio_rw_flagged :: "bio \<Rightarrow> nat \<Rightarrow> bool" where
  "bio_rw_flagged b flag \<longleftrightarrow> bi_rw b AND push_bit flag 1 \<noteq> 0"

definition bio_sectors :: "bio \<Rightarrow> u32" where
  "bio_sectors b = drop_bit 9 (bi_size b)"

definition bio_data_dir :: "bio \<Rightarrow> u32" where
  "bio_data_dir b = bi_rw b AND 1"

section \<open>Jiffies and hashing\<close>

text \<open>Jiffies are compared by the sign of their wrapped difference.\<close>

definition time_after :: "u32 \<Rightarrow> u32 \<Rightarrow> bool" where
  "time_after a b \<longleftrightarrow> sint (b - a) < 0"

definition time_before :: "u32 \<Rightarrow> u32 \<Rightarrow> bool" where
  "time_before a b = time_after b a"

definition HZ :: u32 where "HZ = 1000"

definition GOLDEN_RATIO_PRIME_32 :: u32 where "GOLDEN_RATIO_PRIME_32 = 0x9e370001"

definition hash_32 :: "u32 \<Rightarrow> nat \<Rightarrow> u32" where
  "hash_32 val bits = drop_bit (32 - bits) (val * GOLDEN_RATIO_PRIME_32)"

section \<open>The request queue\<close>

definition QUEUE_FLAG_STOPPED :: nat where "QUEUE_FLAG_STOPPED = 2"
definition QUEUE_FLAG_REENTER :: nat where "QUEUE_FLAG_REENTER = 6"
definition QUEUE_FLAG_PLUGGED :: nat where "QUEUE_FLAG_PLUGGED = 7"
definition QUEUE_FLAG_NOMERGES :: nat where "QUEUE_FLAG_NOMERGES = 10"
definition QUEUE_FLAG_NONROT :: nat where "QUEUE_FLAG_NONROT = 14"
definition QUEUE_FLAG_NOXMERGES :: nat where "QUEUE_FLAG_NOXMERGES = 17"

record 'd request_queue =
  q_lists :: list_heap
  q_nodes :: rb_heap
  q_hash :: hlist_mem
  q_reqs :: "addr \<rightharpoonup> request"
  q_bios :: "addr \<rightharpoonup> bio"
  jiffies :: u32
  queue_head :: addr
  last_merge :: addr
  end_sector :: sector_t
  boundary_rq :: addr
  queue_flags :: u32
  nr_sorted :: u32
  in_flight :: "bool \<Rightarrow> u32"
  rq_count :: "bool \<Rightarrow> u32"
  unplug_thresh :: u32
  ordcolor :: bool
  ordseq :: u32
  pre_flush_rq :: addr
  bar_rq :: addr
  post_flush_rq :: addr
  orig_bar_rq :: addr
  elevator_data :: 'd

abbreviation READ :: bool where "READ \<equiv> False"
abbreviation WRITE :: bool where "WRITE \<equiv> True"
abbreviation ASYNC :: bool where "ASYNC \<equiv> False"
abbreviation SYNC :: bool where "SYNC \<equiv> True"

text \<open>The memories of a queue, updated by the operations on lists, trees, chains and requests.\<close>

definition on_lists :: "(list_heap \<Rightarrow> list_heap option) \<Rightarrow> 'd request_queue \<Rightarrow> 'd request_queue option" where
  "on_lists f q = do { m \<leftarrow> f (q_lists q); Some (q\<lparr>q_lists := m\<rparr>) }"

definition on_hash :: "(hlist_mem \<Rightarrow> hlist_mem option) \<Rightarrow> 'd request_queue \<Rightarrow> 'd request_queue option" where
  "on_hash f q = do { m \<leftarrow> f (q_hash q); Some (q\<lparr>q_hash := m\<rparr>) }"

definition on_req :: "addr \<Rightarrow> (request \<Rightarrow> request) \<Rightarrow> 'd request_queue \<Rightarrow> 'd request_queue option" where
  "on_req rq f q = do { m \<leftarrow> write_at rq f (q_reqs q); Some (q\<lparr>q_reqs := m\<rparr>) }"

definition set_flag :: "u32 \<Rightarrow> request \<Rightarrow> request" where
  "set_flag f rq = rq\<lparr>cmd_flags := cmd_flags rq OR f\<rparr>"

text \<open>
  The expiry time of a request is kept in \<open>csd.list.next\<close>; clearing it reinitialises that list
  head, which is at offset 8 of the request.
\<close>

definition rq_set_fifo_time :: "addr \<Rightarrow> u32 \<Rightarrow> 'd request_queue \<Rightarrow> 'd request_queue option" where
  "rq_set_fifo_time rq t q = on_req rq (\<lambda>r. r\<lparr>fifo_time := t\<rparr>) q"

definition rq_fifo_clear :: "addr \<Rightarrow> 'd request_queue \<Rightarrow> 'd request_queue option" where
  "rq_fifo_clear rq q = do {
     q \<leftarrow> on_lists (list_del_init rq) q;
     on_req rq (\<lambda>r. r\<lparr>fifo_time := rq + 8\<rparr>) q }"

text \<open>
  The part that the schedulers share when they merge \<open>next'\<close> into \<open>rq\<close>: a request that inherits an
  earlier expiry time also takes the place of \<open>next'\<close> in its list.
\<close>

definition fifo_inherit :: "addr \<Rightarrow> addr \<Rightarrow> 'd request_queue \<Rightarrow> 'd request_queue option" where
  "fifo_inherit rq next' q = do {
     rq_free \<leftarrow> list_empty rq (q_lists q);
     next_free \<leftarrow> (if rq_free then Some True else list_empty next' (q_lists q));
     if \<not> rq_free \<and> \<not> next_free then do {
       r \<leftarrow> q_reqs q rq;
       n \<leftarrow> q_reqs q next';
       if time_before (fifo_time n) (fifo_time r) then do {
         q \<leftarrow> on_lists (list_move rq next') q;
         rq_set_fifo_time rq (fifo_time n) q }
       else Some q }
     else Some q }"

definition test_queue_flag :: "nat \<Rightarrow> 'd request_queue \<Rightarrow> bool" where
  "test_queue_flag n q = bit (queue_flags q) n"

definition queue_flag_set :: "nat \<Rightarrow> 'd request_queue \<Rightarrow> 'd request_queue" where
  "queue_flag_set n q = q\<lparr>queue_flags := set_bit n (queue_flags q)\<rparr>"

definition queue_flag_clear :: "nat \<Rightarrow> 'd request_queue \<Rightarrow> 'd request_queue" where
  "queue_flag_clear n q = q\<lparr>queue_flags := unset_bit n (queue_flags q)\<rparr>"

definition queue_in_flight :: "'d request_queue \<Rightarrow> u32" where
  "queue_in_flight q = in_flight q False + in_flight q True"

text \<open>
  The stages of a barrier's ordered sequence (\<open>block/blk-barrier.c\<close>): the current one is the
  first that is not marked complete in \<open>ordseq\<close>, and each request belongs to one.
\<close>

definition QUEUE_ORDSEQ_DRAIN :: u32 where "QUEUE_ORDSEQ_DRAIN = 0x02"
definition QUEUE_ORDSEQ_PREFLUSH :: u32 where "QUEUE_ORDSEQ_PREFLUSH = 0x04"
definition QUEUE_ORDSEQ_BAR :: u32 where "QUEUE_ORDSEQ_BAR = 0x08"
definition QUEUE_ORDSEQ_POSTFLUSH :: u32 where "QUEUE_ORDSEQ_POSTFLUSH = 0x10"
definition QUEUE_ORDSEQ_DONE :: u32 where "QUEUE_ORDSEQ_DONE = 0x20"

definition blk_ordered_req_seq :: "addr \<Rightarrow> 'd request_queue \<Rightarrow> u32 option" where
  "blk_ordered_req_seq rq q = do {
     r \<leftarrow> q_reqs q rq;
     _ \<leftarrow> BUG_ON (ordseq q = 0);
     if rq = pre_flush_rq q then Some QUEUE_ORDSEQ_PREFLUSH
     else if rq = bar_rq q then Some QUEUE_ORDSEQ_BAR
     else if rq = post_flush_rq q then Some QUEUE_ORDSEQ_POSTFLUSH
     else if \<not> blk_fs_request r then Some QUEUE_ORDSEQ_DRAIN
     else do {
       ob \<leftarrow> q_reqs q (orig_bar_rq q);
       Some (if cmd_flags r AND REQ_ORDERED_COLOR = cmd_flags ob AND REQ_ORDERED_COLOR
             then QUEUE_ORDSEQ_DRAIN else QUEUE_ORDSEQ_DONE) } }"

text \<open>
  A request as it leaves the allocator: on no list, chain or tree.  The members that the
  model leaves out are not touched.
\<close>

definition blk_rq_init :: "addr \<Rightarrow> 'd request_queue \<Rightarrow> 'd request_queue option" where
  "blk_rq_init rq q = do {
     q \<leftarrow> on_req rq (\<lambda>_. \<lparr>cmd_flags = 0, cmd_type = 0, data_len = 0, sector = 0, rq_bio = NULL,
            rq_disk = NULL, special = NULL, fifo_time = 0\<rparr>) q;
     q \<leftarrow> on_lists (INIT_LIST_HEAD rq) q;
     q \<leftarrow> on_req rq (\<lambda>r. r\<lparr>sector := - 1\<rparr>) q;
     q \<leftarrow> on_hash (INIT_HLIST_NODE rq) q;
     ns \<leftarrow> RB_CLEAR_NODE rq (q_nodes q);
     Some (q\<lparr>q_nodes := ns\<rparr>) }"

definition blk_plug_device :: "'d request_queue \<Rightarrow> 'd request_queue" where
  "blk_plug_device q = (if test_queue_flag QUEUE_FLAG_STOPPED q then q
     else queue_flag_set QUEUE_FLAG_PLUGGED q)"

definition blk_remove_plug :: "'d request_queue \<Rightarrow> bool \<times> 'd request_queue" where
  "blk_remove_plug q = (if test_queue_flag QUEUE_FLAG_PLUGGED q
     then (True, queue_flag_clear QUEUE_FLAG_PLUGGED q) else (False, q))"

text \<open>\<open>request_fn\<close> is the driver's strategy routine, a parameter.\<close>

definition generic_unplug_device ::
  "('d request_queue \<Rightarrow> 'd request_queue option) \<Rightarrow> 'd request_queue \<Rightarrow> 'd request_queue option" where
  "generic_unplug_device request_fn q =
     (if test_queue_flag QUEUE_FLAG_STOPPED q then Some q
      else (case blk_remove_plug q of (removed, q) \<Rightarrow>
        if \<not> removed \<and> \<not> test_queue_flag QUEUE_FLAG_NONROT q then Some q else request_fn q))"

definition blk_dequeue_request :: "addr \<Rightarrow> 'd request_queue \<Rightarrow> 'd request_queue option" where
  "blk_dequeue_request rq q = do {
     r \<leftarrow> q_reqs q rq;
     empty \<leftarrow> list_empty rq (q_lists q);
     _ \<leftarrow> BUG_ON empty;
     unhashed \<leftarrow> hlist_unhashed rq (q_hash q);
     _ \<leftarrow> BUG_ON (\<not> unhashed);
     q \<leftarrow> on_lists (list_del_init rq) q;
     Some (if blk_account_rq r
       then q\<lparr>in_flight := (in_flight q)(rq_is_sync r := in_flight q (rq_is_sync r) + 1)\<rparr> else q) }"

end
