(* ===== verification/Elevator.thy ===== *)
theory Elevator
  imports Blk_Request
begin

text \<open>
  The I/O scheduler core \<open>block/elevator.c\<close>: the merge hash, the sorted trees of requests, the
  dispatch queue, merging, insertion and draining.  A scheduler is a record of operations, as
  in \<open>struct elevator_ops\<close>; an operation that a scheduler leaves \<open>NULL\<close> is \<open>None\<close> there.
\<close>

section \<open>The merge hash\<close>

definition elv_hash_shift :: nat where "elv_hash_shift = 6"

definition ELV_HASH_BLOCK :: "sector_t \<Rightarrow> sector_t" where
  "ELV_HASH_BLOCK sec = drop_bit 3 sec"

definition ELV_HASH_FN :: "sector_t \<Rightarrow> u32" where
  "ELV_HASH_FN sec = hash_32 (ucast (ELV_HASH_BLOCK sec)) elv_hash_shift"

definition rq_hash_key :: "request \<Rightarrow> sector_t" where
  "rq_hash_key rq = blk_rq_pos rq + ucast (blk_rq_sectors rq)"

definition ELV_ON_HASH :: "addr \<Rightarrow> 'd request_queue \<Rightarrow> bool option" where
  "ELV_ON_HASH rq q = do { unhashed \<leftarrow> hlist_unhashed rq (q_hash q); Some (\<not> unhashed) }"

definition elv_rqhash_del_entry :: "addr \<Rightarrow> 'd request_queue \<Rightarrow> 'd request_queue option" where
  "elv_rqhash_del_entry rq q = on_hash (hlist_del_init rq) q"

definition elv_rqhash_del :: "addr \<Rightarrow> 'd request_queue \<Rightarrow> 'd request_queue option" where
  "elv_rqhash_del rq q = do {
     on_hash' \<leftarrow> ELV_ON_HASH rq q;
     if on_hash' then elv_rqhash_del_entry rq q else Some q }"

definition elv_rqhash_add :: "addr \<Rightarrow> 'd request_queue \<Rightarrow> 'd request_queue option" where
  "elv_rqhash_add rq q = do {
     on_hash' \<leftarrow> ELV_ON_HASH rq q;
     _ \<leftarrow> BUG_ON on_hash';
     r \<leftarrow> q_reqs q rq;
     on_hash (hlist_add_head rq (ELV_HASH_FN (rq_hash_key r))) q }"

definition elv_rqhash_reposition :: "addr \<Rightarrow> 'd request_queue \<Rightarrow> 'd request_queue option" where
  "elv_rqhash_reposition rq q = do {
     q \<leftarrow> elv_rqhash_del_entry rq q;
     elv_rqhash_add rq q }"

partial_function (option) elv_rqhash_find_loop ::
  "addr \<Rightarrow> sector_t \<Rightarrow> 'd request_queue \<Rightarrow> (addr \<times> 'd request_queue) option" where
  "elv_rqhash_find_loop entry offset q =
     (if entry = NULL then Some (NULL, q)
      else do {
        next' \<leftarrow> read_ref (HNext entry) (q_hash q);
        on_hash' \<leftarrow> ELV_ON_HASH entry q;
        _ \<leftarrow> BUG_ON (\<not> on_hash');
        r \<leftarrow> q_reqs q entry;
        if \<not> rq_mergeable r then do {
          q \<leftarrow> elv_rqhash_del_entry entry q;
          elv_rqhash_find_loop next' offset q }
        else if rq_hash_key r = offset then Some (entry, q)
        else elv_rqhash_find_loop next' offset q })"

definition elv_rqhash_find :: "sector_t \<Rightarrow> 'd request_queue \<Rightarrow> (addr \<times> 'd request_queue) option" where
  "elv_rqhash_find offset q = do {
     first \<leftarrow> read_ref (HFirst (ELV_HASH_FN offset)) (q_hash q);
     elv_rqhash_find_loop first offset q }"

section \<open>Sorted trees of requests\<close>

text \<open>
  The descent of \<open>elv_rb_add\<close>: \<open>Inl\<close> is a request at the same sector, \<open>Inr\<close> the parent and the
  link at which to insert.
\<close>

partial_function (option) elv_rb_add_walk ::
  "(addr \<rightharpoonup> request) \<Rightarrow> rb_heap \<Rightarrow> addr \<Rightarrow> sector_t \<Rightarrow> addr \<Rightarrow> rb_link \<Rightarrow> (addr + addr \<times> rb_link) option" where
  "elv_rb_add_walk reqs h root sec parent p = do {
     x \<leftarrow> read_link p h root;
     if x = NULL then Some (Inr (parent, p))
     else do {
       r \<leftarrow> reqs x;
       if sec < blk_rq_pos r then elv_rb_add_walk reqs h root sec x (Left_link x)
       else if sec > blk_rq_pos r then elv_rb_add_walk reqs h root sec x (Right_link x)
       else Some (Inl x) } }"

definition elv_rb_add ::
  "(addr \<rightharpoonup> request) \<Rightarrow> addr \<Rightarrow> rb_heap \<Rightarrow> addr \<Rightarrow> (addr \<times> rb_heap \<times> addr) option" where
  "elv_rb_add reqs rq h root = do {
     r \<leftarrow> reqs rq;
     res \<leftarrow> elv_rb_add_walk reqs h root (blk_rq_pos r) NULL Root_link;
     case res of
       Inl alias \<Rightarrow> Some (alias, h, root)
     | Inr (parent, p) \<Rightarrow> do {
         (h, root) \<leftarrow> rb_link_node rq parent p h root;
         (h, root) \<leftarrow> rb_insert_color rq h root;
         Some (NULL, h, root) } }"

definition elv_rb_del :: "addr \<Rightarrow> rb_heap \<Rightarrow> addr \<Rightarrow> (rb_heap \<times> addr) option" where
  "elv_rb_del rq h root = do {
     empty \<leftarrow> RB_EMPTY_NODE rq h;
     _ \<leftarrow> BUG_ON empty;
     (h, root) \<leftarrow> rb_erase rq h root;
     h \<leftarrow> RB_CLEAR_NODE rq h;
     Some (h, root) }"

partial_function (option) elv_rb_find ::
  "(addr \<rightharpoonup> request) \<Rightarrow> rb_heap \<Rightarrow> addr \<Rightarrow> sector_t \<Rightarrow> addr option" where
  "elv_rb_find reqs h n sec =
     (if n = NULL then Some NULL
      else do {
        r \<leftarrow> reqs n;
        nd \<leftarrow> h n;
        if sec < blk_rq_pos r then elv_rb_find reqs h (rb_left nd) sec
        else if sec > blk_rq_pos r then elv_rb_find reqs h (rb_right nd) sec
        else Some n })"

definition elv_rb_former_request :: "addr \<Rightarrow> 'd request_queue \<Rightarrow> addr option" where
  "elv_rb_former_request rq q = rb_prev rq (q_nodes q)"

definition elv_rb_latter_request :: "addr \<Rightarrow> 'd request_queue \<Rightarrow> addr option" where
  "elv_rb_latter_request rq q = rb_next rq (q_nodes q)"

section \<open>The dispatch queue\<close>

text \<open>Whether the backward walk of \<open>elv_dispatch_sort\<close> stops at the queued request \<open>pos\<close>.\<close>

definition dispatch_stops :: "sector_t \<Rightarrow> request \<Rightarrow> request \<Rightarrow> bool" where
  "dispatch_stops boundary rq pos \<longleftrightarrow>
     blk_discard_rq rq \<noteq> blk_discard_rq pos \<or>
     rq_data_dir rq \<noteq> rq_data_dir pos \<or>
     has_flag pos (REQ_SOFTBARRIER OR REQ_HARDBARRIER OR REQ_STARTED) \<or>
     (if blk_rq_pos rq \<ge> boundary
      then \<not> blk_rq_pos pos < boundary \<and> blk_rq_pos rq \<ge> blk_rq_pos pos
      else blk_rq_pos pos \<ge> boundary \<or> blk_rq_pos rq \<ge> blk_rq_pos pos)"

partial_function (option) elv_dispatch_sort_walk ::
  "sector_t \<Rightarrow> request \<Rightarrow> addr \<Rightarrow> 'd request_queue \<Rightarrow> addr option" where
  "elv_dispatch_sort_walk boundary rq entry q =
     (if entry = queue_head q then Some entry
      else do {
        pos \<leftarrow> q_reqs q entry;
        if dispatch_stops boundary rq pos then Some entry
        else do {
          prev \<leftarrow> get_prev entry (q_lists q);
          elv_dispatch_sort_walk boundary rq prev q } })"

definition forget_last_merge :: "addr \<Rightarrow> 'd request_queue \<Rightarrow> 'd request_queue" where
  "forget_last_merge rq q = (if last_merge q = rq then q\<lparr>last_merge := NULL\<rparr> else q)"

definition elv_dispatch_sort :: "addr \<Rightarrow> 'd request_queue \<Rightarrow> 'd request_queue option" where
  "elv_dispatch_sort rq q = do {
     q \<leftarrow> elv_rqhash_del rq (forget_last_merge rq q);
     let q = q\<lparr>nr_sorted := nr_sorted q - 1\<rparr>;
     r \<leftarrow> q_reqs q rq;
     last' \<leftarrow> get_prev (queue_head q) (q_lists q);
     entry \<leftarrow> elv_dispatch_sort_walk (end_sector q) r last' q;
     on_lists (list_add rq entry) q }"

definition elv_dispatch_add_tail :: "addr \<Rightarrow> 'd request_queue \<Rightarrow> 'd request_queue option" where
  "elv_dispatch_add_tail rq q = do {
     q \<leftarrow> elv_rqhash_del rq (forget_last_merge rq q);
     let q = q\<lparr>nr_sorted := nr_sorted q - 1\<rparr>;
     r \<leftarrow> q_reqs q rq;
     let q = q\<lparr>end_sector := rq_end_sector r, boundary_rq := rq\<rparr>;
     on_lists (list_add_tail rq (queue_head q)) q }"

section \<open>Schedulers\<close>

datatype elv_merge_ret = ELEVATOR_NO_MERGE | ELEVATOR_FRONT_MERGE | ELEVATOR_BACK_MERGE

record 'd elevator_ops =
  elevator_merge_fn :: "(addr \<Rightarrow> 'd request_queue \<Rightarrow> (elv_merge_ret \<times> addr) option) option"
  elevator_merged_fn :: "(addr \<Rightarrow> elv_merge_ret \<Rightarrow> 'd request_queue \<Rightarrow> 'd request_queue option) option"
  elevator_merge_req_fn :: "(addr \<Rightarrow> addr \<Rightarrow> 'd request_queue \<Rightarrow> 'd request_queue option) option"
  elevator_allow_merge_fn :: "(addr \<Rightarrow> addr \<Rightarrow> 'd request_queue \<Rightarrow> bool option) option"
  elevator_dispatch_fn :: "bool \<Rightarrow> 'd request_queue \<Rightarrow> (bool \<times> 'd request_queue) option"
  elevator_add_req_fn :: "addr \<Rightarrow> 'd request_queue \<Rightarrow> 'd request_queue option"
  elevator_deactivate_req_fn :: "(addr \<Rightarrow> 'd request_queue \<Rightarrow> 'd request_queue option) option"
  elevator_queue_empty_fn :: "('d request_queue \<Rightarrow> bool option) option"
  elevator_former_req_fn :: "(addr \<Rightarrow> 'd request_queue \<Rightarrow> addr option) option"
  elevator_latter_req_fn :: "(addr \<Rightarrow> 'd request_queue \<Rightarrow> addr option) option"
  elevator_exit_fn :: "('d request_queue \<Rightarrow> unit option) option"

section \<open>Merging\<close>

type_synonym 'd allow_merge_fn = "(addr \<Rightarrow> addr \<Rightarrow> 'd request_queue \<Rightarrow> bool option) option"

definition elv_iosched_allow_merge :: "'d allow_merge_fn \<Rightarrow> addr \<Rightarrow> addr \<Rightarrow> 'd request_queue \<Rightarrow> bool option" where
  "elv_iosched_allow_merge allow rq bio' q = (case allow of
       Some f \<Rightarrow> f rq bio' q
     | None \<Rightarrow> Some True)"

text \<open>\<open>CONFIG_BLK_DEV_INTEGRITY\<close> is off, so the integrity test always agrees.\<close>

definition elv_rq_merge_ok :: "'d allow_merge_fn \<Rightarrow> addr \<Rightarrow> addr \<Rightarrow> 'd request_queue \<Rightarrow> bool option" where
  "elv_rq_merge_ok allow rq bio' q = do {
     r \<leftarrow> q_reqs q rq;
     if \<not> rq_mergeable r then Some False
     else do {
       b \<leftarrow> q_bios q bio';
       rb \<leftarrow> q_bios q (rq_bio r);
       if bio_rw_flagged b BIO_RW_DISCARD \<noteq> bio_rw_flagged rb BIO_RW_DISCARD then Some False
       else if bio_data_dir b \<noteq> rq_data_dir r then Some False
       else if rq_disk r \<noteq> bi_disk b \<or> special r \<noteq> NULL then Some False
       else elv_iosched_allow_merge allow rq bio' q } }"

definition elv_try_merge :: "'d elevator_ops \<Rightarrow> addr \<Rightarrow> addr \<Rightarrow> 'd request_queue \<Rightarrow> elv_merge_ret option" where
  "elv_try_merge ops rq bio' q = do {
     merge_ok \<leftarrow> elv_rq_merge_ok (elevator_allow_merge_fn ops) rq bio' q;
     if merge_ok then do {
       r \<leftarrow> q_reqs q rq;
       b \<leftarrow> q_bios q bio';
       Some (if blk_rq_pos r + ucast (blk_rq_sectors r) = bi_sector b then ELEVATOR_BACK_MERGE
             else if blk_rq_pos r - ucast (bio_sectors b) = bi_sector b then ELEVATOR_FRONT_MERGE
             else ELEVATOR_NO_MERGE) }
     else Some ELEVATOR_NO_MERGE }"

text \<open>The lookup of \<open>elv_merge\<close> after the one-hit cache: the merge hash, then the scheduler.\<close>

definition elv_merge_lookup ::
  "'d elevator_ops \<Rightarrow> addr \<Rightarrow> 'd request_queue \<Rightarrow> (elv_merge_ret \<times> addr \<times> 'd request_queue) option" where
  "elv_merge_lookup ops bio' q = do {
     b \<leftarrow> q_bios q bio';
     (rq, q) \<leftarrow> elv_rqhash_find (bi_sector b) q;
     merge_ok \<leftarrow> (if rq \<noteq> NULL then elv_rq_merge_ok (elevator_allow_merge_fn ops) rq bio' q else Some False);
     if merge_ok then Some (ELEVATOR_BACK_MERGE, rq, q)
     else (case elevator_merge_fn ops of
         Some f \<Rightarrow> do { (ret, req) \<leftarrow> f bio' q; Some (ret, req, q) }
       | None \<Rightarrow> Some (ELEVATOR_NO_MERGE, NULL, q)) }"

definition elv_merge ::
  "'d elevator_ops \<Rightarrow> addr \<Rightarrow> 'd request_queue \<Rightarrow> (elv_merge_ret \<times> addr \<times> 'd request_queue) option" where
  "elv_merge ops bio' q =
     (if test_queue_flag QUEUE_FLAG_NOMERGES q then Some (ELEVATOR_NO_MERGE, NULL, q)
      else do {
        ret \<leftarrow> (if last_merge q \<noteq> NULL then elv_try_merge ops (last_merge q) bio' q
               else Some ELEVATOR_NO_MERGE);
        if ret \<noteq> ELEVATOR_NO_MERGE then Some (ret, last_merge q, q)
        else if test_queue_flag QUEUE_FLAG_NOXMERGES q then Some (ELEVATOR_NO_MERGE, NULL, q)
        else elv_merge_lookup ops bio' q })"

definition elv_merged_request ::
  "'d elevator_ops \<Rightarrow> addr \<Rightarrow> elv_merge_ret \<Rightarrow> 'd request_queue \<Rightarrow> 'd request_queue option" where
  "elv_merged_request ops rq type' q = do {
     q \<leftarrow> (case elevator_merged_fn ops of Some f \<Rightarrow> f rq type' q | None \<Rightarrow> Some q);
     q \<leftarrow> (if type' = ELEVATOR_BACK_MERGE then elv_rqhash_reposition rq q else Some q);
     Some (q\<lparr>last_merge := rq\<rparr>) }"

definition elv_merge_requests ::
  "'d elevator_ops \<Rightarrow> addr \<Rightarrow> addr \<Rightarrow> 'd request_queue \<Rightarrow> 'd request_queue option" where
  "elv_merge_requests ops rq next' q = do {
     q \<leftarrow> (case elevator_merge_req_fn ops of Some f \<Rightarrow> f rq next' q | None \<Rightarrow> Some q);
     q \<leftarrow> elv_rqhash_reposition rq q;
     q \<leftarrow> elv_rqhash_del next' q;
     Some (q\<lparr>nr_sorted := nr_sorted q - 1, last_merge := rq\<rparr>) }"

section \<open>Draining and insertion\<close>

text \<open>
  \<open>elv_drain_elevator\<close> calls the scheduler until it dispatches nothing; the flag that comes with
  the queue says whether the "forced dispatching is broken" message is printed (the
  source limits the message to ten times).
\<close>

partial_function (option) elv_drain_loop :: "'d elevator_ops \<Rightarrow> 'd request_queue \<Rightarrow> 'd request_queue option" where
  "elv_drain_loop ops q = do {
     (dispatched, q) \<leftarrow> elevator_dispatch_fn ops True q;
     if dispatched then elv_drain_loop ops q else Some q }"

definition elv_drain_elevator :: "'d elevator_ops \<Rightarrow> 'd request_queue \<Rightarrow> (bool \<times> 'd request_queue) option" where
  "elv_drain_elevator ops q = do {
     q \<leftarrow> elv_drain_loop ops q;
     Some (nr_sorted q \<noteq> 0, q) }"

definition elv_queue_empty :: "'d elevator_ops \<Rightarrow> 'd request_queue \<Rightarrow> bool option" where
  "elv_queue_empty ops q = do {
     empty \<leftarrow> list_empty (queue_head q) (q_lists q);
     if \<not> empty then Some False
     else (case elevator_queue_empty_fn ops of Some f \<Rightarrow> f q | None \<Rightarrow> Some True) }"

definition blk_run_queue ::
  "'d elevator_ops \<Rightarrow> ('d request_queue \<Rightarrow> 'd request_queue option) \<Rightarrow> 'd request_queue \<Rightarrow> 'd request_queue option" where
  "blk_run_queue ops request_fn q = (case blk_remove_plug q of (_, q) \<Rightarrow>
     if test_queue_flag QUEUE_FLAG_STOPPED q then Some q
     else do {
       empty \<leftarrow> elv_queue_empty ops q;
       if empty then Some q
       else if \<not> test_queue_flag QUEUE_FLAG_REENTER q then do {
         q \<leftarrow> request_fn (queue_flag_set QUEUE_FLAG_REENTER q);
         Some (queue_flag_clear QUEUE_FLAG_REENTER q) }
       else Some (queue_flag_set QUEUE_FLAG_PLUGGED q) })"

definition ELEVATOR_INSERT_FRONT :: u32 where "ELEVATOR_INSERT_FRONT = 1"
definition ELEVATOR_INSERT_BACK :: u32 where "ELEVATOR_INSERT_BACK = 2"
definition ELEVATOR_INSERT_SORT :: u32 where "ELEVATOR_INSERT_SORT = 3"

definition elv_insert_sort :: "'d elevator_ops \<Rightarrow> addr \<Rightarrow> 'd request_queue \<Rightarrow> 'd request_queue option" where
  "elv_insert_sort ops rq q = do {
     r \<leftarrow> q_reqs q rq;
     _ \<leftarrow> BUG_ON (\<not> blk_fs_request r \<and> blk_discard_rq r = 0);
     q \<leftarrow> on_req rq (set_flag REQ_SORTED) q;
     let q = q\<lparr>nr_sorted := nr_sorted q + 1\<rparr>;
     r \<leftarrow> q_reqs q rq;
     q \<leftarrow> (if rq_mergeable r then do {
            q \<leftarrow> elv_rqhash_add rq q;
            Some (if last_merge q = NULL then q\<lparr>last_merge := rq\<rparr> else q) }
          else Some q);
     elevator_add_req_fn ops rq q }"


text \<open>The forward walk of a requeue during an ordered sequence.\<close>

partial_function (option) elv_requeue_walk :: "u32 \<Rightarrow> addr \<Rightarrow> 'd request_queue \<Rightarrow> addr option" where
  "elv_requeue_walk seq pos q =
     (if pos = queue_head q then Some pos
      else do {
        pos_seq \<leftarrow> blk_ordered_req_seq pos q;
        if seq \<le> pos_seq then Some pos
        else do {
          next' \<leftarrow> get_next pos (q_lists q);
          elv_requeue_walk seq next' q } })"

definition ELEVATOR_INSERT_REQUEUE :: u32 where "ELEVATOR_INSERT_REQUEUE = 4"

definition elv_insert_requeue :: "addr \<Rightarrow> 'd request_queue \<Rightarrow> 'd request_queue option" where
  "elv_insert_requeue rq q = do {
     q \<leftarrow> on_req rq (set_flag REQ_SOFTBARRIER) q;
     if ordseq q = 0 then on_lists (list_add rq (queue_head q)) q
     else do {
       seq \<leftarrow> blk_ordered_req_seq rq q;
       first \<leftarrow> get_next (queue_head q) (q_lists q);
       pos \<leftarrow> elv_requeue_walk seq first q;
       on_lists (list_add_tail rq pos) q } }"

definition elv_insert_front :: "addr \<Rightarrow> 'd request_queue \<Rightarrow> 'd request_queue option" where
  "elv_insert_front rq q = do {
     q \<leftarrow> on_req rq (set_flag REQ_SOFTBARRIER) q;
     on_lists (list_add rq (queue_head q)) q }"

definition elv_insert_back ::
  "'d elevator_ops \<Rightarrow> ('d request_queue \<Rightarrow> 'd request_queue option) \<Rightarrow> addr \<Rightarrow> 'd request_queue \<Rightarrow> 'd request_queue option" where
  "elv_insert_back ops request_fn rq q = do {
     q \<leftarrow> on_req rq (set_flag REQ_SOFTBARRIER) q;
     (_, q) \<leftarrow> elv_drain_elevator ops q;
     q \<leftarrow> on_lists (list_add_tail rq (queue_head q)) q;
     blk_run_queue ops request_fn q }"

definition elv_insert ::
  "'d elevator_ops \<Rightarrow> ('d request_queue \<Rightarrow> 'd request_queue option) \<Rightarrow> addr \<Rightarrow> u32 \<Rightarrow> 'd request_queue
     \<Rightarrow> 'd request_queue option" where
  "elv_insert ops request_fn rq where' q = do {
     q \<leftarrow> (if where' = ELEVATOR_INSERT_FRONT then elv_insert_front rq q
          else if where' = ELEVATOR_INSERT_BACK then elv_insert_back ops request_fn rq q
          else if where' = ELEVATOR_INSERT_SORT then elv_insert_sort ops rq q
          else if where' = ELEVATOR_INSERT_REQUEUE then elv_insert_requeue rq q
          else None);
     let nrq = rq_count q SYNC + rq_count q ASYNC - queue_in_flight q;
     if where' \<noteq> ELEVATOR_INSERT_REQUEUE \<and> test_queue_flag QUEUE_FLAG_PLUGGED q \<and>
        sint (unplug_thresh q) \<le> sint nrq
     then generic_unplug_device request_fn q else Some q }"

definition elv_add_request ::
  "'d elevator_ops \<Rightarrow> ('d request_queue \<Rightarrow> 'd request_queue option) \<Rightarrow> addr \<Rightarrow> u32 \<Rightarrow> bool \<Rightarrow> 'd request_queue
     \<Rightarrow> 'd request_queue option" where
  "elv_add_request ops request_fn rq where' plug q = do {
     q \<leftarrow> (if ordcolor q then on_req rq (set_flag REQ_ORDERED_COLOR) q else Some q);
     r \<leftarrow> q_reqs q rq;
     let barrier = has_flag r (REQ_SOFTBARRIER OR REQ_HARDBARRIER);
     let q = (if barrier \<and> blk_barrier_rq r then q\<lparr>ordcolor := \<not> ordcolor q\<rparr> else q);
     let q = (if barrier \<and> (blk_fs_request r \<or> blk_discard_rq r \<noteq> 0)
              then q\<lparr>end_sector := rq_end_sector r, boundary_rq := rq\<rparr> else q);
     let where' = (if where' = ELEVATOR_INSERT_SORT \<and> (barrier \<or> \<not> has_flag r REQ_ELVPRIV)
                   then ELEVATOR_INSERT_BACK else where');
     let q = (if plug then blk_plug_device q else q);
     elv_insert ops request_fn rq where' q }"

definition elv_deactivate_rq :: "'d elevator_ops \<Rightarrow> addr \<Rightarrow> 'd request_queue \<Rightarrow> 'd request_queue option" where
  "elv_deactivate_rq ops rq q = (case elevator_deactivate_req_fn ops of Some f \<Rightarrow> f rq q | None \<Rightarrow> Some q)"

definition elv_requeue_request ::
  "'d elevator_ops \<Rightarrow> ('d request_queue \<Rightarrow> 'd request_queue option) \<Rightarrow> addr \<Rightarrow> 'd request_queue \<Rightarrow> 'd request_queue option" where
  "elv_requeue_request ops request_fn rq q = do {
     r \<leftarrow> q_reqs q rq;
     let q = (if blk_account_rq r
        then q\<lparr>in_flight := (in_flight q)(rq_is_sync r := in_flight q (rq_is_sync r) - 1)\<rparr> else q);
     q \<leftarrow> (if blk_account_rq r \<and> blk_sorted_rq r then elv_deactivate_rq ops rq q else Some q);
     q \<leftarrow> on_req rq (\<lambda>r. r\<lparr>cmd_flags := cmd_flags r AND NOT REQ_STARTED\<rparr>) q;
     elv_insert ops request_fn rq ELEVATOR_INSERT_REQUEUE q }"

definition elv_latter_request :: "'d elevator_ops \<Rightarrow> addr \<Rightarrow> 'd request_queue \<Rightarrow> addr option" where
  "elv_latter_request ops rq q = (case elevator_latter_req_fn ops of Some f \<Rightarrow> f rq q | None \<Rightarrow> Some NULL)"

definition elv_former_request :: "'d elevator_ops \<Rightarrow> addr \<Rightarrow> 'd request_queue \<Rightarrow> addr option" where
  "elv_former_request ops rq q = (case elevator_former_req_fn ops of Some f \<Rightarrow> f rq q | None \<Rightarrow> Some NULL)"

end
