(* ===== verification/Rbtree_Rep.thy ===== *)
theory Rbtree_Rep
  imports Rbtree
begin

text \<open>
  The abstraction of the pointer trees of \<open>Rbtree\<close>: a memory and a pointer represent a
  tree of addresses (\<open>rep\<close>); a chain of parent pointers represents a context, the path
  from a hole up to the root with the subtrees that branch off it (\<open>seg\<close>).  A tree with a
  focus is a context and a subtree (\<open>zrep\<close>); the rotations and the colour changes of
  \<open>lib/rbtree.c\<close> act on the subtree in focus and leave the context alone.
\<close>

section \<open>The packed word\<close>

lemma bit_3_iff: "bit (3::int) n \<longleftrightarrow> n = 0 \<or> n = Suc 0"
  by (auto simp: bit_numeral_rec bit_1_iff split: nat.splits)

lemma aligned4_iff: "aligned4 p \<longleftrightarrow> \<not> bit p 0 \<and> \<not> bit p (Suc 0)"
proof
  assume "aligned4 p"
  then have "bit (p AND 3) n \<longleftrightarrow> False" for n by (simp add: aligned4_def)
  from this [of 0] this [of "Suc 0"] show "\<not> bit p 0 \<and> \<not> bit p (Suc 0)"
    by (simp add: bit_and_iff bit_3_iff)
next
  assume "\<not> bit p 0 \<and> \<not> bit p (Suc 0)"
  then show "aligned4 p"
    unfolding aligned4_def by (auto intro!: bit_eqI gr0I simp: bit_simps bit_3_iff)
qed

lemma aligned4_NULL [simp]: "aligned4 NULL"
  by (simp add: aligned4_def)

lemmas bit_layout = bit_simps bit_3_iff aligned4_iff

lemmas packed_defs = rb_parent_def rb_is_black_def rb_is_red_def rb_color_def rb_set_red_def
  rb_set_black_def rb_set_parent_def rb_set_color_def set_left_def set_right_def

lemma rb_is_red_iff [simp]: "rb_is_red n \<longleftrightarrow> \<not> rb_is_black n"
  by (simp add: packed_defs)

lemma rb_color_black: "rb_color n = RB_BLACK \<longleftrightarrow> rb_is_black n"
  by (auto simp: packed_defs RB_BLACK_def and_one_eq mod_2_eq_odd)

lemma rb_parent_set [simp]:
  "rb_parent (rb_set_red n) = rb_parent n" "rb_parent (rb_set_black n) = rb_parent n"
  "rb_parent (rb_set_color (rb_color m) n) = rb_parent n"
  "rb_parent (set_left p n) = rb_parent n" "rb_parent (set_right p n) = rb_parent n"
  by (auto simp: packed_defs bit_layout intro!: bit_eqI gr0I)

lemma rb_parent_set_parent [simp]: "aligned4 p \<Longrightarrow> rb_parent (rb_set_parent p n) = p"
  by (auto simp: packed_defs bit_layout intro!: bit_eqI gr0I)

lemma rb_parent_link [simp]:
  "aligned4 p \<Longrightarrow> rb_parent \<lparr>rb_parent_color = p, rb_right = r, rb_left = l\<rparr> = p"
  by (auto simp: packed_defs bit_layout intro!: bit_eqI gr0I)

lemma rb_black_set [simp]:
  "\<not> rb_is_black (rb_set_red n)" "rb_is_black (rb_set_black n)"
  "rb_is_black (set_left p n) = rb_is_black n" "rb_is_black (set_right p n) = rb_is_black n"
  by (auto simp: packed_defs and_one_eq even_or_iff even_and_iff mod_2_eq_odd)

lemma rb_black_set_parent [simp]:
  assumes "aligned4 p" shows "rb_is_black (rb_set_parent p n) = rb_is_black n"
proof -
  have "((rb_parent_color n AND 3) OR p) AND 1 = rb_parent_color n AND 1"
    using assms by (auto simp: bit_layout intro!: bit_eqI gr0I)
  then show ?thesis by (simp add: packed_defs)
qed

lemma rb_black_set_color [simp]: "rb_is_black (rb_set_color (rb_color m) n) = rb_is_black m"
proof -
  have "((rb_parent_color n AND NOT 1) OR (rb_parent_color m AND 1)) AND 1 = rb_parent_color m AND 1"
    by (auto simp: bit_layout intro!: bit_eqI gr0I)
  then show ?thesis by (simp add: packed_defs)
qed

lemma rb_black_link [simp]:
  "aligned4 p \<Longrightarrow> \<not> rb_is_black \<lparr>rb_parent_color = p, rb_right = r, rb_left = l\<rparr>"
  by (auto simp: packed_defs bit_layout and_one_eq mod_2_eq_odd bit_0)

lemma rb_children_set [simp]:
  "rb_left (rb_set_red n) = rb_left n" "rb_right (rb_set_red n) = rb_right n"
  "rb_left (rb_set_black n) = rb_left n" "rb_right (rb_set_black n) = rb_right n"
  "rb_left (rb_set_parent p n) = rb_left n" "rb_right (rb_set_parent p n) = rb_right n"
  "rb_left (rb_set_color c n) = rb_left n" "rb_right (rb_set_color c n) = rb_right n"
  "rb_left (set_left p n) = p" "rb_right (set_left p n) = rb_right n"
  "rb_left (set_right p n) = rb_left n" "rb_right (set_right p n) = p"
  by (simp_all add: packed_defs)

section \<open>Trees and contexts\<close>

text \<open>\<open>Nd True\<close> is a black node and \<open>Nd False\<close> a red one.\<close>

datatype rbt = Lf | Nd bool rbt addr rbt

fun inorder :: "rbt \<Rightarrow> addr list" where
  "inorder Lf = []"
| "inorder (Nd c l a r) = inorder l @ a # inorder r"

fun rtop :: "rbt \<Rightarrow> addr" where
  "rtop Lf = NULL"
| "rtop (Nd c l a r) = a"

text \<open>
  A frame of a context: whether the hole is the left child, the parent's colour, the
  parent and the sibling subtree.  Frames are listed from the hole upwards.
\<close>

type_synonym frame = "bool \<times> bool \<times> addr \<times> rbt"

fun plug :: "frame list \<Rightarrow> rbt \<Rightarrow> rbt" where
  "plug [] t = t"
| "plug ((True, c, a, s) # k) t = plug k (Nd c t a s)"
| "plug ((False, c, a, s) # k) t = plug k (Nd c s a t)"

fun before :: "frame list \<Rightarrow> addr list" where
  "before [] = []"
| "before ((True, c, a, s) # k) = before k"
| "before ((False, c, a, s) # k) = before k @ inorder s @ [a]"

fun after :: "frame list \<Rightarrow> addr list" where
  "after [] = []"
| "after ((True, c, a, s) # k) = a # inorder s @ after k"
| "after ((False, c, a, s) # k) = after k"

lemma inorder_plug: "inorder (plug k t) = before k @ inorder t @ after k"
  by (induction k t rule: plug.induct) auto

lemma before_append: "before (k @ k') = before k' @ before k"
  by (induction k rule: before.induct) auto

lemma after_append: "after (k @ k') = after k @ after k'"
  by (induction k rule: after.induct) auto

lemma plug_append: "plug (k @ k') t = plug k' (plug k t)"
  by (induction k t rule: plug.induct) auto

section \<open>Representation in memory\<close>

fun rep :: "rb_heap \<Rightarrow> addr \<Rightarrow> addr \<Rightarrow> rbt \<Rightarrow> bool" where
  "rep h q p Lf \<longleftrightarrow> p = NULL"
| "rep h q p (Nd c l a r) \<longleftrightarrow> p = a \<and> a \<noteq> NULL \<and> aligned4 a \<and>
     (\<exists>n. h a = Some n \<and> rb_parent n = q \<and> rb_is_black n = c \<and>
          rep h a (rb_left n) l \<and> rep h a (rb_right n) r)"

fun seg :: "rb_heap \<Rightarrow> addr \<Rightarrow> addr \<Rightarrow> frame list \<Rightarrow> addr \<Rightarrow> addr \<Rightarrow> bool" where
  "seg h p q [] p' q' \<longleftrightarrow> p = p' \<and> q = q'"
| "seg h p q ((True, c, a, s) # k) p' q' \<longleftrightarrow> q = a \<and> a \<noteq> NULL \<and> aligned4 a \<and>
     (\<exists>n. h a = Some n \<and> rb_is_black n = c \<and> rb_left n = p \<and>
          rep h a (rb_right n) s \<and> seg h a (rb_parent n) k p' q')"
| "seg h p q ((False, c, a, s) # k) p' q' \<longleftrightarrow> q = a \<and> a \<noteq> NULL \<and> aligned4 a \<and>
     (\<exists>n. h a = Some n \<and> rb_is_black n = c \<and> rb_right n = p \<and>
          rep h a (rb_left n) s \<and> seg h a (rb_parent n) k p' q')"

text \<open>
  A tree with the root \<open>root\<close>, in focus its subtree \<open>t\<close>, whose parent is the first address
  of the context.
\<close>

fun kpar :: "frame list \<Rightarrow> addr" where
  "kpar [] = NULL"
| "kpar ((d, c, a, s) # k) = a"

definition zrep :: "rb_heap \<Rightarrow> addr \<Rightarrow> frame list \<Rightarrow> rbt \<Rightarrow> bool" where
  "zrep h root k t \<longleftrightarrow> seg h (rtop t) (kpar k) k root NULL \<and> rep h (kpar k) (rtop t) t \<and>
     distinct (before k @ inorder t @ after k)"

abbreviation tree_at :: "rb_heap \<Rightarrow> addr \<Rightarrow> rbt \<Rightarrow> bool" where
  "tree_at h root t \<equiv> zrep h root [] t"

abbreviation whole :: "frame list \<Rightarrow> rbt \<Rightarrow> addr set" where
  "whole k t \<equiv> set (before k @ inorder t @ after k)"

lemma rep_top: "rep h q p t \<Longrightarrow> p = rtop t \<and> rep h q (rtop t) t"
  by (cases t) auto

lemma rep_upd [simp, frame_simps]: "a \<notin> set (inorder t) \<Longrightarrow> rep (h(a \<mapsto> n)) q p t = rep h q p t"
  by (induction t arbitrary: q p) auto

lemma seg_upd [simp, frame_simps]:
  "a \<notin> set (before k) \<Longrightarrow> a \<notin> set (after k) \<Longrightarrow>
     seg (h(a \<mapsto> n)) p q k p' q' = seg h p q k p' q'"
  by (induction h p q k p' q' rule: seg.induct) auto

lemma seg_append:
  "seg h p q (k @ k') p'' q'' \<longleftrightarrow> (\<exists>p' q'. seg h p q k p' q' \<and> seg h p' q' k' p'' q'')"
  by (induction h p q k p'' q'' rule: seg.induct) auto

lemma rep_not_NULL: "rep h q p t \<Longrightarrow> NULL \<notin> set (inorder t)"
  by (induction t arbitrary: q p) auto

lemma seg_not_NULL: "seg h p q k p' q' \<Longrightarrow> NULL \<notin> set (before k) \<union> set (after k)"
  by (induction h p q k p' q' rule: seg.induct) (auto dest: rep_not_NULL)

lemma seg_kpar: "seg h p q k p' NULL \<Longrightarrow> q = kpar k \<and> seg h p (kpar k) k p' NULL"
  by (cases "(h, p, q, k, p', NULL)" rule: seg.cases) auto

lemma zrep_up [simp]:
  "zrep h root ((True, c, a, s) # k) t \<longleftrightarrow> zrep h root k (Nd c t a s)"
  "zrep h root ((False, c, a, s) # k) t \<longleftrightarrow> zrep h root k (Nd c s a t)"
  by (auto simp: zrep_def dest: rep_top seg_kpar)

lemma zrep_plug: "zrep h root k t \<longleftrightarrow> tree_at h root (plug k t)"
  by (induction k t rule: plug.induct) auto

lemma split_tree: "a \<in> set (inorder t) \<Longrightarrow> \<exists>k c l r. t = plug k (Nd c l a r)"
proof (induction t)
  case Lf
  then show ?case by simp
next
  case (Nd c l b r)
  consider "a = b" | "a \<in> set (inorder l)" | "a \<in> set (inorder r)" using Nd.prems by auto
  then show ?case
  proof cases
    case 1
    then show ?thesis by (intro exI [of _ "[]"]) simp
  next
    case 2
    then obtain k c' l' r' where "l = plug k (Nd c' l' a r')" using Nd.IH by blast
    then show ?thesis by (intro exI [of _ "k @ [(True, c, b, r)]"]) (auto simp: plug_append)
  next
    case 3
    then obtain k c' l' r' where "r = plug k (Nd c' l' a r')" using Nd.IH by blast
    then show ?thesis by (intro exI [of _ "k @ [(False, c, b, l)]"]) (auto simp: plug_append)
  qed
qed

section \<open>Frames\<close>

text \<open>The memory outside a set of addresses is the same.\<close>

definition unchanged :: "addr set \<Rightarrow> rb_heap \<Rightarrow> rb_heap \<Rightarrow> bool" where
  "unchanged X h h' \<longleftrightarrow> (\<forall>x. x \<notin> X \<longrightarrow> h' x = h x)"

lemma rep_cong: "(\<And>x. x \<in> set (inorder t) \<Longrightarrow> h' x = h x) \<Longrightarrow> rep h' q p t = rep h q p t"
  by (induction t arbitrary: q p) auto

lemma seg_cong: "(\<And>x. x \<in> set (before k) \<union> set (after k) \<Longrightarrow> h' x = h x) \<Longrightarrow>
  seg h' p q k p' q' = seg h p q k p' q'"
proof (induction k arbitrary: p q)
  case (Cons f k)
  obtain d c a s where f: "f = (d, c, a, s)" by (cases f)
  have "seg h' p q k p' q' = seg h p q k p' q'" for p q
    by (rule Cons.IH) (use Cons.prems in \<open>cases d; auto simp: f\<close>)
  moreover have "h' a = h a" "rep h' q p s = rep h q p s" for p q
    using Cons.prems by (cases d; auto simp: f intro!: rep_cong)+
  ultimately show ?case by (cases d) (simp_all add: f)
qed simp

lemma rep_unchanged: "unchanged X h h' \<Longrightarrow> X \<inter> set (inorder t) = {} \<Longrightarrow> rep h' q p t = rep h q p t"
  by (rule rep_cong) (auto simp: unchanged_def)

lemma seg_unchanged: "unchanged X h h' \<Longrightarrow> X \<inter> (set (before k) \<union> set (after k)) = {} \<Longrightarrow>
  seg h' p q k p' q' = seg h p q k p' q'"
  by (rule seg_cong) (auto simp: unchanged_def)

lemma aligned4_rb_parent [simp]: "aligned4 (rb_parent n)"
  by (simp add: packed_defs aligned4_def and.assoc)

lemma unchanged_upd: "unchanged X h h' \<Longrightarrow> a \<in> X \<Longrightarrow> unchanged X h (h'(a \<mapsto> n))"
  by (auto simp: unchanged_def)

lemma unchanged_trans: "unchanged X h h' \<Longrightarrow> unchanged X h' h'' \<Longrightarrow> unchanged X h h''"
  by (auto simp: unchanged_def)

lemma unchanged_mono: "unchanged X h h' \<Longrightarrow> X \<subseteq> Y \<Longrightarrow> unchanged Y h h'"
  by (auto simp: unchanged_def)

lemma unchanged_refl [simp]: "unchanged X h h"
  by (auto simp: unchanged_def)


lemma zrep_rep: "zrep h root k t \<Longrightarrow> rep h (kpar k) (rtop t) t"
  and zrep_distinct: "zrep h root k t \<Longrightarrow> distinct (inorder t)"
  by (auto simp: zrep_def)

text \<open>A change inside the subtree in focus that keeps its root and its nodes in order.\<close>

lemma zrep_local:
  assumes "zrep h root k t" "unchanged (set (inorder t)) h h'"
    and "rep h' (kpar k) (rtop t') t'" "rtop t' = rtop t" "inorder t' = inorder t"
  shows "zrep h' root k t'"
proof -
  have "set (inorder t) \<inter> (set (before k) \<union> set (after k)) = {}"
    using assms(1) by (auto simp: zrep_def)
  from seg_unchanged [OF assms(2) this] show ?thesis
    using assms unfolding zrep_def by metis
qed

end
