(* ===== verification/Rbtree_Ops.thy ===== *)
theory Rbtree_Ops
  imports Rbtree_Rep
begin

text \<open>
  What the building blocks of \<open>lib/rbtree.c\<close> do to a tree in focus: relinking a child,
  setting a parent pointer and the rotations.  The right-hand variant of a routine is the
  left-hand one on the mirrored memory, so each fact is proved once.
\<close>

section \<open>The mirrored memory\<close>

definition swap_node :: "rb_node \<Rightarrow> rb_node" where
  "swap_node n = n\<lparr>rb_right := rb_left n, rb_left := rb_right n\<rparr>"

definition mirror :: "rb_heap \<Rightarrow> rb_heap" where
  "mirror h = (\<lambda>x. map_option swap_node (h x))"

lemma swap_node_fields [simp]:
  "rb_left (swap_node n) = rb_right n" "rb_right (swap_node n) = rb_left n"
  "rb_parent (swap_node n) = rb_parent n" "rb_is_black (swap_node n) = rb_is_black n"
  "rb_color (swap_node n) = rb_color n" 
  "swap_node (swap_node n) = n"
  by (simp_all add: swap_node_def packed_defs)

lemma swap_node_set:
  "set_left p (swap_node n) = swap_node (set_right p n)"
  "set_right p (swap_node n) = swap_node (set_left p n)"
  "rb_set_red (swap_node n) = swap_node (rb_set_red n)"
  "rb_set_black (swap_node n) = swap_node (rb_set_black n)"
  "rb_set_parent p (swap_node n) = swap_node (rb_set_parent p n)"
  "rb_set_color c (swap_node n) = swap_node (rb_set_color c n)"
  by (simp_all add: swap_node_def packed_defs)

lemma mirror_apply: "mirror h x = map_option swap_node (h x)"
  by (simp add: mirror_def)

lemma mirror_ex [simp]:
  "(\<exists>n. mirror h x = Some n \<and> P n) \<longleftrightarrow> (\<exists>n. h x = Some n \<and> P (swap_node n))"
  by (auto simp: mirror_apply)

lemma mirror_mirror [simp]: "mirror (mirror h) = h"
  by (rule ext) (simp add: mirror_def option.map_comp comp_def option.map_ident)

lemma mirror_upd: "(mirror h)(a \<mapsto> swap_node n) = mirror (h(a \<mapsto> n))"
  by (rule ext) (simp add: mirror_apply)

lemma mirror_write:
  "write_at p (set_left x) (mirror h) = map_option mirror (write_at p (set_right x) h)"
  "write_at p (set_right x) (mirror h) = map_option mirror (write_at p (set_left x) h)"
  "write_at p rb_set_red (mirror h) = map_option mirror (write_at p rb_set_red h)"
  "write_at p rb_set_black (mirror h) = map_option mirror (write_at p rb_set_black h)"
  "write_at p (rb_set_parent x) (mirror h) = map_option mirror (write_at p (rb_set_parent x) h)"
  "write_at p (rb_set_color c) (mirror h) = map_option mirror (write_at p (rb_set_color c) h)"
  by (auto simp: write_at_def mirror_apply swap_node_set mirror_upd split: option.splits)

lemma bind_mirror:
  assumes "x' = map_option f x" "\<And>y. g' (f y) = map_option e (g y)"
  shows "x' \<bind> g' = map_option e (x \<bind> g)"
  using assms by (cases x) auto

lemma if_mirror: "x' = map_option f x \<Longrightarrow> y' = map_option f y \<Longrightarrow>
  (if b then x' else y') = map_option f (if b then x else y)"
  by simp

lemma Some_mirror: "Some (f x) = map_option f (Some x)"
  by simp

lemma mirror_change_child:
  "rb_change_child old new q (mirror h) root =
     map_option (map_prod mirror id) (rb_change_child_right old new q h root)"
  "rb_change_child_right old new q (mirror h) root =
     map_option (map_prod mirror id) (rb_change_child old new q h root)"
  by (auto simp: rb_change_child_def rb_change_child_right_def mirror_apply mirror_write bind_eq_None_conv
      map_option_bind split: bind_splits)

lemma mirror_ptr_is_black: "ptr_is_black p (mirror h) = map_option id (ptr_is_black p h)"
  and mirror_ptr_is_red: "ptr_is_red p (mirror h) = map_option id (ptr_is_red p h)"
  by (auto simp: ptr_is_black_def ptr_is_red_def mirror_apply split: bind_splits option.splits)

lemmas mirror_rules = mirror_apply mirror_write mirror_change_child mirror_ptr_is_black
  mirror_ptr_is_red if_mirror

lemma mirror_rotate_right:
  "rb_rotate_right a (mirror h) root = map_option (map_prod mirror id) (rb_rotate_left a h root)"
  unfolding rb_rotate_right_def rb_rotate_left_def Let_def
  by ((rule bind_mirror, (rule mirror_rules Some_mirror)+, (simp add: case_prod_beta split del: if_split cong: if_cong)?)+)

fun tmirror :: "rbt \<Rightarrow> rbt" where
  "tmirror Lf = Lf"
| "tmirror (Nd c l a r) = Nd c (tmirror r) a (tmirror l)"

definition kmirror :: "frame list \<Rightarrow> frame list" where
  "kmirror = map (\<lambda>(d, c, a, s). (\<not> d, c, a, tmirror s))"

lemma tmirror_tmirror [simp]: "tmirror (tmirror t) = t"
  by (induction t) auto

lemma inorder_tmirror [simp]: "inorder (tmirror t) = rev (inorder t)"
  by (induction t) auto

lemma kmirror_simps [simp]: "kmirror [] = []"
  "kmirror ((d, c, a, s) # k) = (\<not> d, c, a, tmirror s) # kmirror k"
  by (simp_all add: kmirror_def)

lemma kmirror_kmirror [simp]: "kmirror (kmirror k) = k"
  by (induction k) auto

lemma before_kmirror [simp]: "before (kmirror k) = rev (after k)"
  and after_kmirror [simp]: "after (kmirror k) = rev (before k)"
  by (induction k rule: before.induct) auto

lemma rep_mirror [simp]: "rep (mirror h) q p (tmirror t) = rep h q p t"
  by (induction t arbitrary: q p) auto

lemma seg_mirror [simp]: "seg (mirror h) p q (kmirror k) p' q' = seg h p q k p' q'"
  by (induction h p q k p' q' rule: seg.induct) auto

lemma rtop_tmirror [simp]: "rtop (tmirror t) = rtop t"
  by (cases t) auto

lemma kpar_kmirror [simp]: "kpar (kmirror k) = kpar k"
  by (cases k rule: kpar.cases) auto

lemma zrep_mirror [simp]: "zrep (mirror h) root (kmirror k) (tmirror t) = zrep h root k t"
  by (auto simp: zrep_def)

lemma unchanged_mirror [simp]: "unchanged X (mirror h) (mirror h') = unchanged X h h'"
  unfolding unchanged_def by (metis mirror_apply mirror_mirror)

section \<open>Links and rotations\<close>

lemma rb_change_child_seg:
  assumes "seg h old q k root NULL" "old \<noteq> NULL" "old \<notin> set (before k)" "old \<notin> set (after k)"
   "distinct (before k @ after k)"
  shows "\<exists>h' root'. rb_change_child old new q h root = Some (h', root') \<and>
    rb_change_child_right old new q h root = Some (h', root') \<and>
    seg h' new q k root' NULL \<and> unchanged (set (before k) \<union> set (after k)) h h'"
proof (cases k)
  case Nil
  with assms show ?thesis
    by (simp add: rb_change_child_def rb_change_child_right_def unchanged_def)
next
  case (Cons f k')
  obtain d cg g s where f: "f = (d, cg, g, s)" by (cases f)
  show ?thesis
    using assms unfolding Cons f
    by (cases d; cases s) 
      (auto simp: rb_change_child_def rb_change_child_right_def write_at_Some unchanged_def)
qed


lemma set_parent_rep:
  assumes "rep h q p t" "distinct (inorder t)" "aligned4 q'"
  shows "\<exists>h'. (if p \<noteq> NULL then write_at p (rb_set_parent q') h else Some h) = Some h' \<and>
    rep h' q' p t \<and> unchanged (set (inorder t)) h h'"
  using assms by (cases t) (auto simp: write_at_Some unchanged_def)

lemma rb_rotate_left_zrep:
  assumes "zrep h root k (Nd c l a (Nd c' rl b rr))"
  shows "\<exists>h' root'. rb_rotate_left a h root = Some (h', root') \<and>
    zrep h' root' k (Nd c' (Nd c l a rl) b rr) \<and>
    unchanged (whole k (Nd c l a (Nd c' rl b rr))) h h'"
proof -
  let ?t = "Nd c l a (Nd c' rl b rr)"
  define q where "q = kpar k"
  let ?C = "set (before k) \<union> set (after k)"
  have D: "distinct (before k @ inorder ?t @ after k)" and S: "seg h a q k root NULL"
    and R: "rep h q a ?t"
    using assms by (auto simp: zrep_def q_def)
  from R obtain na nb where a: "h a = Some na" "rb_parent na = q" "rb_is_black na = c" "rep h a (rb_left na) l"
      "a \<noteq> NULL" "aligned4 a" "rb_right na = b"
    and b: "h b = Some nb" "rb_parent nb = a" "rb_is_black nb = c'" "rep h b (rb_left nb) rl" "rep h b (rb_right nb) rr"
      "b \<noteq> NULL" "aligned4 b"
    by auto
  have ne: "a \<noteq> b" "a \<notin> ?C" "b \<notin> ?C" "a \<notin> set (inorder l)" "a \<notin> set (inorder rl)" "a \<notin> set (inorder rr)"
     "b \<notin> set (inorder l)" "b \<notin> set (inorder rl)" "b \<notin> set (inorder rr)" "?C \<inter> set (inorder ?t) = {}"
     "set (inorder rl) \<inter> set (inorder l) = {}" "set (inorder rl) \<inter> set (inorder rr) = {}"
     "distinct (inorder rl)" "distinct (before k @ after k)"
    using D by auto
  have al: "aligned4 q" using a(2) by auto
  define h1 where "h1 = h(a \<mapsto> set_right (rb_left nb) na)"
  have "rep h1 b (rb_left nb) rl" using b ne by (simp add: h1_def)
  from set_parent_rep [OF this ne(13) a(6)] obtain h2 where
    h2: "(if rb_left nb \<noteq> NULL then write_at (rb_left nb) (rb_set_parent a) h1 else Some h1) = Some h2"
    "rep h2 a (rb_left nb) rl" "unchanged (set (inorder rl)) h1 h2" by blast
  define h3 where "h3 = h2(b \<mapsto> rb_set_parent q (set_left a nb))"
  have u13: "unchanged (set (inorder ?t)) h h3" using h2(3)
    by (auto simp: unchanged_def h1_def h3_def)
  have v: "h2 a = Some (set_right (rb_left nb) na)" "h2 b = Some nb"
    "h3 a = Some (set_right (rb_left nb) na)" "h3 b = Some (rb_set_parent q (set_left a nb))"
    using h2(3) a b ne by (auto simp: unchanged_def h1_def h3_def)
  have "seg h3 a q k root NULL" using S u13 ne(10) by (subst seg_unchanged [OF u13]) auto
  from rb_change_child_seg [OF this, of b] obtain h4 root' where
    h4: "rb_change_child a b q h3 root = Some (h4, root')" "seg h4 b q k root' NULL" "unchanged ?C h3 h4"
    using ne a by simp blast
  let ?h5 = "h4(a \<mapsto> rb_set_parent b (set_right (rb_left nb) na))"
  have w: "h4 a = Some (set_right (rb_left nb) na)" "h4 b = Some (rb_set_parent q (set_left a nb))"
    using h4(3) v ne by (auto simp: unchanged_def)
  have "rb_rotate_left a h root = Some (?h5, root')"
    using a b h2(1) h4(1) v w ne unfolding h1_def h3_def 
    by (simp add: rb_rotate_left_def write_at_Some)
  moreover have "unchanged (whole k ?t) h ?h5"
    using u13 h4(3) by (auto simp: unchanged_def)
  moreover have "zrep ?h5 root' k (Nd c' (Nd c l a rl) b rr)"
  proof -
    have "rep h3 a (rb_left na) l" 
      using a ne h2(3) by (simp add: h3_def rep_unchanged h1_def) 
    moreover have "rep h3 a (rb_left nb) rl" 
      using h2 ne by (simp add: h3_def) 
    moreover have "rep h3 b (rb_right nb) rr" 
      using b ne h2(3) by (simp add: h3_def rep_unchanged h1_def) 
    ultimately have "rep h4 a (rb_left na) l" "rep h4 a (rb_left nb) rl" "rep h4 b (rb_right nb) rr"
      using rep_unchanged [OF h4(3)] ne(10) by auto
    then have "rep ?h5 q b (Nd c' (Nd c l a rl) b rr)"
      using w a b ne al by simp
    moreover have "seg ?h5 b q k root' NULL" using h4(2) ne by simp
    moreover have "distinct (before k @ inorder (Nd c' (Nd c l a rl) b rr) @ after k)"
      using D by (simp only: inorder.simps append_assoc append_Cons)
    ultimately show ?thesis unfolding zrep_def q_def rtop.simps by blast
  qed
  ultimately show ?thesis by blast
qed


lemma rb_rotate_right_zrep:
  assumes "zrep h root k (Nd c (Nd c' ll b lr) a r)"
  shows "\<exists>h' root'. rb_rotate_right a h root = Some (h', root') \<and>
    zrep h' root' k (Nd c' ll b (Nd c lr a r)) \<and>
    unchanged (whole k (Nd c (Nd c' ll b lr) a r)) h h'"
proof -
  have "zrep (mirror h) root (kmirror k)
      (Nd c (tmirror r) a (Nd c' (tmirror lr) b (tmirror ll)))"
    using assms zrep_mirror [of h root k "Nd c (Nd c' ll b lr) a r"] by simp
  from rb_rotate_left_zrep [OF this] obtain h' root' where
    h': "rb_rotate_left a (mirror h) root = Some (h', root')"
      "zrep h' root' (kmirror k) (Nd c' (Nd c (tmirror r) a (tmirror lr)) b (tmirror ll))"
      "unchanged (whole k (Nd c (Nd c' ll b lr) a r)) (mirror h) h'"
    by (auto simp: Un_ac insert_commute)
  have "rb_rotate_right a h root = Some (mirror h', root')"
    using mirror_rotate_right [of a "mirror h" root] h'(1) by simp
  moreover have "zrep (mirror h') root' k (Nd c' ll b (Nd c lr a r))"
    using h'(2) zrep_mirror [of "mirror h'" root' k "Nd c' ll b (Nd c lr a r)"] by simp
  moreover have "unchanged (whole k (Nd c (Nd c' ll b lr) a r)) h (mirror h')"
    using h'(3) unchanged_mirror [of _ h "mirror h'"] by simp
  ultimately show ?thesis by blast
qed

lemma mirror_rotate_left:
  "rb_rotate_left a (mirror h) root = map_option (map_prod mirror id) (rb_rotate_right a h root)"
  using mirror_rotate_right [of a "mirror h" root]
  by (simp add: option.map_comp prod.map_comp comp_def map_prod.id option.map_ident)

end
