(* ===== verification/Rbtree_Insert.thy ===== *)
theory Rbtree_Insert
  imports Rbtree_Ops
begin

text \<open>
  Insertion into the red-black trees of \<open>lib/rbtree.c\<close>: the colour and black-height
  invariants of a tree and of a context, the effect of one iteration of the loop of
  \<open>rb_insert_color\<close>, that the loop ends, and the contract of \<open>rb_link_node\<close> followed by
  \<open>rb_insert_color\<close> (\<open>rb_insert_zrep\<close>).
\<close>

section \<open>Red-black invariants\<close>

fun isblack :: "rbt \<Rightarrow> bool" where
  "isblack Lf = True"
| "isblack (Nd c l a r) = c"

fun invc :: "rbt \<Rightarrow> bool" where
  "invc Lf = True"
| "invc (Nd c l a r) = (invc l \<and> invc r \<and> (c \<or> isblack l \<and> isblack r))"

fun bh :: "rbt \<Rightarrow> nat" where
  "bh Lf = 0"
| "bh (Nd c l a r) = bh l + (if c then 1 else 0)"

fun invh :: "rbt \<Rightarrow> bool" where
  "invh Lf = True"
| "invh (Nd c l a r) = (invh l \<and> invh r \<and> bh l = bh r)"

definition rbinv :: "rbt \<Rightarrow> bool" where
  "rbinv t \<longleftrightarrow> invc t \<and> invh t \<and> isblack t"

text \<open>The same for a context, whose hole takes a subtree of black height \<open>n\<close>.\<close>

fun hole_black :: "frame list \<Rightarrow> bool" where
  "hole_black [] = False"
| "hole_black ((d, c, a, s) # k) = c"

fun kinvc :: "frame list \<Rightarrow> bool" where
  "kinvc [] = True"
| "kinvc ((d, c, a, s) # k) = (invc s \<and> kinvc k \<and> (c \<or> isblack s \<and> hole_black k))"

fun kinvh :: "frame list \<Rightarrow> nat \<Rightarrow> bool" where
  "kinvh [] n = True"
| "kinvh ((d, c, a, s) # k) n = (invh s \<and> bh s = n \<and> kinvh k (n + (if c then 1 else 0)))"

lemma invh_plug: "invh (plug k t) \<longleftrightarrow> invh t \<and> kinvh k (bh t)"
  by (induction k t rule: plug.induct) auto

lemma invc_plug: "kinvc k \<Longrightarrow> invc t \<Longrightarrow> isblack t \<or> hole_black k \<or> k = [] \<Longrightarrow> invc (plug k t)"
proof (induction k t rule: plug.induct)
  case (2 c a s k t)
  then show ?case by (cases c) auto
next
  case (3 c a s k t)
  then show ?case by (cases c) auto
qed simp

lemma invc_plugD: "invc (plug k t) \<Longrightarrow> isblack (plug k t) \<Longrightarrow> kinvc k \<and> invc t \<and> (isblack t \<or> hole_black k)"
proof (induction k t rule: plug.induct)
qed (auto split: if_splits)

section \<open>One iteration of \<open>rb_insert_color\<close>\<close>

lemma unchanged_whole: "unchanged (set (inorder t)) h h' \<Longrightarrow> unchanged (whole k t) h h'"
  by (auto simp: unchanged_def)

lemma rep_ptr_colour:
  "rep h q p t \<Longrightarrow> ptr_is_red p h = Some (\<not> isblack t)"
  "rep h q p t \<Longrightarrow> ptr_is_black p h = Some (isblack t)"
  by (cases t; auto simp: ptr_is_red_def ptr_is_black_def)+

lemma rb_insert_color_left_red_uncle:
  assumes z: "zrep h root k (Nd c (Nd False pl p pr) g (Nd False ul u ur))"
  shows "\<exists>h'. rb_insert_color_left node p g h root = Some (g, h', root) \<and>
    zrep h' root k (Nd False (Nd True pl p pr) g (Nd True ul u ur)) \<and>
    unchanged (whole k (Nd c (Nd False pl p pr) g (Nd False ul u ur))) h h'"
proof -
  from zrep_rep [OF z] obtain ng np nu where
    n: "h g = Some ng" "h p = Some np" "h u = Some nu" "rb_right ng = u" "rb_left ng = p"
      "u \<noteq> NULL" "\<not> rb_is_black nu"
    by auto
  from zrep_distinct [OF z] have ne: "g \<noteq> p" "g \<noteq> u" "p \<noteq> u" by auto
  let ?h = "h(u \<mapsto> rb_set_black nu, p \<mapsto> rb_set_black np, g \<mapsto> rb_set_red ng)"
  have u: "unchanged (set (inorder (Nd c (Nd False pl p pr) g (Nd False ul u ur)))) h ?h"
    by (auto simp: unchanged_def)
  have "zrep ?h root k (Nd False (Nd True pl p pr) g (Nd True ul u ur))"
    by (rule zrep_local [OF z u]) (use zrep_rep [OF z] zrep_distinct [OF z] n in auto)
  moreover have "rb_insert_color_left node p g h root = Some (g, ?h, root)"
    using n ne by (simp add: rb_insert_color_left_def ptr_is_red_def write_at_Some)
  ultimately show ?thesis using unchanged_whole [OF u] by blast
qed

lemma recolor_zrep:
  assumes z: "zrep h root k (Nd cg (Nd cp pl p pr) g u)"
  shows "\<exists>h1 h'. write_at p rb_set_black h = Some h1 \<and> write_at g rb_set_red h1 = Some h' \<and>
    zrep h' root k (Nd False (Nd True pl p pr) g u) \<and>
    unchanged (whole k (Nd cg (Nd cp pl p pr) g u)) h h'"
proof -
  from zrep_rep [OF z] obtain ng np where n: "h g = Some ng" "h p = Some np" by auto
  from zrep_distinct [OF z] have ne: "g \<noteq> p" by auto
  let ?h = "h(p \<mapsto> rb_set_black np, g \<mapsto> rb_set_red ng)"
  have u: "unchanged (set (inorder (Nd cg (Nd cp pl p pr) g u))) h ?h"
    by (auto simp: unchanged_def)
  have "zrep ?h root k (Nd False (Nd True pl p pr) g u)"
    by (rule zrep_local [OF z u]) (use zrep_rep [OF z] zrep_distinct [OF z] n in auto)
  moreover have "write_at p rb_set_black h = Some (h(p \<mapsto> rb_set_black np))"
    "write_at g rb_set_red (h(p \<mapsto> rb_set_black np)) = Some ?h"
    using n ne by (simp_all add: write_at_Some)
  ultimately show ?thesis using unchanged_whole [OF u] by blast
qed

lemma rb_insert_color_left_outer:
  assumes z: "zrep h root k (Nd c (Nd cp (Nd ca al a ar) p s) g u)" and "isblack u"
  shows "\<exists>h' root'. rb_insert_color_left a p g h root = Some (a, h', root') \<and>
    zrep h' root' k (Nd True (Nd ca al a ar) p (Nd False s g u)) \<and>
    unchanged (whole k (Nd c (Nd cp (Nd ca al a ar) p s) g u)) h h'"
proof -
  let ?W = "whole k (Nd c (Nd cp (Nd ca al a ar) p s) g u)"
  from zrep_rep [OF z] obtain ng np where
    n: "h g = Some ng" "h p = Some np" "rep h p (rb_right np) s" "rep h g (rb_right ng) u" "a \<noteq> NULL"
    by auto
  have "rb_right np \<noteq> a" using n zrep_distinct [OF z] by (cases s) auto
  have u: "ptr_is_red (rb_right ng) h = Some False"
    using \<open>isblack u\<close> rep_ptr_colour(1) [OF n(4)] by simp
  from recolor_zrep [OF z] obtain h1 h2 where
    h2: "write_at p rb_set_black h = Some h1" "write_at g rb_set_red h1 = Some h2"
    "zrep h2 root k (Nd False (Nd True (Nd ca al a ar) p s) g u)" "unchanged ?W h h2" by blast
  from rb_rotate_right_zrep [OF h2(3)] obtain h3 root' where
    h3: "rb_rotate_right g h2 root = Some (h3, root')"
     "zrep h3 root' k (Nd True (Nd ca al a ar) p (Nd False s g u))" "unchanged ?W h2 h3" by auto
  have "rb_insert_color_left a p g h root = Some (a, h3, root')"
    using n u h2(1,2) h3(1) \<open>rb_right np \<noteq> a\<close> by (simp add: rb_insert_color_left_def)
  with h3 h2(4) show ?thesis using unchanged_trans by blast
qed

lemma rb_insert_color_left_inner:
  assumes z: "zrep h root k (Nd c (Nd cp s p (Nd ca al a ar)) g u)" and "isblack u"
  shows "\<exists>h' root'. rb_insert_color_left a p g h root = Some (p, h', root') \<and>
    zrep h' root' k (Nd True (Nd cp s p al) a (Nd False ar g u)) \<and>
    unchanged (whole k (Nd c (Nd cp s p (Nd ca al a ar)) g u)) h h'"
proof -
  let ?W = "whole k (Nd c (Nd cp s p (Nd ca al a ar)) g u)"
  obtain ng np where n: "h g = Some ng" "h p = Some np" "rb_right np = a"
     "rep h g (rb_right ng) u"
    using zrep_rep [OF z] by auto
  have u: "ptr_is_red (rb_right ng) h = Some False"
    using \<open>isblack u\<close> rep_ptr_colour(1) [OF n(4)] by simp
  have "zrep h root ((True, c, g, u) # k) (Nd cp s p (Nd ca al a ar))" using z by simp
  from rb_rotate_left_zrep [OF this] obtain h1 root1 where
    h1: "rb_rotate_left p h root = Some (h1, root1)"
     "zrep h1 root1 k (Nd c (Nd ca (Nd cp s p al) a ar) g u)" "unchanged ?W h h1"
    by (auto simp: Un_ac insert_commute)
  from recolor_zrep [OF h1(2)] obtain h2 h3 where
    h2: "write_at a rb_set_black h1 = Some h2" "write_at g rb_set_red h2 = Some h3"
    "zrep h3 root1 k (Nd False (Nd True (Nd cp s p al) a ar) g u)" "unchanged ?W h1 h3" 
    by (auto simp: Un_ac insert_commute)
  from rb_rotate_right_zrep [OF h2(3)] obtain h4 root' where
    h4: "rb_rotate_right g h3 root1 = Some (h4, root')"
     "zrep h4 root' k (Nd True (Nd cp s p al) a (Nd False ar g u))" "unchanged ?W h3 h4"
    by (auto simp: Un_ac insert_commute)
  have "rb_insert_color_left a p g h root = Some (p, h4, root')"
    using n u h1(1) h2(1,2) h4(1) by (simp add: rb_insert_color_left_def)
  moreover have "unchanged ?W h h4" using h1(3) h2(4) h4(3) unchanged_trans by blast
  ultimately show ?thesis using h4(2) by blast
qed

text \<open>
  What holds at the head of the loop: the node in focus is red, and only the edge to its
  parent may break the colour rule.  An iteration moves the focus up and keeps the nodes
  in order.
\<close>

definition ins_inv :: "frame list \<Rightarrow> rbt \<Rightarrow> bool" where
  "ins_inv k t \<longleftrightarrow> kinvc k \<and> invc t \<and> invh t \<and> kinvh k (bh t) \<and> t \<noteq> Lf \<and> \<not> isblack t"

definition ins_step :: "rb_heap \<Rightarrow> frame list \<Rightarrow> rbt \<Rightarrow> (addr \<times> rb_heap \<times> addr) option \<Rightarrow> bool" where
  "ins_step h k t res \<longleftrightarrow> (\<exists>h' root' k' t'. res = Some (rtop t', h', root') \<and> zrep h' root' k' t' \<and>
     ins_inv k' t' \<and> length k' < length k \<and> inorder (plug k' t') = inorder (plug k t) \<and>
     unchanged (whole k t) h h')"

lemma ins_stepI:
  "res = Some (a', h', root') \<Longrightarrow> zrep h' root' k' t' \<Longrightarrow> rtop t' = a' \<Longrightarrow> ins_inv k' t' \<Longrightarrow>
   length k' < length k \<Longrightarrow> inorder (plug k' t') = inorder (plug k t) \<Longrightarrow>
   unchanged (whole k t) h h' \<Longrightarrow> ins_step h k t res"
  unfolding ins_step_def by blast

lemma rb_insert_color_left_step:
  assumes z: "zrep h root ((d, False, p, s) # (True, c, g, u) # k) t"
    and inv: "ins_inv ((d, False, p, s) # (True, c, g, u) # k) t"
  shows "ins_step h ((d, False, p, s) # (True, c, g, u) # k) t 
     (rb_insert_color_left (rtop t) p g h root)"
proof (cases "isblack u")
  case False
  then obtain ul x ur where u: "u = Nd False ul x ur" by (cases u) auto
  define P where "P = (if d then Nd False t p s else Nd False s p t)"
  have "zrep h root k (Nd c P g u)" using z by (cases d) (auto simp: P_def)
  then obtain h' where h': "rb_insert_color_left (rtop t) p g h root = Some (g, h', root)"
    "zrep h' root k (Nd False (if d then Nd True t p s else Nd True s p t) g (Nd True ul x ur))"
    "unchanged (whole k (Nd c P g u)) h h'"
    using rb_insert_color_left_red_uncle [of h root k c _ p _ g ul x ur] unfolding P_def u
    by (cases d) (simp_all, blast+)
  show ?thesis
    by (rule ins_stepI [OF h'(1,2)])
     (use inv h'(3) in \<open>cases d; auto simp: ins_inv_def u P_def inorder_plug Un_ac insert_commute\<close>)+
next
  case True
  obtain ca al a ar where t: "t = Nd ca al a ar" using inv by (cases t) (auto simp: ins_inv_def)
  show ?thesis
  proof (cases d)
    case d: True
    have "zrep h root k (Nd c (Nd False (Nd ca al a ar) p s) g u)" using z by (simp add: d t)
    from rb_insert_color_left_outer [OF this True] obtain h' root' where
      h': "rb_insert_color_left a p g h root = Some (a, h', root')"
        "zrep h' root' ((True, True, p, Nd False s g u) # k) t"
        "unchanged (whole k (Nd c (Nd False (Nd ca al a ar) p s) g u)) h h'"
      unfolding t by auto
    show ?thesis unfolding t rtop.simps
      by (rule ins_stepI [OF h'(1,2)])
        (use inv h'(3) True in \<open>auto simp: ins_inv_def d t inorder_plug Un_ac insert_commute\<close>)
  next
    case d: False
    have "zrep h root k (Nd c (Nd False s p (Nd ca al a ar)) g u)" using z by (simp add: d t)
    from rb_insert_color_left_inner [OF this True] obtain h' root' where
      h': "rb_insert_color_left a p g h root = Some (p, h', root')"
        "zrep h' root' ((True, True, a, Nd False ar g u) # k) (Nd False s p al)"
        "unchanged (whole k (Nd c (Nd False s p (Nd ca al a ar)) g u)) h h'"
      by auto
    show ?thesis unfolding t rtop.simps
      by (rule ins_stepI [OF h'(1,2)])
        (use inv h'(3) True in \<open>auto simp: ins_inv_def d t inorder_plug Un_ac insert_commute\<close>)
  qed
qed

lemma mirror_insert_color:
  "rb_insert_color_right node p g (mirror h) root =
     map_option (map_prod id (map_prod mirror id)) (rb_insert_color_left node p g h root)"
  unfolding rb_insert_color_right_def rb_insert_color_left_def Let_def
  apply (rule bind_mirror, rule mirror_rules, (simp split del: if_split cong: if_cong)?)
  apply (rule bind_mirror, rule mirror_rules, (simp split del: if_split cong: if_cong)?)
  apply (rule if_mirror)
  apply (rule bind_mirror, rule mirror_rules, (simp split del: if_split cong: if_cong)?)
  apply (rule bind_mirror, rule mirror_rules, (simp split del: if_split cong: if_cong)?)
  apply (rule bind_mirror, rule mirror_rules, (simp split del: if_split cong: if_cong)?)
  apply (rule bind_mirror, rule mirror_rules, (simp split del: if_split cong: if_cong)?)
  apply (rule bind_mirror [where f = "map_prod mirror id"])
  apply (rule if_mirror)
  apply (rule bind_mirror, rule mirror_rotate_right mirror_rotate_left, simp add: case_prod_beta map_prod_def)
  apply (simp add: map_prod_def)
  apply (simp add: case_prod_beta)
  apply (rule bind_mirror, rule mirror_rules, (simp split del: if_split cong: if_cong)?)
  apply (rule bind_mirror, rule mirror_rules, (simp split del: if_split cong: if_cong)?)
  apply (rule bind_mirror, rule mirror_rotate_right mirror_rotate_left, simp add: case_prod_beta map_prod_def)
  done

lemma isblack_tmirror [simp]: "isblack (tmirror t) = isblack t"
  by (cases t) auto

lemma invc_tmirror [simp]: "invc (tmirror t) = invc t"
  by (induction t) auto

lemma bh_invh_tmirror: "(invh t \<longrightarrow> bh (tmirror t) = bh t) \<and> invh (tmirror t) = invh t"
  by (induction t) auto

lemma bh_tmirror [simp]: "invh t \<Longrightarrow> bh (tmirror t) = bh t"
  and invh_tmirror [simp]: "invh (tmirror t) = invh t"
  using bh_invh_tmirror by blast+

lemma hole_black_kmirror [simp]: "hole_black (kmirror k) = hole_black k"
  by (cases k rule: hole_black.cases) auto

lemma kinvc_kmirror [simp]: "kinvc (kmirror k) = kinvc k"
  by (induction k rule: kinvc.induct) auto

lemma kinvh_kmirror [simp]: "kinvh (kmirror k) n = kinvh k n"
  by (induction k n rule: kinvh.induct) auto

lemma tmirror_Lf [simp]: "tmirror t = Lf \<longleftrightarrow> t = Lf"
  by (cases t) auto

lemma ins_inv_mirror [simp]: "ins_inv (kmirror k) (tmirror t) = ins_inv k t"
  by (auto simp: ins_inv_def)

lemma length_kmirror [simp]: "length (kmirror k) = length k"
  by (simp add: kmirror_def)

lemma inorder_plug_mirror [simp]: "inorder (plug (kmirror k) (tmirror t)) = rev (inorder (plug k t))"
  by (simp add: inorder_plug)

lemma ins_step_mirror:
  assumes "ins_step (mirror h) (kmirror k) (tmirror t) res"
  shows "ins_step h k t (map_option (map_prod id (map_prod mirror id)) res)"
proof -
  from assms obtain h' root' k' t' where r: "res = Some (rtop t', h', root')" "zrep h' root' k' t'"
     "ins_inv k' t'" "length k' < length k" "inorder (plug k' t') = rev (inorder (plug k t))" 
     "unchanged (whole k t) (mirror h) h'"
    by (auto simp: ins_step_def Un_ac)
  have z: "zrep (mirror h') root' (kmirror k') (tmirror t')" using r(2) by simp
  have "unchanged (whole k t) h (mirror h')"
    using r(6) unchanged_mirror [of _ h "mirror h'"] by simp
  then show ?thesis
    unfolding r(1) by (intro ins_stepI [OF _ z]) (use r(3-5) in auto)
qed

lemma rb_insert_color_right_step:
  assumes "zrep h root ((d, False, p, s) # (False, c, g, u) # k) t"
    and "ins_inv ((d, False, p, s) # (False, c, g, u) # k) t"
  shows "ins_step h ((d, False, p, s) # (False, c, g, u) # k) t 
     (rb_insert_color_right (rtop t) p g h root)"
proof -
  let ?k = "(d, False, p, s) # (False, c, g, u) # k"
  have z: "zrep (mirror h) root (kmirror ?k) (tmirror t)" using assms(1) by (simp only: zrep_mirror)
  have i: "ins_inv (kmirror ?k) (tmirror t)" using assms(2) by (simp only: ins_inv_mirror)
  from rb_insert_color_left_step [of "mirror h" root "\<not> d" p "tmirror s" c g "tmirror u" "kmirror k" "tmirror t"] z i
  have "ins_step (mirror h) (kmirror ?k) (tmirror t) (rb_insert_color_left (rtop t) p g (mirror h) root)"
    by simp
  from ins_step_mirror [OF this] show ?thesis
    using mirror_insert_color [of "rtop t" p g "mirror h" root] by simp
qed

section \<open>The loop and its contract\<close>

lemma rb_insert_color_loop_zrep:
  assumes "zrep h root k t" "ins_inv k t"
  shows "\<exists>h' root' t'. rb_insert_color_loop (rtop t) h root = Some (h', root') \<and>
    tree_at h' root' t' \<and> inorder t' = inorder (plug k t) \<and> invc t' \<and> invh t' \<and>
    unchanged (whole k t) h h'"
  using assms
proof (induction "length k" arbitrary: h root k t rule: less_induct)
  case less
  obtain l a r where t: "t = Nd False l a r" using less.prems(2) by (cases t) (auto simp: ins_inv_def)
  from zrep_rep [OF less.prems(1)] obtain na where na: "h a = Some na" "rb_parent na = kpar k"
    by (auto simp: t)
  show ?case
  proof (cases "k = [] \<or> hole_black k")
    case True
    then have "ptr_is_red (kpar k) h = Some False"
    proof 
      assume "hole_black k"
      then obtain d p s k' where k: "k = (d, True, p, s) # k'" by (cases k rule: hole_black.cases) auto
      then show ?thesis
        using less.prems(1) zrep_rep [of h root k'] by (cases d) (fastforce simp: ptr_is_red_def)+
    qed (simp add: ptr_is_red_def)
    then have "rb_insert_color_loop (rtop t) h root = Some (h, root)"
      using na by (subst rb_insert_color_loop.simps) (simp add: t)
    moreover have "tree_at h root (plug k t)" using less.prems(1) zrep_plug by blast
    moreover have "invc (plug k t)" "invh (plug k t)"
      using True less.prems(2) by (auto simp: ins_inv_def invh_plug intro: invc_plug)
    ultimately show ?thesis by (intro exI conjI) auto
  next
    case False
    then obtain d p s d2 g u k2 where k: "k = (d, False, p, s) # (d2, True, g, u) # k2"
      using less.prems(2) 
      by (cases k rule: hole_black.cases; cases "tl k" rule: hole_black.cases) (auto simp: ins_inv_def)
    from less.prems(1) zrep_rep [of h root k2] obtain np ng where
      n: "h p = Some np" "\<not> rb_is_black np" "rb_parent np = g" "h g = Some ng" "p \<noteq> NULL"
        "d2 \<Longrightarrow> rb_left ng = p" "\<not> d2 \<Longrightarrow> rep h g (rb_left ng) u"
      unfolding k by (cases d; cases d2) fastforce+
    have d2: "d2 \<longleftrightarrow> p = rb_left ng"
    proof (cases d2)
      case False
      moreover have "p \<notin> set (inorder u)"
        using less.prems(1) zrep_distinct [of h root k2] False unfolding k by (cases d) fastforce+
      ultimately show ?thesis using n(5) n(7) by (cases u) auto
    qed (use n(6) in simp)
    let ?step = "if p = rb_left ng then rb_insert_color_left (rtop t) p g h root
       else rb_insert_color_right (rtop t) p g h root"
    have "ins_step h k t ?step"
      using rb_insert_color_left_step [of h root d p s True g u k2 t]
        rb_insert_color_right_step [of h root d p s True g u k2 t] less.prems
      unfolding k d2 [symmetric] by (cases d2) simp_all
    then obtain h1 root1 k1 t1 where
      s1: "?step = Some (rtop t1, h1, root1)" "zrep h1 root1 k1 t1" "ins_inv k1 t1"
        "length k1 < length k" "inorder (plug k1 t1) = inorder (plug k t)" "unchanged (whole k t) h h1"
      unfolding ins_step_def by blast
    have w: "whole k1 t1 = whole k t" using s1(5) by (metis inorder_plug)
    have "rb_insert_color_loop (rtop t) h root = rb_insert_color_loop (rtop t1) h1 root1"
      using n na s1(1) 
      by (subst rb_insert_color_loop.simps) (simp add: t k ptr_is_red_def split del: if_split)
    moreover obtain h2 root2 t2 where s2: "rb_insert_color_loop (rtop t1) h1 root1 = Some (h2, root2)"
       "tree_at h2 root2 t2" "inorder t2 = inorder (plug k t)" "invc t2" "invh t2" "unchanged (whole k t) h1 h2"
      using less.hyps [OF s1(4,2,3)] unfolding s1(5) w by blast
    ultimately show ?thesis using unchanged_trans [OF s1(6) s2(6)] by auto
  qed
qed


text \<open>Linking a new node at a hole and rebalancing.\<close>

definition link_at :: "frame list \<Rightarrow> rb_link" where
  "link_at k = (case k of [] \<Rightarrow> Root_link
     | (d, c, p, s) # _ \<Rightarrow> if d then Left_link p else Right_link p)"

lemma blacken_root:
  assumes "tree_at h root t" "t \<noteq> Lf" "invc t" "invh t"
  shows "\<exists>h' t'. write_at root rb_set_black h = Some h' \<and> tree_at h' root t' \<and> rbinv t' \<and>
    inorder t' = inorder t \<and> unchanged (set (inorder t)) h h'"
proof -
  obtain c l a r where t: "t = Nd c l a r" using assms(2) by (cases t) auto
  from zrep_rep [OF assms(1)] obtain n where n: "h a = Some n" by (auto simp: t)
  let ?h = "h(a \<mapsto> rb_set_black n)"
  have u: "unchanged (set (inorder t)) h ?h" by (auto simp: unchanged_def t)
  have "tree_at ?h root (Nd True l a r)"
    by (rule zrep_local [OF assms(1) u]) (use zrep_rep [OF assms(1)] zrep_distinct [OF assms(1)] n in \<open>auto simp: t\<close>)
  moreover have "root = a" using assms(1) by (auto simp: zrep_def t)
  ultimately show ?thesis
    using n u assms(3,4) by (auto simp: write_at_Some t rbinv_def)
qed

lemma rb_link_fields [simp]:
  assumes "aligned4 q"
  shows "rb_parent (n\<lparr>rb_parent_color := q, rb_right := r, rb_left := l\<rparr>) = q"
    "\<not> rb_is_black (n\<lparr>rb_parent_color := q, rb_right := r, rb_left := l\<rparr>)"
  using assms by (cases n; simp)+

lemma rb_link_node_zrep:
  assumes z: "zrep h root k Lf"
    and a: "a \<notin> set (before k) \<union> set (after k)" "a \<noteq> NULL" "aligned4 a" "a \<in> dom h"
  shows "\<exists>h' root'. rb_link_node a (kpar k) (link_at k) h root = Some (h', root') \<and>
    zrep h' root' k (Nd False Lf a Lf) \<and> unchanged (insert a (set (before k) \<union> set (after k))) h h'"
proof (cases k)
  case Nil
  with a show ?thesis
    by (auto simp: rb_link_node_def write_at_Some link_at_def write_link_def zrep_def unchanged_def)
next
  case (Cons f k')
  obtain d c p s where f: "f = (d, c, p, s)" by (cases f)
  have ne: "a \<noteq> p" using a(1) by (cases d) (auto simp: Cons f)
  from z a ne show ?thesis
    unfolding Cons f
    by (cases d) (auto simp: rb_link_node_def write_at_Some link_at_def write_link_def zrep_def
        unchanged_def simp del: zrep_up)
qed

text \<open>
  Linking a red leaf at a hole of a red-black tree and rebalancing returns, gives a
  red-black tree with the new node at the hole's place in the order, and touches no other
  memory.
\<close>

lemma rb_insert_zrep:
  assumes z: "zrep h root k Lf" and inv: "rbinv (plug k Lf)"
    and a: "a \<notin> set (before k) \<union> set (after k)" "a \<noteq> NULL" "aligned4 a" "a \<in> dom h"
  shows "\<exists>h1 root1 h' root' t'. rb_link_node a (kpar k) (link_at k) h root = Some (h1, root1) \<and>
     rb_insert_color a h1 root1 = Some (h', root') \<and> tree_at h' root' t' \<and> rbinv t' \<and>
     inorder t' = before k @ a # after k \<and> unchanged (insert a (set (before k) \<union> set (after k))) h h'"
proof -
  let ?t = "Nd False Lf a Lf"
  let ?X = "insert a (set (before k) \<union> set (after k))"
  from rb_link_node_zrep [OF z a] obtain h1 root1 where
     l: "rb_link_node a (kpar k) (link_at k) h root = Some (h1, root1)"
     "zrep h1 root1 k ?t" "unchanged ?X h h1" by blast
  have "ins_inv k ?t" using inv invc_plugD [of k Lf] by (auto simp: rbinv_def ins_inv_def invh_plug)
  from rb_insert_color_loop_zrep [OF l(2) this] obtain h2 root2 t2 where
    c: "rb_insert_color_loop a h1 root1 = Some (h2, root2)" "tree_at h2 root2 t2"
      "inorder t2 = before k @ a # after k" "invc t2" "invh t2" "unchanged ?X h1 h2"
    by (auto simp: inorder_plug)
  from c(3) have "t2 \<noteq> Lf" "set (inorder t2) = ?X" by auto
  with blacken_root [OF c(2) _ c(4,5)] c(3) obtain h3 t3 where
    b: "write_at root2 rb_set_black h2 = Some h3" "tree_at h3 root2 t3" "rbinv t3"
     "inorder t3 = before k @ a # after k" "unchanged ?X h2 h3"
    by auto
  have "rb_insert_color a h1 root1 = Some (h3, root2)" using c(1) b(1) by (simp add: rb_insert_color_def)
  moreover have "unchanged ?X h h3"
    using l(3) c(6) b(5) unchanged_trans by blast
  ultimately show ?thesis using l(1) b(2-4) by blast
qed

end
