(* ===== verification/Rbtree_Erase.thy ===== *)
theory Rbtree_Erase
  imports Rbtree_Insert
begin

text \<open>
  Removal from the red-black trees of \<open>lib/rbtree.c\<close>: one iteration of the loop of
  \<open>__rb_erase_color\<close>, that the loop ends with a red-black tree, the unlinking of a node, and
  the contract of \<open>rb_erase\<close> (\<open>rb_erase_zrep\<close>).
\<close>

section \<open>One iteration of \<open>__rb_erase_color\<close>\<close>

text \<open>The part of an iteration after a red sibling has been rotated away.\<close>

definition erase_color_rest ::
  "addr \<Rightarrow> addr \<Rightarrow> rb_heap \<Rightarrow> addr
     \<Rightarrow> ((addr \<times> addr \<times> rb_heap \<times> addr) + (addr \<times> rb_heap \<times> addr)) option" where
  "erase_color_rest parent other h root = do {
     od \<leftarrow> h other;
     left_black \<leftarrow> ptr_is_black (rb_left od) h;
     right_black \<leftarrow> ptr_is_black (rb_right od) h;
     if left_black \<and> right_black then do {
       h \<leftarrow> write_at other rb_set_red h;
       nd \<leftarrow> h parent;
       Some (Inl (parent, rb_parent nd, h, root)) }
     else do {
       (h, root, other) \<leftarrow> (if right_black then do {
            h \<leftarrow> write_at (rb_left od) rb_set_black h;
            h \<leftarrow> write_at other rb_set_red h;
            (h, root) \<leftarrow> rb_rotate_right other h root;
            pd \<leftarrow> h parent;
            Some (h, root, rb_right pd) }
          else Some (h, root, other));
       pd \<leftarrow> h parent;
       h \<leftarrow> write_at other (rb_set_color (rb_color pd)) h;
       h \<leftarrow> write_at parent rb_set_black h;
       od \<leftarrow> h other;
       h \<leftarrow> write_at (rb_right od) rb_set_black h;
       (h, root) \<leftarrow> rb_rotate_left parent h root;
       Some (Inr (root, h, root)) } }"

lemma erase_color_left_rest:
  "rb_erase_color_left parent pd h root = do {
     od \<leftarrow> h (rb_right pd);
     (h, root, other) \<leftarrow> (if rb_is_red od then do {
          h \<leftarrow> write_at (rb_right pd) rb_set_black h;
          h \<leftarrow> write_at parent rb_set_red h;
          (h, root) \<leftarrow> rb_rotate_left parent h root;
          pd \<leftarrow> h parent;
          Some (h, root, rb_right pd) }
        else Some (h, root, rb_right pd));
     erase_color_rest parent other h root }"
  by (simp only: rb_erase_color_left_def erase_color_rest_def Let_def)

lemma erase_rest_black_nephews:
  assumes z: "zrep h root k (Nd c t p (Nd True sl s sr))" and b: "isblack sl" "isblack sr"
  shows "\<exists>h'. erase_color_rest p s h root = Some (Inl (p, kpar k, h', root)) \<and>
    zrep h' root k (Nd c t p (Nd False sl s sr)) \<and>
    unchanged (whole k (Nd c t p (Nd True sl s sr))) h h'"
proof -
  from zrep_rep [OF z] obtain np ns where
    n: "h p = Some np" "rb_parent np = kpar k" "h s = Some ns" "rep h s (rb_left ns) sl" "rep h s (rb_right ns) sr"
    by auto
  from zrep_distinct [OF z] have ne: "p \<noteq> s" by auto
  let ?h = "h(s \<mapsto> rb_set_red ns)"
  have u: "unchanged (set (inorder (Nd c t p (Nd True sl s sr)))) h ?h"
    by (auto simp: unchanged_def)
  have "zrep ?h root k (Nd c t p (Nd False sl s sr))"
    by (rule zrep_local [OF z u]) (use zrep_rep [OF z] zrep_distinct [OF z] n in auto)
  moreover have "erase_color_rest p s h root = Some (Inl (p, kpar k, ?h, root))"
    using n ne b by (simp add: erase_color_rest_def rep_ptr_colour(2) [OF n(4)] rep_ptr_colour(2) [OF n(5)] write_at_Some)
  ultimately show ?thesis using unchanged_whole [OF u] by blast
qed

lemma erase_color_final:
  assumes z: "zrep h root k (Nd c t p (Nd cs sl s (Nd cr a r b)))"
  shows "\<exists>pd h1 h2 od h3 h' root'. h p = Some pd \<and>
    write_at s (rb_set_color (rb_color pd)) h = Some h1 \<and>
    write_at p rb_set_black h1 = Some h2 \<and> h2 s = Some od \<and>
    write_at (rb_right od) rb_set_black h2 = Some h3 \<and>
    rb_rotate_left p h3 root = Some (h', root') \<and>
    zrep h' root' k (Nd c (Nd True t p sl) s (Nd True a r b)) \<and>
    unchanged (whole k (Nd c t p (Nd cs sl s (Nd cr a r b)))) h h'"
proof -
  let ?t = "Nd c t p (Nd cs sl s (Nd cr a r b))"
  from zrep_rep [OF z] obtain np ns nr where
    n: "h p = Some np" "rb_is_black np = c" "h s = Some ns" "h r = Some nr" "rb_right ns = r"
    by auto
  from zrep_distinct [OF z] have ne: "p \<noteq> s" "p \<noteq> r" "s \<noteq> r" by auto
  let ?h1 = "h(s \<mapsto> rb_set_color (rb_color np) ns)"
  let ?h2 = "?h1(p \<mapsto> rb_set_black np)"
  let ?h3 = "?h2(r \<mapsto> rb_set_black nr)"
  have u: "unchanged (set (inorder ?t)) h ?h3" by (auto simp: unchanged_def)
  have "zrep ?h3 root k (Nd True t p (Nd c sl s (Nd True a r b)))"
    by (rule zrep_local [OF z u]) (use zrep_rep [OF z] zrep_distinct [OF z] n in auto)
  from rb_rotate_left_zrep [OF this] obtain h' root' where
    h': "rb_rotate_left p ?h3 root = Some (h', root')"
      "zrep h' root' k (Nd c (Nd True t p sl) s (Nd True a r b))" "unchanged (whole k ?t) ?h3 h'"
    by auto
  have "unchanged (whole k ?t) h h'" using unchanged_trans [OF unchanged_whole [OF u] h'(3)] .
  with h' n ne show ?thesis
    by (intro exI [of _ np] exI [of _ ?h1] exI [of _ ?h2] exI [of _ "rb_set_color (rb_color np) ns"] exI [of _ ?h3]
        exI [of _ h'] exI [of _ root']) (simp add: write_at_Some)
qed

lemma erase_rest_red_right:
  assumes z: "zrep h root k (Nd c t p (Nd True sl s (Nd False a r b)))"
  shows "\<exists>h' root'. erase_color_rest p s h root = Some (Inr (root', h', root')) \<and>
    zrep h' root' k (Nd c (Nd True t p sl) s (Nd True a r b)) \<and>
    unchanged (whole k (Nd c t p (Nd True sl s (Nd False a r b)))) h h'"
proof -
  from zrep_rep [OF z] obtain ns where
    n: "h s = Some ns" "rep h s (rb_left ns) sl" "rep h s (rb_right ns) (Nd False a r b)"
    by auto
  from erase_color_final [OF z] show ?thesis
    by (auto simp: erase_color_rest_def n(1) rep_ptr_colour(2) [OF n(2)] rep_ptr_colour(2) [OF n(3)])
qed

lemma erase_rest_red_left:
  assumes z: "zrep h root k (Nd c t p (Nd True (Nd False a l b) s sr))" and "isblack sr"
  shows "\<exists>h' root'. erase_color_rest p s h root = Some (Inr (root', h', root')) \<and>
    zrep h' root' k (Nd c (Nd True t p a) l (Nd True b s sr)) \<and>
    unchanged (whole k (Nd c t p (Nd True (Nd False a l b) s sr))) h h'"
proof -
  let ?W = "whole k (Nd c t p (Nd True (Nd False a l b) s sr))"
  from zrep_rep [OF z] obtain ns where
    n: "h s = Some ns" "rep h s (rb_left ns) (Nd False a l b)" "rep h s (rb_right ns) sr"
    by auto
  have "zrep h root ((False, c, p, t) # k) (Nd True (Nd False a l b) s sr)" using z by simp
  from recolor_zrep [OF this] obtain h1 h2 where
    h2: "write_at l rb_set_black h = Some h1" "write_at s rb_set_red h1 = Some h2"
    "zrep h2 root ((False, c, p, t) # k) (Nd False (Nd True a l b) s sr)" "unchanged ?W h h2"
    by (auto simp: Un_ac insert_commute)
  from rb_rotate_right_zrep [OF h2(3)] obtain h3 root3 where
    h3: "rb_rotate_right s h2 root = Some (h3, root3)"
     "zrep h3 root3 k (Nd c t p (Nd True a l (Nd False b s sr)))" "unchanged ?W h2 h3"
    by (auto simp: Un_ac insert_commute)
  from zrep_rep [OF h3(2)] obtain np where p: "h3 p = Some np" "rb_right np = l" by auto
  from erase_color_final [OF h3(2)] obtain h' root' where
    h': "erase_color_rest p s h root = Some (Inr (root', h', root'))"
     "zrep h' root' k (Nd c (Nd True t p a) l (Nd True b s sr))" "unchanged ?W h3 h'"
    using n h2(1,2) h3(1) p \<open>isblack sr\<close>
    by (auto simp: erase_color_rest_def rep_ptr_colour(2) [OF n(2)] rep_ptr_colour(2) [OF n(3)] Un_ac insert_commute)
  with h2(4) h3(3) show ?thesis using unchanged_trans by blast
qed


text \<open>
  What holds at the head of the loop: the subtree in focus is one black node short.  An
  iteration either moves the short subtree up (or leaves it with a red top, which ends the
  loop), or ends with a red-black tree.
\<close>

fun blacken :: "rbt \<Rightarrow> rbt" where
  "blacken Lf = Lf"
| "blacken (Nd c l a r) = Nd True l a r"

lemma blacken_black [simp]: "isblack t \<Longrightarrow> blacken t = t"
  by (cases t) auto

definition del_inv :: "frame list \<Rightarrow> rbt \<Rightarrow> bool" where
  "del_inv k t \<longleftrightarrow> kinvc k \<and> invc (blacken t) \<and> invh t \<and> kinvh k (Suc (bh t))"

definition del_rank :: "frame list \<Rightarrow> rbt \<Rightarrow> nat" where
  "del_rank k t = 2 * length k + (if isblack t then 1 else 0)"

definition del_step :: "rb_heap \<Rightarrow> addr list \<Rightarrow> nat \<Rightarrow>
    ((addr \<times> addr \<times> rb_heap \<times> addr) + (addr \<times> rb_heap \<times> addr)) option \<Rightarrow> bool" where
  "del_step h xs n res \<longleftrightarrow>
     (\<exists>h' root' k' t'. res = Some (Inl (rtop t', kpar k', h', root')) \<and> zrep h' root' k' t' \<and>
        del_inv k' t' \<and> inorder (plug k' t') = xs \<and> del_rank k' t' < n \<and> unchanged (set xs) h h') \<or>
     (\<exists>h' root' t'. res = Some (Inr (root', h', root')) \<and> tree_at h' root' t' \<and> rbinv t' \<and>
        inorder t' = xs \<and> unchanged (set xs) h h')"

lemma del_stepL:
  "res = Some (Inl (p', q', h', root')) \<Longrightarrow> zrep h' root' k' t' \<Longrightarrow> p' = rtop t' \<Longrightarrow> q' = kpar k' \<Longrightarrow>
   del_inv k' t' \<Longrightarrow> inorder (plug k' t') = xs \<Longrightarrow> del_rank k' t' < n \<Longrightarrow> unchanged (set xs) h h' \<Longrightarrow>
   del_step h xs n res"
  unfolding del_step_def by blast

lemma rbinv_plug:
  assumes "kinvc k" "invc t" "invh t" "kinvh k (bh t)" "isblack t \<or> hole_black k" 
  shows "rbinv (plug k t)"
proof -
  have "isblack (plug k t)" using assms(1,5)
    by (induction k t rule: plug.induct) auto
  then show ?thesis using assms by (auto simp: rbinv_def invh_plug intro: invc_plug)
qed

lemma del_stepR:
  assumes "res = Some (Inr (root', h', root'))" "zrep h' root' k' t'" "kinvc k'" "invc t'" "invh t'"
    "kinvh k' (bh t')" "isblack t' \<or> hole_black k'"
    "inorder (plug k' t') = xs" "unchanged (set xs) h h'"
  shows "del_step h xs n res"
  using assms rbinv_plug [of k' t'] zrep_plug [of h' root' k' t'] unfolding del_step_def by blast

lemma whole_plug: "whole k t = set (inorder (plug k t))"
  by (simp add: inorder_plug)

lemma erase_rest_step:
  assumes z: "zrep h root k (Nd c t p (Nd True sl s sr))"
    and inv: "del_inv ((True, c, p, Nd True sl s sr) # k) t" and "isblack t"
    and n: "if c then 2 * length k + 1 < n else 2 * length k < n"
  shows "del_step h (inorder (plug k (Nd c t p (Nd True sl s sr)))) n (erase_color_rest p s h root)"
proof -
  consider "isblack sl" "isblack sr" | a r b where "sr = Nd False a r b"
    | a l b where "sl = Nd False a l b" "isblack sr"
    by (cases "isblack sr"; cases "isblack sl"; cases sl; cases sr) auto
  then show ?thesis
  proof cases
    case 1
    from erase_rest_black_nephews [OF z 1] obtain h' where
      h': "erase_color_rest p s h root = Some (Inl (p, kpar k, h', root))"
       "zrep h' root k (Nd c t p (Nd False sl s sr))"
       "unchanged (whole k (Nd c t p (Nd True sl s sr))) h h'" by blast
    show ?thesis
      by (rule del_stepL [OF h'(1,2)])
       (use inv h'(3) 1 \<open>isblack t\<close> n in \<open>auto simp: del_inv_def del_rank_def inorder_plug split: if_splits\<close>)
  next
    case 2
    from erase_rest_red_right [OF z [unfolded 2]] obtain h' root' where
      h': "erase_color_rest p s h root = Some (Inr (root', h', root'))"
       "zrep h' root' k (Nd c (Nd True t p sl) s (Nd True a r b))"
       "unchanged (whole k (Nd c t p (Nd True sl s (Nd False a r b)))) h h'" by blast
    show ?thesis
      by (rule del_stepR [OF h'(1,2)])
       (use inv h'(3) 2 \<open>isblack t\<close> in \<open>auto simp: del_inv_def inorder_plug split: if_splits\<close>)
  next
    case 3
    from erase_rest_red_left [OF z [unfolded 3] 3(2)] obtain h' root' where
      h': "erase_color_rest p s h root = Some (Inr (root', h', root'))"
       "zrep h' root' k (Nd c (Nd True t p a) l (Nd True b s sr))"
       "unchanged (whole k (Nd c t p (Nd True (Nd False a l b) s sr))) h h'" by blast
    show ?thesis
      by (rule del_stepR [OF h'(1,2)])
       (use inv h'(3) 3 \<open>isblack t\<close> in \<open>auto simp: del_inv_def inorder_plug split: if_splits\<close>)
  qed
qed

lemma del_step_trans:
  "unchanged (set xs) h h1 \<Longrightarrow> del_step h1 xs n res \<Longrightarrow> del_step h xs n res"
  unfolding del_step_def using unchanged_trans by blast

lemma recolor_right_zrep:
  assumes z: "zrep h root k (Nd cp t p (Nd cs sl s sr))"
  shows "\<exists>h1 h'. write_at s rb_set_black h = Some h1 \<and> write_at p rb_set_red h1 = Some h' \<and>
    zrep h' root k (Nd False t p (Nd True sl s sr)) \<and>
    unchanged (whole k (Nd cp t p (Nd cs sl s sr))) h h'"
proof -
  from zrep_rep [OF z] obtain np ns where n: "h p = Some np" "h s = Some ns" by auto
  from zrep_distinct [OF z] have ne: "p \<noteq> s" by auto
  let ?h = "h(s \<mapsto> rb_set_black ns, p \<mapsto> rb_set_red np)"
  have u: "unchanged (set (inorder (Nd cp t p (Nd cs sl s sr)))) h ?h"
    by (auto simp: unchanged_def)
  have "zrep ?h root k (Nd False t p (Nd True sl s sr))"
    by (rule zrep_local [OF z u]) (use zrep_rep [OF z] zrep_distinct [OF z] n in auto)
  moreover have "write_at s rb_set_black h = Some (h(s \<mapsto> rb_set_black ns))"
    "write_at p rb_set_red (h(s \<mapsto> rb_set_black ns)) = Some ?h"
    using n ne by (simp_all add: write_at_Some)
  ultimately show ?thesis using unchanged_whole [OF u] by blast
qed

lemma rb_erase_color_left_step:
  assumes z: "zrep h root ((True, c, p, s) # k) t" and inv: "del_inv ((True, c, p, s) # k) t"
    and "isblack t" and pd: "h p = Some pd"
  shows "del_step h (inorder (plug ((True, c, p, s) # k) t)) (del_rank ((True, c, p, s) # k) t)
     (rb_erase_color_left p pd h root)"
proof -
  obtain cs sl a sr where s: "s = Nd cs sl a sr" using inv by (cases s) (auto simp: del_inv_def)
  have z1: "zrep h root k (Nd c t p (Nd cs sl a sr))" using z by (simp add: s)
  from zrep_rep [OF z1] pd obtain na where n: "rb_right pd = a" "h a = Some na" "rb_is_black na = cs" by auto
  show ?thesis
  proof (cases cs)
    case True
    have "rb_erase_color_left p pd h root = erase_color_rest p a h root"
      using n True by (simp add: erase_color_left_rest)
    then show ?thesis
      using erase_rest_step [of h root k c t p sl a sr] z1 inv \<open>isblack t\<close> True
      by (simp add: s del_rank_def)
  next
    case False
    then have c: "c" using inv by (auto simp: del_inv_def s)
    obtain a1 y b1 where sl: "sl = Nd True a1 y b1" using inv False by (cases sl) (auto simp: del_inv_def s)
    from recolor_right_zrep [OF z1] obtain h1 h2 where
      h2: "write_at a rb_set_black h = Some h1" "write_at p rb_set_red h1 = Some h2"
      "zrep h2 root k (Nd False t p (Nd True sl a sr))"
      "unchanged (whole k (Nd c t p (Nd cs sl a sr))) h h2" by blast
    from rb_rotate_left_zrep [OF h2(3)] obtain h3 root' where
      h3: "rb_rotate_left p h2 root = Some (h3, root')"
        "zrep h3 root' k (Nd True (Nd False t p sl) a sr)"
        "unchanged (whole k (Nd c t p (Nd cs sl a sr))) h2 h3" by auto
    have u: "unchanged (set (inorder (plug k (Nd c t p (Nd cs sl a sr))))) h h3"
      using unchanged_trans [OF h2(4) h3(3)] by (simp only: whole_plug)
    from zrep_rep [OF h3(2)] obtain np where p: "h3 p = Some np" "rb_right np = y" by (auto simp: sl)
    have "rb_erase_color_left p pd h root = erase_color_rest p y h3 root'"
      using n False p h2(1,2) h3(1) by (simp add: erase_color_left_rest)
    moreover have "del_step h3 (inorder (plug ((True, True, a, sr) # k) (Nd False t p (Nd True a1 y b1))))
      (del_rank ((True, c, p, s) # k) t) (erase_color_rest p y h3 root')"
      by (rule erase_rest_step)
       (use h3(2) inv \<open>isblack t\<close> False c in \<open>auto simp: sl del_inv_def s del_rank_def split: if_splits\<close>)
    ultimately show ?thesis
      using u by (auto simp: s sl inorder_plug intro: del_step_trans)
  qed
qed


lemma bind_commute_black:
  fixes f :: "bool \<Rightarrow> bool \<Rightarrow> 'a option"
  shows "x \<bind> (\<lambda>a. y \<bind> (\<lambda>b. f a b)) = y \<bind> (\<lambda>b. x \<bind> (\<lambda>a. f a b))"
  by (cases x; cases y) auto

abbreviation emirror ::
  "(addr \<times> addr \<times> rb_heap \<times> addr) + (addr \<times> rb_heap \<times> addr)
     \<Rightarrow> (addr \<times> addr \<times> rb_heap \<times> addr) + (addr \<times> rb_heap \<times> addr)" where
  "emirror \<equiv> map_sum (map_prod id (map_prod id (map_prod mirror id))) (map_prod id (map_prod mirror id))"

lemma mirror_erase_color:
  "rb_erase_color_right p (swap_node pd) (mirror h) root = map_option emirror (rb_erase_color_left p pd h root)"
  unfolding rb_erase_color_right_def rb_erase_color_left_def Let_def
  apply (rule bind_mirror, simp, rule mirror_rules)
  apply (rule bind_mirror [where f = "map_prod mirror id"])
   apply (simp split del: if_split cong: if_cong)
   apply (rule if_mirror)
    apply (rule bind_mirror, rule mirror_rules)
    apply (rule bind_mirror, rule mirror_rules)
    apply (rule bind_mirror, rule mirror_rotate_right mirror_rotate_left)
    apply (simp add: case_prod_beta map_prod_def)
    apply (rule bind_mirror, rule mirror_rules)
    apply simp
   apply simp
  apply (simp add: case_prod_beta split del: if_split cong: if_cong)

  apply (rule bind_mirror, rule mirror_rules)
  apply (simp split del: if_split cong: if_cong)
  apply (subst bind_commute_black, rule bind_mirror, rule mirror_rules)
  apply (rule bind_mirror, rule mirror_rules)
  apply (simp add: conj_commute split del: if_split cong: if_cong)
  apply (rule if_mirror)
   apply (rule bind_mirror, rule mirror_rules)
   apply (rule bind_mirror, rule mirror_rules)
   apply simp
  apply (rule bind_mirror [where f = "map_prod mirror id"])
   apply (rule if_mirror)
    apply (rule bind_mirror, rule mirror_rules)
    apply (rule bind_mirror, rule mirror_rules)
    apply (rule bind_mirror, rule mirror_rotate_right mirror_rotate_left)
    apply (simp add: case_prod_beta map_prod_def)
    apply (rule bind_mirror, rule mirror_rules)
    apply simp
   apply simp
   apply (simp add: map_prod_def case_prod_beta)
  apply (simp add: case_prod_beta split del: if_split cong: if_cong)
  apply (rule bind_mirror, rule mirror_rules)
  apply simp
  apply (rule bind_mirror, rule mirror_rules)
  apply (rule bind_mirror, rule mirror_rules)
  apply (rule bind_mirror, rule mirror_rules)
  apply simp
  apply (rule bind_mirror, rule mirror_rules)
  apply (rule bind_mirror, rule mirror_rotate_right mirror_rotate_left)
  apply (simp add: case_prod_beta map_prod_def)
  done

lemma del_step_mirror:
  assumes "del_step (mirror h) (rev xs) n res"
  shows "del_step h xs n (map_option emirror res)"
  using assms [unfolded del_step_def]
proof (elim disjE exE conjE)
  fix h' root' k' t'
  assume r: "res = Some (Inl (rtop t', kpar k', h', root'))" "zrep h' root' k' t'" "del_inv k' t'"
    "inorder (plug k' t') = rev xs" "del_rank k' t' < n" "unchanged (set (rev xs)) (mirror h) h'"
  have z: "zrep (mirror h') root' (kmirror k') (tmirror t')" using r(2) by simp
  have "del_inv (kmirror k') (tmirror t')" using r(3) by (cases t') (auto simp: del_inv_def)
  moreover have "unchanged (set xs) h (mirror h')"
    using r(6) unchanged_mirror [of _ h "mirror h'"] by simp
  ultimately show ?thesis unfolding r(1)
    by (intro del_stepL [OF _ z]) (use r(4,5) in \<open>auto simp: del_rank_def\<close>)
next
  fix h' root' t'
  assume r: "res = Some (Inr (root', h', root'))" "tree_at h' root' t'" "rbinv t'"
    "inorder t' = rev xs" "unchanged (set (rev xs)) (mirror h) h'"
  have z: "zrep (mirror h') root' [] (tmirror t')" using r(2) zrep_mirror [of h' root' "[]" t'] by simp
  have "unchanged (set xs) h (mirror h')"
    using r(5) unchanged_mirror [of _ h "mirror h'"] by simp
  then show ?thesis unfolding r(1)
    by (intro del_stepR [OF _ z]) (use r(3,4) in \<open>auto simp: rbinv_def\<close>)
qed

lemma rb_erase_color_right_step:
  assumes z: "zrep h root ((False, c, p, s) # k) t" and inv: "del_inv ((False, c, p, s) # k) t"
    and b: "isblack t" and pd: "h p = Some pd"
  shows "del_step h (inorder (plug ((False, c, p, s) # k) t)) (del_rank ((False, c, p, s) # k) t)
     (rb_erase_color_right p pd h root)"
proof -
  let ?k = "(False, c, p, s) # k"
  have "zrep (mirror h) root (kmirror ?k) (tmirror t)" using z by (simp only: zrep_mirror)
  moreover have "del_inv (kmirror ?k) (tmirror t)" using inv b by (auto simp: del_inv_def)
  moreover have "mirror h p = Some (swap_node pd)" using pd by (simp add: mirror_apply)
  ultimately have "del_step (mirror h) (inorder (plug (kmirror ?k) (tmirror t))) (del_rank (kmirror ?k) (tmirror t))
     (rb_erase_color_left p (swap_node pd) (mirror h) root)"
    using rb_erase_color_left_step [of "mirror h" root c p "tmirror s" "kmirror k" "tmirror t"] b by simp
  then have "del_step h (inorder (plug ?k t)) (del_rank ?k t)
     (map_option emirror (rb_erase_color_left p (swap_node pd) (mirror h) root))"
    by (intro del_step_mirror) (simp add: inorder_plug_mirror del_rank_def del: kmirror_simps)
  then show ?thesis using mirror_erase_color [of p "swap_node pd" "mirror h" root] by simp
qed


section \<open>The rebalancing loop\<close>

lemma rtop_plug: "k \<noteq> [] \<Longrightarrow> rtop (plug k t) \<in> set (before k) \<union> set (after k)"
proof (induction k t rule: plug.induct)
  case (2 c a s k t)
  then show ?case by (cases k) auto
next
  case (3 c a s k t)
  then show ?case by (cases k) auto
qed simp

lemma rtop_cases: "rtop t = NULL \<or> rtop t \<in> set (inorder t)"
  by (cases t) auto

lemma focus_not_root:
  assumes z: "zrep h root k t" and "k \<noteq> []"
  shows "rtop t \<noteq> root"
proof -
  have r: "root = rtop (plug k t)" "NULL \<notin> set (inorder (plug k t))"
    using z zrep_plug [of h root k t] by (auto simp: zrep_def dest: rep_not_NULL)
  then have "root \<in> set (before k) \<union> set (after k)" using rtop_plug [OF \<open>k \<noteq> []\<close>] by simp
  moreover have "distinct (before k @ inorder t @ after k)" using z by (simp add: zrep_def)
  ultimately show ?thesis using rtop_cases [of t] r(2) by (auto simp: inorder_plug)
qed

lemma focus_is_left:
  assumes z: "zrep h root ((d, c, p, s) # k) t" and s: "s \<noteq> Lf"
  shows "\<exists>pd. h p = Some pd \<and> (d \<longleftrightarrow> rb_left pd = rtop t)"
proof (cases d)
  case True
  then show ?thesis using z zrep_rep [of h root k "Nd c t p s"] by (auto dest: rep_top)
next
  case False
  have z1: "zrep h root k (Nd c s p t)" using z False by simp
  from zrep_rep [OF z1] obtain pd where pd: "h p = Some pd" "rep h p (rb_left pd) s" by auto
  then have "rb_left pd \<in> set (inorder s)" "rb_left pd \<noteq> NULL" using s by (cases s; auto)+
  with rtop_cases [of t] zrep_distinct [OF z1] have "rb_left pd \<noteq> rtop t" by auto
  with pd False show ?thesis by blast
qed

lemma rb_erase_color_loop_zrep:
  assumes "zrep h root k t" "del_inv k t"
  shows "\<exists>h' root' k' t'. rb_erase_color_loop (rtop t) (kpar k) h root = Some (rtop t', h', root') \<and>
    zrep h' root' k' t' \<and> rbinv (plug k' (blacken t')) \<and> inorder (plug k' t') = inorder (plug k t) \<and>
    unchanged (set (inorder (plug k t))) h h'"
  using assms
proof (induction "del_rank k t" arbitrary: h root k t rule: less_induct)
  case less
  note z = less.prems(1) and inv = less.prems(2)
  from rep_ptr_colour(2) [OF zrep_rep [OF z]] have b: "ptr_is_black (rtop t) h = Some (isblack t)" .
  show ?case
  proof (cases "isblack t \<and> k \<noteq> []")
    case False
    have root: "k = [] \<Longrightarrow> rtop t = root" using z by (auto simp: zrep_def)
    have "rbinv (plug k (blacken t))"
      by (rule rbinv_plug) (use inv False in \<open>cases t; auto simp: del_inv_def\<close>)+
    moreover have "rb_erase_color_loop (rtop t) (kpar k) h root = Some (rtop t, h, root)"
      using b False root by (subst rb_erase_color_loop.simps) auto
    ultimately show ?thesis using z by (intro exI [of _ h] exI [of _ root] exI [of _ k] exI [of _ t]) simp
  next
    case True
    then obtain d c p s k' where k: "k = (d, c, p, s) # k'" by (cases k) auto
    have ne: "rtop t \<noteq> root" using focus_not_root [OF z] True by simp
    have s: "s \<noteq> Lf" using inv by (auto simp: del_inv_def k)
    obtain pd where pd: "h p = Some pd" "d \<longleftrightarrow> rb_left pd = rtop t"
      using focus_is_left [OF z [unfolded k] s] by blast
    let ?step = "if rb_left pd = rtop t then rb_erase_color_left p pd h root else rb_erase_color_right p pd h root"
    have "rb_erase_color_loop (rtop t) (kpar k) h root =
      ?step \<bind> (\<lambda>res. case res of Inl (node, parent, h, root) \<Rightarrow> rb_erase_color_loop node parent h root
       | Inr final \<Rightarrow> Some final)"
      using b True ne pd(1) by (subst rb_erase_color_loop.simps) (simp add: k split del: if_split cong: if_cong)
    moreover have "del_step h (inorder (plug k t)) (del_rank k t) ?step"
      using rb_erase_color_left_step [of h root c p s k' t pd] rb_erase_color_right_step [of h root c p s k' t pd]
        less.prems True pd(1) unfolding k pd(2) [symmetric] by (cases d) simp_all
    ultimately show ?thesis
      unfolding del_step_def
    proof (elim disjE exE conjE)
      fix h1 root1 k1 t1
      assume l: "rb_erase_color_loop (rtop t) (kpar k) h root =
        ?step \<bind> (\<lambda>res. case res of Inl (node, parent, h, root) \<Rightarrow> rb_erase_color_loop node parent h root
         | Inr final \<Rightarrow> Some final)"
      assume s1: "?step = Some (Inl (rtop t1, kpar k1, h1, root1))" "zrep h1 root1 k1 t1" "del_inv k1 t1"
        "inorder (plug k1 t1) = inorder (plug k t)" "del_rank k1 t1 < del_rank k t"
        "unchanged (set (inorder (plug k t))) h h1"
      from less.hyps [OF s1(5,2,3)] obtain h2 root2 k2 t2 where s2:
        "rb_erase_color_loop (rtop t1) (kpar k1) h1 root1 = Some (rtop t2, h2, root2)" "zrep h2 root2 k2 t2"
        "rbinv (plug k2 (blacken t2))" "inorder (plug k2 t2) = inorder (plug k t)"
        "unchanged (set (inorder (plug k t))) h1 h2" unfolding s1(4) by blast
      show ?thesis
        unfolding l s1(1) using s2 unchanged_trans [OF s1(6) s2(5)]
        by (intro exI [of _ h2] exI [of _ root2] exI [of _ k2] exI [of _ t2]) simp
    next
      fix h1 root1 t1
      assume l: "rb_erase_color_loop (rtop t) (kpar k) h root =
        ?step \<bind> (\<lambda>res. case res of Inl (node, parent, h, root) \<Rightarrow> rb_erase_color_loop node parent h root
         | Inr final \<Rightarrow> Some final)"
      assume s1: "?step = Some (Inr (root1, h1, root1))" "tree_at h1 root1 t1" "rbinv t1"
        "inorder t1 = inorder (plug k t)" "unchanged (set (inorder (plug k t))) h h1"
      have "rtop t1 = root1" using s1(2) by (auto simp: zrep_def)
      then show ?thesis
        unfolding l s1(1) using s1(2-5)
        by (intro exI [of _ h1] exI [of _ root1] exI [of _ "[]"] exI [of _ t1]) (simp add: rbinv_def)
    qed
  qed
qed

lemma blacken_zrep:
  assumes z: "zrep h root k t"
  shows "\<exists>h'. (if rtop t \<noteq> NULL then write_at (rtop t) rb_set_black h else Some h) = Some h' \<and>
    zrep h' root k (blacken t) \<and> unchanged (whole k t) h h'"
proof (cases t)
  case (Nd c l a r)
  from zrep_rep [OF z] obtain n where n: "h a = Some n" "a \<noteq> NULL" by (auto simp: Nd)
  let ?h = "h(a \<mapsto> rb_set_black n)"
  have u: "unchanged (set (inorder t)) h ?h" by (auto simp: unchanged_def Nd)
  have "zrep ?h root k (blacken t)"
    by (rule zrep_local [OF z u]) (use zrep_rep [OF z] zrep_distinct [OF z] n in \<open>auto simp: Nd\<close>)
  with n unchanged_whole [OF u] show ?thesis by (auto simp: write_at_Some Nd)
qed (use z in simp)

lemma inorder_blacken [simp]: "inorder (blacken t) = inorder t"
  by (cases t) auto

lemma rb_erase_color_zrep:
  assumes "zrep h root k t" "del_inv k t"
  shows "\<exists>h' root' t'. rb_erase_color (rtop t) (kpar k) h root = Some (h', root') \<and> tree_at h' root' t' \<and>
    rbinv t' \<and> inorder t' = inorder (plug k t) \<and> unchanged (set (inorder (plug k t))) h h'"
proof -
  from rb_erase_color_loop_zrep [OF assms] obtain h1 root1 k1 t1 where
    s1: "rb_erase_color_loop (rtop t) (kpar k) h root = Some (rtop t1, h1, root1)"
    "zrep h1 root1 k1 t1" "rbinv (plug k1 (blacken t1))" "inorder (plug k1 t1) = inorder (plug k t)"
    "unchanged (set (inorder (plug k t))) h h1" by blast
  from blacken_zrep [OF s1(2)] obtain h2 where
    h2: "(if rtop t1 \<noteq> NULL then write_at (rtop t1) rb_set_black h1 else Some h1) = Some h2"
    "zrep h2 root1 k1 (blacken t1)" "unchanged (set (inorder (plug k t))) h1 h2"
    unfolding whole_plug s1(4) by blast
  have "rb_erase_color (rtop t) (kpar k) h root = Some (h2, root1)"
    using s1(1) h2(1) by (simp add: rb_erase_color_def)
  moreover have "inorder (plug k1 (blacken t1)) = inorder (plug k t)" using s1(4) by (simp add: inorder_plug)
  moreover have "tree_at h2 root1 (plug k1 (blacken t1))" using h2(2) zrep_plug by blast
  ultimately show ?thesis using s1(3) unchanged_trans [OF s1(5) h2(3)] by blast
qed

section \<open>Unlinking a node\<close>

lemma rb_erase_one_zrep:
  assumes z: "zrep h root k (Nd c l a r)" and t: "l = Lf \<and> t = r \<or> r = Lf \<and> t = l"
  shows "\<exists>h' root' color. rb_erase_one a (rtop t) h root = Some (color, rtop t, kpar k, h', root') \<and>
    (color = RB_BLACK \<longleftrightarrow> c) \<and> zrep h' root' k t \<and> h' a = h a \<and>
    unchanged (whole k t) h h'"
proof -
  let ?C = "set (before k) \<union> set (after k)"
  from zrep_rep [OF z] obtain na where
    n: "h a = Some na" "rb_parent na = kpar k" "rb_is_black na = c" "a \<noteq> NULL" "rep h a (rtop t) t"
    using t by (auto dest: rep_top)
  have D: "distinct (before k @ inorder (Nd c l a r) @ after k)" and S: "seg h a (kpar k) k root NULL"
    using z by (auto simp: zrep_def)
  have d: "distinct (before k @ after k)" "distinct (inorder t)" "set (inorder t) \<inter> ?C = {}" "a \<notin> ?C"
    "a \<notin> set (inorder t)" "distinct (before k @ inorder t @ after k)"
    using D t by auto
  have al: "aligned4 (kpar k)" using aligned4_rb_parent [of na] n(2) by simp
  from set_parent_rep [OF n(5) d(2) al] obtain h1 where
    h1: "(if rtop t \<noteq> NULL then write_at (rtop t) (rb_set_parent (kpar k)) h else Some h) = Some h1"
     "rep h1 (kpar k) (rtop t) t" "unchanged (set (inorder t)) h h1" by blast
  have "seg h1 a (kpar k) k root NULL" using seg_unchanged [OF h1(3) d(3)] S by simp
  from rb_change_child_seg [OF this n(4) _ _ d(1), of "rtop t"] d(4) obtain h2 root2 where
    h2: "rb_change_child a (rtop t) (kpar k) h1 root = Some (h2, root2)"
     "seg h2 (rtop t) (kpar k) k root2 NULL" "unchanged ?C h1 h2" by auto
  have "rep h2 (kpar k) (rtop t) t" using h1(2) rep_unchanged [OF h2(3)] d(3) by blast
  then have "zrep h2 root2 k t" using h2(2) d(6) by (simp add: zrep_def)
  moreover have "rb_erase_one a (rtop t) h root = Some (rb_color na, rtop t, kpar k, h2, root2)"
    using n(1,2) h1(1) h2(1) by (simp add: rb_erase_one_def)
  moreover have "unchanged (whole k t) h h2" "h2 a = h a"
    using h1(3) h2(3) d(4,5) by (auto simp: unchanged_def)
  ultimately show ?thesis using n(3) rb_color_black by blast
qed

lemma rep_plug:
  "rep h q p (plug k t) \<longleftrightarrow> (\<exists>p' q'. seg h p' q' k p q \<and> rep h q' p' t)"
  by (induction k t rule: plug.induct) auto

lemma rb_leftmost_rep:
  "rep h q p t \<Longrightarrow> t \<noteq> Lf \<Longrightarrow>
   \<exists>k c s sr. t = plug k (Nd c Lf s sr) \<and> before k = [] \<and> (\<forall>f \<in> set k. fst f) \<and> rb_leftmost p h = Some s"
proof (induction t arbitrary: q p)
  case (Nd c l a r)
  then obtain n where n: "h a = Some n" "rep h a (rb_left n) l" "p = a" "a \<noteq> NULL" by auto
  show ?case
  proof (cases "l = Lf")
    case True
    with n show ?thesis
      by (intro exI [of _ "[]"] exI [of _ c] exI [of _ a] exI [of _ r]) (simp add: rb_leftmost.simps [of a])
  next
    case False
    with Nd.IH(1) [OF n(2)] obtain k c' s sr where
      s: "l = plug k (Nd c' Lf s sr)" "before k = []" "\<forall>f \<in> set k. fst f" "rb_leftmost (rb_left n) h = Some s" by blast
    have "rb_left n \<noteq> NULL" using n(2) False by (cases l) auto
    with n s show ?thesis
      by (intro exI [of _ "k @ [(True, c, a, r)]"] exI [of _ c'] exI [of _ s] exI [of _ sr])
        (simp add: rb_leftmost.simps [of a] plug_append before_append)
  qed
qed simp


text \<open>Taking the leftmost node out of a subtree in which it is not the top.\<close>

lemma unlink_min:
  assumes r: "rep h q p (plug ((True, cp, pp, ss) # k) (Nd c Lf s sr))"
    and d: "distinct (inorder (plug ((True, cp, pp, ss) # k) (Nd c Lf s sr)))"
  shows "\<exists>h1 h2. (if rtop sr \<noteq> NULL then write_at (rtop sr) (rb_set_parent pp) h else Some h) = Some h1 \<and>
    write_at pp (set_left (rtop sr)) h1 = Some h2 \<and>
    rep h2 q p (plug ((True, cp, pp, ss) # k) sr) \<and>
    unchanged (set (inorder (plug ((True, cp, pp, ss) # k) sr))) h h2"
proof -
  from r [unfolded rep_plug [of _ _ _ "(True, cp, pp, ss) # k"]] obtain n ns where
    n: "h pp = Some n" "pp \<noteq> NULL" "aligned4 pp" "rb_is_black n = cp" "rep h pp (rb_right n) ss"
      "seg h pp (rb_parent n) k p q"
    and ns: "h s = Some ns" "rep h s (rtop sr) sr"
    by (auto dest: rep_top)
  have d': "distinct (before k @ s # inorder sr @ pp # inorder ss @ after k)" using d by (simp add: inorder_plug)
  then have d1: "distinct (inorder sr)" "set (inorder sr) \<inter> set (inorder ss) = {}" "pp \<notin> set (inorder sr)"
    "set (inorder sr) \<inter> (set (before k) \<union> set (after k)) = {}" "pp \<notin> set (before k) \<union> set (after k) \<union> set (inorder ss)"
    by auto
  from set_parent_rep [OF ns(2) d1(1) n(3)] obtain h1 where
    h1: "(if rtop sr \<noteq> NULL then write_at (rtop sr) (rb_set_parent pp) h else Some h) = Some h1"
     "rep h1 pp (rtop sr) sr" "unchanged (set (inorder sr)) h h1" by blast
  have pp: "h1 pp = Some n" using h1(3) n(1) d1(3) by (simp add: unchanged_def)
  let ?h2 = "h1(pp \<mapsto> set_left (rtop sr) n)"
  have "rep h1 pp (rb_right n) ss" using rep_unchanged [OF h1(3) d1(2)] n(5) by blast
  moreover have "seg h1 pp (rb_parent n) k p q" using seg_unchanged [OF h1(3) d1(4)] n(6) by blast
  ultimately have "seg ?h2 (rtop sr) pp ((True, cp, pp, ss) # k) p q" "rep ?h2 pp (rtop sr) sr"
    using n d1 h1(2) by simp_all
  then have "rep ?h2 q p (plug ((True, cp, pp, ss) # k) sr)" by (subst rep_plug) blast
  moreover have "write_at pp (set_left (rtop sr)) h1 = Some ?h2" using pp by (simp add: write_at_Some)
  moreover have "unchanged (set (inorder (plug ((True, cp, pp, ss) # k) sr))) h ?h2"
    using h1(3) by (auto simp: unchanged_def inorder_plug)
  ultimately show ?thesis using h1(1) by blast
qed

lemma rtop_plug_cong: "k \<noteq> [] \<Longrightarrow> rtop (plug k t) = rtop (plug k t')"
proof (induction k t arbitrary: t' rule: plug.induct)
  case (2 c a s k t)
  then show ?case by (cases k) auto
next
  case (3 c a s k t)
  then show ?case by (cases k) auto
qed simp

lemma erase_two_middle:
  assumes r: "rep h a p (plug k2 (Nd c' Lf s sr))" and k2: "\<forall>f \<in> set k2. fst f"
    and d: "distinct (a # inorder (plug k2 (Nd c' Lf s sr)))"
    and a: "h a = Some na" "rb_right na = p" and s: "h s = Some sd" "aligned4 s"
  shows "\<exists>h' ms. (if rb_parent sd = a then Some (h, s)
        else do {
          h \<leftarrow> (if rb_right sd \<noteq> NULL then write_at (rb_right sd) (rb_set_parent (rb_parent sd)) h else Some h);
          h \<leftarrow> write_at (rb_parent sd) (set_left (rb_right sd)) h;
          od \<leftarrow> h a;
          h \<leftarrow> write_at s (set_right (rb_right od)) h;
          h \<leftarrow> write_at (rb_right od) (rb_set_parent s) h;
          Some (h, rb_parent sd) }) = Some (h', kpar (k2 @ (False, c, s, l) # k)) \<and>
     h' s = Some ms \<and> rep h' s (rb_right ms) (plug k2 sr) \<and>
     unchanged (insert s (set (inorder (plug k2 sr)))) h h'"
proof (cases k2)
  case Nil
  with r s show ?thesis by (intro exI [of _ h] exI [of _ sd]) auto
next
  case (Cons f k3)
  obtain cp pp ss where f: "f = (True, cp, pp, ss)" using k2 by (cases f) (auto simp: Cons)
  let ?T = "plug k2 sr"
  have sd: "rb_parent sd = pp" "rb_right sd = rtop sr" "pp \<noteq> a" "s \<notin> set (inorder ?T)" "a \<notin> set (inorder ?T)" "s \<noteq> a"
      "distinct (inorder ?T)"
    using r [unfolded Cons f plug.simps] s d by (auto simp: rep_plug Cons f inorder_plug dest: rep_top)
  have p: "p = rtop ?T" "p \<noteq> NULL"
    using rep_top [OF r] rtop_plug_cong [of k2 sr "Nd c' Lf s sr"] rep_not_NULL [OF r] rtop_plug [of k2 "Nd c' Lf s sr"]
    by (auto simp: Cons inorder_plug)
  from unlink_min [of h a p cp pp ss k3 c' s sr] r d obtain h1 h2 where
    h2: "(if rtop sr \<noteq> NULL then write_at (rtop sr) (rb_set_parent pp) h else Some h) = Some h1"
    "write_at pp (set_left (rtop sr)) h1 = Some h2" "rep h2 a p ?T" "unchanged (set (inorder ?T)) h h2"
    by (auto simp: Cons f)
  have v: "h2 a = Some na" "h2 s = Some sd" using h2(4) a s sd by (auto simp: unchanged_def)
  let ?h3 = "h2(s \<mapsto> set_right p sd)"
  have "rep ?h3 a p ?T" using h2(3) sd(4) by simp
  from set_parent_rep [OF this sd(7) s(2)] p(2) obtain h4 where
    h4: "write_at p (rb_set_parent s) ?h3 = Some h4" "rep h4 s p ?T" "unchanged (set (inorder ?T)) ?h3 h4" by auto
  have "h4 s = Some (set_right p sd)" using h4(3) sd(4) by (simp add: unchanged_def)
  moreover have "unchanged (insert s (set (inorder ?T))) h h4"
    using h2(4) h4(3) by (auto simp: unchanged_def)
  ultimately show ?thesis
    using sd h2(1,2) h4(1,2) v a s 
    by (intro exI [of _ h4] exI [of _ "set_right p sd"]) (simp add: write_at_Some Cons f split del: if_split cong: if_cong)
qed


lemma rb_erase_two_zrep:
  assumes z: "zrep h root k (Nd c l a r)" and l: "l \<noteq> Lf" and r: "r \<noteq> Lf"
  shows "\<exists>k2 c' s sr color h' root'. r = plug k2 (Nd c' Lf s sr) \<and> before k2 = [] \<and>
    rb_erase_two a h root = Some (color, rtop sr, kpar (k2 @ (False, c, s, l) # k), h', root') \<and>
    (color = RB_BLACK \<longleftrightarrow> c') \<and> zrep h' root' k (Nd c l s (plug k2 sr)) \<and> h' a = h a \<and>
    unchanged (whole k (Nd c l s (plug k2 sr))) h h'"
proof -
  let ?C = "set (before k) \<union> set (after k)"
  from zrep_rep [OF z] obtain na where
    n: "h a = Some na" "rb_parent na = kpar k" "rb_is_black na = c" "a \<noteq> NULL" "rep h a (rb_left na) l"
      "rep h a (rb_right na) r" "rb_left na \<noteq> NULL"
    using l by (cases l) auto
  from rb_leftmost_rep [OF n(6) r] obtain k2 c' s sr where
    s: "r = plug k2 (Nd c' Lf s sr)" "before k2 = []" "\<forall>f \<in> set k2. fst f"
      "rb_leftmost (rb_right na) h = Some s" by blast
  from n(6) obtain ns where ns: "h s = Some ns" "aligned4 s" "s \<noteq> NULL" "rb_is_black ns = c'" "rb_right ns = rtop sr"
    unfolding s(1) by (subst (asm) rep_plug) (auto dest: rep_top)
  let ?T = "plug k2 sr"
  have D: "distinct (before k @ inorder l @ a # s # inorder ?T @ after k)" and S: "seg h a (kpar k) k root NULL"
    using z by (simp_all add: zrep_def s(1) s(2) inorder_plug)
  have d: "distinct (before k @ after k)" "a \<notin> ?C" "s \<notin> ?C" "s \<noteq> a"
    "set (inorder l) \<inter> ?C = {}" "set (inorder r) \<inter> ?C = {}" "distinct (a # inorder r)"
    "insert s (set (inorder ?T)) \<inter> set (inorder l) = {}" "distinct (inorder l)"
    "insert s (set (inorder ?T)) \<inter> ?C = {}" "a \<notin> set (inorder ?T)" "a \<notin> set (inorder l)"
    "s \<notin> set (inorder ?T)" "set (inorder l) \<inter> set (inorder ?T) = {}"
    using D by (auto simp: s(1,2) inorder_plug)
  from rb_change_child_seg [OF S n(4) _ _ d(1), of s] d(2) obtain h1 root' where
    h1: "rb_change_child a s (kpar k) h root = Some (h1, root')"
      "seg h1 s (kpar k) k root' NULL" "unchanged ?C h h1" by auto
  have v1: "h1 a = Some na" "h1 s = Some ns" using h1(3) n(1) ns(1) d(2,3) by (auto simp: unchanged_def)
  have r1: "rep h1 a (rb_left na) l" "rep h1 a (rb_right na) r"
    using rep_unchanged [OF h1(3)] n(5,6) d(5,6) by (auto simp: Int_commute)
  from erase_two_middle [OF r1(2) [unfolded s(1)] s(3) d(7) [unfolded s(1)] v1(1) _ v1(2) ns(2), of c l k]
  obtain h2 ms where
    h2: "(if rb_parent ns = a then Some (h1, s)
        else do {
          h \<leftarrow> (if rb_right ns \<noteq> NULL then write_at (rb_right ns) (rb_set_parent (rb_parent ns)) h1 else Some h1);
          h \<leftarrow> write_at (rb_parent ns) (set_left (rb_right ns)) h;
          od \<leftarrow> h a;
          h \<leftarrow> write_at s (set_right (rb_right od)) h;
          h \<leftarrow> write_at (rb_right od) (rb_set_parent s) h;
          Some (h, rb_parent ns) }) = Some (h2, kpar (k2 @ (False, c, s, l) # k))"
     "h2 s = Some ms" "rep h2 s (rb_right ms) ?T" "unchanged (insert s (set (inorder ?T))) h1 h2" by blast
  have v2: "h2 a = Some na" using h2(4) v1(1) d(4,11) by (auto simp: unchanged_def)
  let ?m = "set_left (rb_left na) (ms\<lparr>rb_parent_color := rb_parent_color na\<rparr>)"
  let ?h3 = "h2(s \<mapsto> ?m)"
  have "rep ?h3 a (rb_left na) l" using r1(1) d(8) by (simp add: rep_unchanged [OF h2(4)])
  from set_parent_rep [OF this d(9) ns(2)] n(7) obtain h4 where
    h4: "write_at (rb_left na) (rb_set_parent s) ?h3 = Some h4" "rep h4 s (rb_left na) l"
      "unchanged (set (inorder l)) ?h3 h4" by auto
  have m: "h4 s = Some ?m" "rb_parent ?m = kpar k" "rb_is_black ?m = c" "rb_left ?m = rb_left na" "rb_right ?m = rb_right ms"
    using h4(3) d(8) n(2,3) by (auto simp: unchanged_def packed_defs)
  have "rep ?h3 s (rb_right ms) ?T" using h2(3) d(13) by simp
  then have "rep h4 s (rb_right ms) ?T" using rep_unchanged [OF h4(3) d(14)] by blast
  then have "rep h4 (kpar k) s (Nd c l s ?T)" using m h4(2) ns by simp
  moreover have "seg ?h3 s (kpar k) k root' NULL"
    using h1(2) d(3,10) by (simp add: seg_unchanged [OF h2(4)])
  then have "seg h4 s (kpar k) k root' NULL" using seg_unchanged [OF h4(3) d(5)] by blast
  moreover have "distinct (before k @ inorder (Nd c l s ?T) @ after k)" using D by auto
  ultimately have "zrep h4 root' k (Nd c l s ?T)" by (simp add: zrep_def)
  moreover have "rb_erase_two a h root = Some (rb_color ns, rb_right ns, kpar (k2 @ (False, c, s, l) # k), h4, root')"
    using n(1,2) s(4) h1(1) v1(2) h2(1,2) v2 h4(1)
    by (simp add: rb_erase_two_def write_at_Some split del: if_split)
  moreover have "h4 a = h a" "unchanged (whole k (Nd c l s ?T)) h h4"
    using h1(3) h2(4) h4(3) d(2,4,11,12) by (auto simp: unchanged_def)
  ultimately show ?thesis using s(1,2) rb_color_black [of ns] ns(4) unfolding ns(5) by blast
qed


lemma hole_black_addr: "hole_black (k2 @ (d, c, a, l) # k) = hole_black (k2 @ (d, c, s, l) # k)"
  by (cases k2 rule: hole_black.cases) auto

lemma kinvc_addr: "kinvc (k2 @ (d, c, a, l) # k) = kinvc (k2 @ (d, c, s, l) # k)"
  using hole_black_addr [of _ d c a l k s] by (induction k2 rule: kinvc.induct) auto

lemma kinvh_addr: "kinvh (k2 @ (d, c, a, l) # k) n = kinvh (k2 @ (d, c, s, l) # k) n"
  by (induction k2 n rule: kinvh.induct) auto

text \<open>After the unlinking: a red node leaves a red-black tree, a black one a short subtree.\<close>

lemma rb_erase_rebalance:
  assumes z: "zrep h1 root1 k t" and c: "color = RB_BLACK \<longleftrightarrow> c"
    and k: "kinvc k" "kinvh k (bh t + (if c then 1 else 0))" "c \<or> hole_black k"
    and t: "invc t" "invh t" "c \<or> isblack t"
  shows "\<exists>h' root' t'. (if color = RB_BLACK then rb_erase_color (rtop t) (kpar k) h1 root1 else Some (h1, root1)) = Some (h', root') \<and>
    tree_at h' root' t' \<and> rbinv t' \<and> inorder t' = inorder (plug k t) \<and> unchanged (set (inorder (plug k t))) h1 h'"
proof (cases c)
  case True
  have "invc (blacken t)" using t by (cases t) auto
  then have "del_inv k t" using True k t by (simp add: del_inv_def)
  from rb_erase_color_zrep [OF z this] show ?thesis using True c by simp
next
  case False
  then have "rbinv (plug k t)" using k t by (intro rbinv_plug) auto
  with False c z zrep_plug [of h1 root1 k t] show ?thesis by auto
qed

lemma rb_erase_unlink:
  assumes z: "tree_at h root t" and inv: "rbinv t" and a: "a \<in> set (inorder t)"
  shows "\<exists>k' c' t' color h1 root1. rb_erase a h root =
      (if color = RB_BLACK then rb_erase_color (rtop t') (kpar k') h1 root1 else Some (h1, root1)) \<and>
     zrep h1 root1 k' t' \<and> (color = RB_BLACK \<longleftrightarrow> c') \<and> kinvc k' \<and> kinvh k' (bh t' + (if c' then 1 else 0)) \<and>
     (c' \<or> hole_black k') \<and> invc t' \<and> invh t' \<and> (c' \<or> isblack t') \<and> h1 a = h a \<and>
     inorder (plug k' t') = remove1 a (inorder t) \<and> unchanged (set (inorder t)) h h1"
proof -
  from split_tree [OF a] obtain k c l r where t: "t = plug k (Nd c l a r)" by blast
  have z1: "zrep h root k (Nd c l a r)" using z t zrep_plug by blast
  then have d: "distinct (before k @ inorder l @ a # inorder r @ after k)" by (simp add: zrep_def)
  have i: "kinvc k" "invc (Nd c l a r)" "c \<or> hole_black k" "kinvh k (bh (Nd c l a r))" "invh (Nd c l a r)"
    using inv invc_plugD [of k "Nd c l a r"] by (auto simp: rbinv_def t invh_plug)
  from zrep_rep [OF z1] obtain na where
    n: "h a = Some na" "rb_left na = rtop l" "rb_right na = rtop r" "rtop l = NULL \<longleftrightarrow> l = Lf" "rtop r = NULL \<longleftrightarrow> r = Lf"
    by (cases l; cases r) auto
  show ?thesis
  proof (cases "l = Lf \<or> r = Lf")
    case True
    define t' where "t' = (if l = Lf then r else l)"
    have t': "l = Lf \<and> t' = r \<or> r = Lf \<and> t' = l" using True by (auto simp: t'_def)
    from rb_erase_one_zrep [OF z1 t'] obtain h1 root1 color where
      e: "rb_erase_one a (rtop t') h root = Some (color, rtop t', kpar k, h1, root1)"
       "color = RB_BLACK \<longleftrightarrow> c" "zrep h1 root1 k t'" "h1 a = h a" "unchanged (whole k t') h h1" by blast
    have "rb_erase a h root =
      (if color = RB_BLACK then rb_erase_color (rtop t') (kpar k) h1 root1 else Some (h1, root1))"
      using n e(1) True by (auto simp: rb_erase_def t'_def)
    moreover have "inorder (plug k t') = remove1 a (inorder t)"
      using d t' by (auto simp: t inorder_plug remove1_append)
    moreover have "unchanged (set (inorder t)) h h1"
      by (rule unchanged_mono [OF e(5)]) (use t' in \<open>auto simp: t inorder_plug\<close>)
    moreover have "kinvh k (bh t' + (if c then 1 else 0))" "invc t'" "invh t'" "c \<or> isblack t'"
      using i t' by auto
    ultimately show ?thesis using e(2-4) i(1,3) by blast
  next
    case False
    from rb_erase_two_zrep [OF z1] False obtain k2 c' s sr color h1 root1 where
      e: "r = plug k2 (Nd c' Lf s sr)" "before k2 = []"
       "rb_erase_two a h root = Some (color, rtop sr, kpar (k2 @ (False, c, s, l) # k), h1, root1)"
       "color = RB_BLACK \<longleftrightarrow> c'" "zrep h1 root1 k (Nd c l s (plug k2 sr))" "h1 a = h a"
       "unchanged (whole k (Nd c l s (plug k2 sr))) h h1" by blast
    let ?k = "k2 @ (False, c, s, l) # k"
    have "rb_erase a h root =
      (if color = RB_BLACK then rb_erase_color (rtop sr) (kpar ?k) h1 root1 else Some (h1, root1))"
      using n e(3) False by (simp add: rb_erase_def)
    moreover have "zrep h1 root1 ?k sr"
      using e(5) zrep_plug [of h1 root1 ?k sr] zrep_plug [of h1 root1 k "Nd c l s (plug k2 sr)"] by (simp add: plug_append)
    moreover have "t = plug (k2 @ (False, c, a, l) # k) (Nd c' Lf s sr)" by (simp add: t e(1) plug_append)
    then have "kinvc ?k" "kinvh ?k (bh sr + (if c' then 1 else 0))" "c' \<or> hole_black ?k" "invc sr" "invh sr" "c' \<or> isblack sr"
      using inv invc_plugD [of "k2 @ (False, c, a, l) # k" "Nd c' Lf s sr"]
        kinvc_addr [of k2 False c a l k s] kinvh_addr [of k2 False c a l k _ s] hole_black_addr [of k2 False c a l k s]
      by (auto simp: rbinv_def invh_plug)
    moreover have "inorder (plug ?k sr) = remove1 a (inorder t)"
      using d by (simp add: t e(1,2) inorder_plug remove1_append before_append after_append)
    moreover have "unchanged (set (inorder t)) h h1"
      by (rule unchanged_mono [OF e(7)]) (auto simp: t e(1,2) inorder_plug)
    ultimately show ?thesis using e(4,6) by blast
  qed
qed

text \<open>
  \<open>rb_erase\<close> of a node of a red-black tree returns, gives a red-black tree of the other nodes
  in the same order, and writes to those nodes only.
\<close>

lemma rb_erase_zrep:
  assumes z: "tree_at h root t" and inv: "rbinv t" and a: "a \<in> set (inorder t)"
  shows "\<exists>h' root' t'. rb_erase a h root = Some (h', root') \<and> tree_at h' root' t' \<and> rbinv t' \<and>
    inorder t' = remove1 a (inorder t) \<and> h' a = h a \<and> unchanged (set (inorder t)) h h'"
proof -
  from rb_erase_unlink [OF z inv a] obtain k' c' t' color h1 root1 where
    u: "rb_erase a h root =
      (if color = RB_BLACK then rb_erase_color (rtop t') (kpar k') h1 root1 else Some (h1, root1))"
     "zrep h1 root1 k' t'" "color = RB_BLACK \<longleftrightarrow> c'" "kinvc k'" "kinvh k' (bh t' + (if c' then 1 else 0))"
     "c' \<or> hole_black k'" "invc t'" "invh t'" "c' \<or> isblack t'" "h1 a = h a"
     "inorder (plug k' t') = remove1 a (inorder t)" "unchanged (set (inorder t)) h h1" by blast
  from rb_erase_rebalance [OF u(2-9)] obtain h' root' t2 where
    f: "rb_erase a h root = Some (h', root')" "tree_at h' root' t2" "rbinv t2"
     "inorder t2 = remove1 a (inorder t)" "unchanged (set (remove1 a (inorder t))) h1 h'"
    unfolding u(1) [symmetric] u(11) by blast
  have "distinct (inorder t)" using zrep_distinct [OF z] .
  then have "h' a = h a" using f(5) u(10) by (simp add: unchanged_def)
  moreover have "unchanged (set (inorder t)) h h'"
    using u(12) f(5) notin_set_remove1 by (fastforce simp: unchanged_def)
  ultimately show ?thesis using f by blast
qed

end
