(* ===== verification/Rbtree_Walk.thy ===== *)
theory Rbtree_Walk
  imports Rbtree_Erase
begin

text \<open>
  The walks over the red-black trees of \<open>lib/rbtree.c\<close>: \<open>rb_first\<close>, \<open>rb_last\<close>, \<open>rb_next\<close> and
  \<open>rb_prev\<close> return and give the ends and the neighbours in the order of the tree, and
  \<open>rb_replace_node\<close> puts another node in a node's place.
\<close>

section \<open>Walks\<close>

text \<open>The first element of a list of addresses, and \<open>NULL\<close> when there is none.\<close>

definition hd_ptr :: "addr list \<Rightarrow> addr" where
  "hd_ptr xs = (case xs of [] \<Rightarrow> NULL | x # _ \<Rightarrow> x)"

lemma hd_ptr_simps [simp]: "hd_ptr [] = NULL" "hd_ptr (x # xs) = x"
  by (simp_all add: hd_ptr_def)

lemma hd_ptr_append [simp]: "xs \<noteq> [] \<Longrightarrow> hd_ptr (xs @ ys) = hd_ptr xs"
  by (cases xs) auto

lemma inorder_Nil [simp]: "inorder t = [] \<longleftrightarrow> t = Lf" "[] = inorder t \<longleftrightarrow> t = Lf"
  by (cases t; simp)+

lemma rep_NULL: "rep h q p t \<Longrightarrow> p = NULL \<longleftrightarrow> t = Lf"
  by (cases t) auto

lemma rb_leftmost_hd: "rep h q p t \<Longrightarrow> t \<noteq> Lf \<Longrightarrow> rb_leftmost p h = Some (hd_ptr (inorder t))"
proof (induction t arbitrary: q p)
  case (Nd c l a r)
  then obtain n where n: "h a = Some n" "rep h a (rb_left n) l" "p = a" by auto
  with Nd.IH(1) [OF n(2)] show ?case
    by (subst rb_leftmost.simps) (cases "l = Lf"; simp add: rep_NULL [OF n(2)])
qed simp

lemma rb_rightmost_last: "rep h q p t \<Longrightarrow> t \<noteq> Lf \<Longrightarrow> rb_rightmost p h = Some (hd_ptr (rev (inorder t)))"
proof (induction t arbitrary: q p)
  case (Nd c l a r)
  then obtain n where n: "h a = Some n" "rep h a (rb_right n) r" "p = a" by auto
  with Nd.IH(2) [OF n(2)] show ?case
    by (subst rb_rightmost.simps) (cases "r = Lf"; simp add: rep_NULL [OF n(2)])
qed simp

lemma tree_at_rep: "tree_at h root t \<Longrightarrow> rep h NULL root t"
  by (auto simp: zrep_def)

lemma rb_first_tree: "tree_at h root t \<Longrightarrow> rb_first h root = Some (hd_ptr (inorder t))"
  using rb_leftmost_hd [OF tree_at_rep] rep_NULL [OF tree_at_rep]
  by (cases "t = Lf") (auto simp: rb_first_def)

lemma rb_last_tree: "tree_at h root t \<Longrightarrow> rb_last h root = Some (hd_ptr (rev (inorder t)))"
  using rb_rightmost_last [OF tree_at_rep] rep_NULL [OF tree_at_rep]
  by (cases "t = Lf") (auto simp: rb_last_def)

lemma rb_up_right_zrep:
  "zrep h root k t \<Longrightarrow> t \<noteq> Lf \<Longrightarrow> rb_up_right (rtop t) h = Some (hd_ptr (after k))"
proof (induction k t rule: plug.induct)
  case (1 t)
  then obtain n where "h (rtop t) = Some n" "rb_parent n = NULL" using zrep_rep [OF 1(1)] by (cases t) auto
  then show ?case by (subst rb_up_right.simps) simp
next
  case (2 c p s k t)
  have z: "zrep h root k (Nd c t p s)" using 2(2) by simp
  from zrep_rep [OF z] \<open>t \<noteq> Lf\<close> obtain n np where
    n: "h (rtop t) = Some n" "rb_parent n = p" "h p = Some np" "rep h p (rb_right np) s" "p \<noteq> NULL"
    "rtop t \<in> set (inorder t)"
    by (cases t) auto
  have "rtop t \<noteq> rb_right np" using n zrep_distinct [OF z] rep_not_NULL [OF zrep_rep [OF z]]
    by (cases s) auto
  with n show ?case by (subst rb_up_right.simps) simp
next
  case (3 c p s k t)
  have z: "zrep h root k (Nd c s p t)" using 3(2) by simp
  from zrep_rep [OF z] \<open>t \<noteq> Lf\<close> obtain n np where
    n: "h (rtop t) = Some n" "rb_parent n = p" "h p = Some np" "rtop t = rb_right np" "p \<noteq> NULL"
    by (cases t) auto
  have "rb_up_right p h = Some (hd_ptr (after k))" using 3(1) [OF z] by simp
  with n show ?case by (subst rb_up_right.simps) simp
qed

lemma rb_up_left_zrep:
  "zrep h root k t \<Longrightarrow> t \<noteq> Lf \<Longrightarrow> rb_up_left (rtop t) h = Some (hd_ptr (rev (before k)))"
proof (induction k t rule: plug.induct)
  case (1 t)
  then obtain n where "h (rtop t) = Some n" "rb_parent n = NULL" using zrep_rep [OF 1(1)] by (cases t) auto
  then show ?case by (subst rb_up_left.simps) simp
next
  case (2 c p s k t)
  have z: "zrep h root k (Nd c t p s)" using 2(2) by simp
  from zrep_rep [OF z] \<open>t \<noteq> Lf\<close> obtain n np where
    n: "h (rtop t) = Some n" "rb_parent n = p" "h p = Some np" "rtop t = rb_left np" "p \<noteq> NULL"
    by (cases t) auto
  have "rb_up_left p h = Some (hd_ptr (rev (before k)))" using 2(1) [OF z] by simp
  with n show ?case by (subst rb_up_left.simps) simp
next
  case (3 c p s k t)
  have z: "zrep h root k (Nd c s p t)" using 3(2) by simp
  from zrep_rep [OF z] \<open>t \<noteq> Lf\<close> obtain n np where
    n: "h (rtop t) = Some n" "rb_parent n = p" "h p = Some np" "rep h p (rb_left np) s" "p \<noteq> NULL"
    "rtop t \<in> set (inorder t)"
    by (cases t) auto
  have "rtop t \<noteq> rb_left np" using n zrep_distinct [OF z] rep_not_NULL [OF zrep_rep [OF z]]
    by (cases s) auto
  with n show ?case by (subst rb_up_left.simps) simp
qed

lemma focus_node:
  assumes z: "zrep h root k (Nd c l a r)"
  obtains n where "h a = Some n" "rb_parent n \<noteq> a" "rb_left n = rtop l" "rb_right n = rtop r"
    "rep h a (rtop l) l" "rep h a (rtop r) r" "rb_left n = NULL \<longleftrightarrow> l = Lf" "rb_right n = NULL \<longleftrightarrow> r = Lf"
proof -
  from zrep_rep [OF z] obtain n where
    n: "h a = Some n" "rb_parent n = kpar k" "rep h a (rb_left n) l" "rep h a (rb_right n) r" "a \<noteq> NULL" by auto
  moreover have "distinct (before k @ inorder l @ a # inorder r @ after k)" using z by (simp add: zrep_def)
  then have "kpar k \<noteq> a" using n(5)
    by (cases k rule: kpar.cases; cases "fst (hd k)") auto
  ultimately show thesis using that rep_NULL [OF n(3)] rep_NULL [OF n(4)] rep_top [OF n(3)] rep_top [OF n(4)] by metis
qed

lemma rb_next_zrep:
  assumes z: "zrep h root k (Nd c l a r)"
  shows "rb_next a h = Some (hd_ptr (inorder r @ after k))"
proof -
  obtain n where n: "h a = Some n" "rb_parent n \<noteq> a" "rb_right n = rtop r" "rep h a (rtop r) r"
      "rb_right n = NULL \<longleftrightarrow> r = Lf"
    by (rule focus_node [OF z])
  show ?thesis
    using n rb_up_right_zrep [OF z] rb_leftmost_hd [OF n(4)]
    by (cases "r = Lf") (auto simp: rb_next_def)
qed

lemma rb_prev_zrep:
  assumes z: "zrep h root k (Nd c l a r)"
  shows "rb_prev a h = Some (hd_ptr (rev (before k @ inorder l)))"
proof -
  obtain n where n: "h a = Some n" "rb_parent n \<noteq> a" "rb_left n = rtop l" "rep h a (rtop l) l"
      "rb_left n = NULL \<longleftrightarrow> l = Lf"
    by (rule focus_node [OF z])
  show ?thesis
    using n rb_up_left_zrep [OF z] rb_rightmost_last [OF n(4)]
    by (cases "l = Lf") (auto simp: rb_prev_def)
qed

text \<open>\<open>rb_next\<close> and \<open>rb_prev\<close> give the neighbours of a node in the order of the tree.\<close>

lemma tree_at_split:
  assumes t: "tree_at h root t" and xs: "inorder t = xs @ a # ys"
  obtains k c l r where "zrep h root k (Nd c l a r)" "before k @ inorder l = xs" "inorder r @ after k = ys"
proof -
  from split_tree [of a t] xs obtain k c l r where e: "t = plug k (Nd c l a r)" by auto
  then have z: "zrep h root k (Nd c l a r)" using t zrep_plug by blast
  have "(before k @ inorder l) @ a # inorder r @ after k = xs @ a # ys" "distinct (xs @ a # ys)"
    using xs zrep_distinct [OF t] by (auto simp: e inorder_plug)
  then have "before k @ inorder l = xs \<and> inorder r @ after k = ys"
    using append_Cons_eq_iff [of a xs ys "before k @ inorder l" "inorder r @ after k"] by simp
  with z that show thesis by blast
qed

lemma rb_next_tree:
  assumes "tree_at h root t" "inorder t = xs @ a # ys"
  shows "rb_next a h = Some (hd_ptr ys)"
  by (rule tree_at_split [OF assms], drule rb_next_zrep, simp)

lemma rb_prev_tree:
  assumes "tree_at h root t" "inorder t = xs @ a # ys"
  shows "rb_prev a h = Some (hd_ptr (rev xs))"
  by (rule tree_at_split [OF assms], drule rb_prev_zrep, simp)


section \<open>Replacing a node\<close>

lemma rbinv_plug_addr: "rbinv (plug k (Nd c l a r)) \<Longrightarrow> rbinv (plug k (Nd c l b r))"
  using invc_plugD [of k "Nd c l a r"] by (intro rbinv_plug) (auto simp: rbinv_def invh_plug)

lemma rb_replace_node_zrep:
  assumes z: "zrep h root k (Nd c l a r)" and b: "b \<notin> whole k (Nd c l a r)" "b \<noteq> NULL" "aligned4 b" "b \<in> dom h"
  shows "\<exists>h' root'. rb_replace_node a b h root = Some (h', root') \<and> zrep h' root' k (Nd c l b r) \<and>
    unchanged (insert b (whole k (Nd c l a r))) h h'"
proof -
  let ?C = "set (before k) \<union> set (after k)"
  have D: "distinct (before k @ inorder l @ a # inorder r @ after k)" and S: "seg h a (kpar k) k root NULL"
    using z by (simp_all add: zrep_def)
  from zrep_rep [OF z] obtain n where
    n: "h a = Some n" "rb_parent n = kpar k" "rb_is_black n = c" "a \<noteq> NULL"
      "rep h a (rb_left n) l" "rep h a (rb_right n) r" by auto
  have d: "distinct (before k @ after k)" "a \<notin> ?C" "?C \<inter> set (inorder l) = {}" "?C \<inter> set (inorder r) = {}"
    "distinct (inorder l)" "distinct (inorder r)" "set (inorder l) \<inter> set (inorder r) = {}"
    "a \<notin> set (inorder l)" "a \<notin> set (inorder r)" "b \<noteq> a" "b \<notin> ?C" "b \<notin> set (inorder l)" "b \<notin> set (inorder r)"
    using D b(1) by auto
  from rb_change_child_seg [OF S n(4) _ _ d(1), of b] d(2) obtain h1 root' where
    h1: "rb_change_child a b (kpar k) h root = Some (h1, root')"
      "seg h1 b (kpar k) k root' NULL" "unchanged ?C h h1" by auto
  have r1: "rep h1 a (rb_left n) l" "rep h1 a (rb_right n) r"
    using rep_unchanged [OF h1(3)] n(5,6) d(3,4) by auto
  from set_parent_rep [OF r1(1) d(5) b(3)] obtain h2 where
    h2: "(if rb_left n \<noteq> NULL then write_at (rb_left n) (rb_set_parent b) h1 else Some h1) = Some h2"
      "rep h2 b (rb_left n) l" "unchanged (set (inorder l)) h1 h2" by blast
  have "rep h2 a (rb_right n) r" using r1(2) rep_unchanged [OF h2(3) d(7)] by simp
  from set_parent_rep [OF this d(6) b(3)] obtain h3 where
    h3: "(if rb_right n \<noteq> NULL then write_at (rb_right n) (rb_set_parent b) h2 else Some h2) = Some h3"
      "rep h3 b (rb_right n) r" "unchanged (set (inorder r)) h2 h3" by blast
  have u: "unchanged (whole k (Nd c l a r)) h h3"
    using h1(3) h2(3) h3(3) by (auto simp: unchanged_def)
  have v: "h3 a = Some n" "b \<in> dom h3"
    using h1(3) h2(3) h3(3) n(1) b(4) d by (auto simp: unchanged_def)
  let ?h = "h3(b \<mapsto> n)"
  have "rep h3 b (rb_left n) l" using h2(2) rep_unchanged [OF h3(3)] d(7) by (simp add: Int_commute)
  then have "rep ?h (kpar k) b (Nd c l b r)" using n h3(2) d b by simp
  moreover have "seg ?h b (kpar k) k root' NULL"
    using h1(2) seg_unchanged [OF h2(3)] seg_unchanged [OF h3(3)] d by (simp add: Int_commute)
  moreover have "distinct (before k @ inorder (Nd c l b r) @ after k)" using D b(1) by auto
  ultimately have "zrep ?h root' k (Nd c l b r)" by (simp add: zrep_def)
  moreover have "rb_replace_node a b h root = Some (?h, root')"
    using n(1,2) h1(1) h2(1) h3(1) v
    by (auto simp: rb_replace_node_def write_at_Some split del: if_split cong: if_cong)
  moreover have "unchanged (insert b (whole k (Nd c l a r))) h ?h" using u by (auto simp: unchanged_def)
  ultimately show ?thesis by blast
qed

lemma rb_replace_node_tree:
  assumes t: "tree_at h root t" "rbinv t" and xs: "inorder t = xs @ a # ys"
    and b: "b \<notin> set (inorder t)" "b \<noteq> NULL" "aligned4 b" "b \<in> dom h"
  shows "\<exists>h' root' t'. rb_replace_node a b h root = Some (h', root') \<and> tree_at h' root' t' \<and> rbinv t' \<and>
    inorder t' = xs @ b # ys \<and> unchanged (insert b (set (inorder t))) h h'"
proof -
  from split_tree [of a t] xs obtain k c l r where e: "t = plug k (Nd c l a r)" by auto
  then have z: "zrep h root k (Nd c l a r)" using t zrep_plug by blast
  have w: "whole k (Nd c l a r) = set (inorder t)" by (simp add: e inorder_plug)
  have "(before k @ inorder l) @ a # inorder r @ after k = xs @ a # ys" "distinct (xs @ a # ys)"
    using xs zrep_distinct [OF t(1)] by (auto simp: e inorder_plug)
  then have s: "before k @ inorder l = xs" "inorder r @ after k = ys"
    using append_Cons_eq_iff [of a xs ys "before k @ inorder l" "inorder r @ after k"] by auto
  from rb_replace_node_zrep [OF z, unfolded w, OF b] obtain h' root' where
    h': "rb_replace_node a b h root = Some (h', root')" "zrep h' root' k (Nd c l b r)"
      "unchanged (insert b (set (inorder t))) h h'" by blast
  have "tree_at h' root' (plug k (Nd c l b r))" using h'(2) zrep_plug by blast
  moreover have "rbinv (plug k (Nd c l b r))" using t(2) rbinv_plug_addr e by blast
  moreover have "inorder (plug k (Nd c l b r)) = xs @ b # ys" using s by (simp add: inorder_plug)
  ultimately show ?thesis using h'(1,3) by blast
qed

end
