(* ===== verification/Rbtree_Spec.thy ===== *)
theory Rbtree_Spec
  imports Rbtree_Walk
begin

text \<open>
  The trees of \<open>lib/rbtree.c\<close> as a client sees them: a memory and a root hold the sequence of
  their nodes in order.  The interface \<open>ordered_tree\<close> lists what the routines promise of this
  sequence, with the facts every client may draw from it; it is interpreted on the routines.
\<close>

section \<open>The sequence of a tree\<close>

definition tree_rep :: "rb_heap \<Rightarrow> addr \<Rightarrow> addr list \<Rightarrow> bool" where
  "tree_rep h root xs \<longleftrightarrow> (\<exists>t. tree_at h root t \<and> rbinv t \<and> inorder t = xs)"

lemma tree_rep_distinct: "tree_rep h root xs \<Longrightarrow> distinct xs"
  by (auto simp: tree_rep_def dest: zrep_distinct)

lemma tree_rep_node: "tree_rep h root xs \<Longrightarrow> x \<in> set xs \<Longrightarrow> x \<noteq> NULL \<and> aligned4 x \<and> x \<in> dom h"
proof -
  have "rep h q p t \<Longrightarrow> x \<in> set (inorder t) \<Longrightarrow> x \<noteq> NULL \<and> aligned4 x \<and> x \<in> dom h" for q p t
    by (induction t arbitrary: q p) (simp, simp only: rep.simps inorder.simps set_append list.set, blast)
  then show "tree_rep h root xs \<Longrightarrow> x \<in> set xs \<Longrightarrow> x \<noteq> NULL \<and> aligned4 x \<and> x \<in> dom h"
    unfolding tree_rep_def using tree_at_rep by blast
qed

lemma tree_rep_unchanged: "tree_rep h root xs \<Longrightarrow> unchanged X h h' \<Longrightarrow> X \<inter> set xs = {} \<Longrightarrow> tree_rep h' root xs"
  unfolding tree_rep_def zrep_def by (auto simp: rep_unchanged)

lemma tree_rep_cong: "tree_rep h root xs \<Longrightarrow> (\<And>x. x \<in> set xs \<Longrightarrow> h' x = h x) \<Longrightarrow> tree_rep h' root xs"
  by (rule tree_rep_unchanged [where X = "- set xs"]) (auto simp: unchanged_def)

lemma tree_rep_root: "tree_rep h root xs \<Longrightarrow> root = NULL \<longleftrightarrow> xs = []"
  unfolding tree_rep_def by (elim exE conjE, drule tree_at_rep, drule rep_NULL) auto

lemma tree_rep_empty: "tree_rep h NULL []"
  by (auto simp: tree_rep_def zrep_def rbinv_def intro!: exI [of _ Lf])

lemma tree_rep_erase:
  assumes t: "tree_rep h root (xs @ a # ys)"
  shows "\<exists>h' root'. rb_erase a h root = Some (h', root') \<and> tree_rep h' root' (xs @ ys) \<and>
    h' a = h a \<and> unchanged (set (xs @ a # ys)) h h'"
proof -
  from t obtain u where u: "tree_at h root u" "rbinv u" "inorder u = xs @ a # ys" by (auto simp: tree_rep_def)
  have "distinct (xs @ a # ys)" using tree_rep_distinct [OF t] .
  then have "remove1 a (inorder u) = xs @ ys" using u(3) by (simp add: remove1_middle)
  with rb_erase_zrep [OF u(1,2), of a] u(3) show ?thesis by (auto simp: tree_rep_def)
qed

lemma tree_rep_replace:
  assumes "tree_rep h root (xs @ a # ys)" "b \<notin> set (xs @ a # ys)" "b \<noteq> NULL" "aligned4 b" "b \<in> dom h"
  shows "\<exists>h' root'. rb_replace_node a b h root = Some (h', root') \<and> tree_rep h' root' (xs @ b # ys) \<and>
    unchanged (insert b (set (xs @ a # ys))) h h'"
proof -
  from assms(1) obtain u where u: "tree_at h root u" "rbinv u" "inorder u = xs @ a # ys" by (auto simp: tree_rep_def)
  from rb_replace_node_tree [OF u, of b] assms(2-) u(3) show ?thesis by (auto simp: tree_rep_def)
qed

lemma tree_rep_first: "tree_rep h root xs \<Longrightarrow> rb_first h root = Some (hd_ptr xs)"
  and tree_rep_last: "tree_rep h root xs \<Longrightarrow> rb_last h root = Some (hd_ptr (rev xs))"
  unfolding tree_rep_def using rb_first_tree rb_last_tree by blast+

lemma tree_rep_next: "tree_rep h root (xs @ a # ys) \<Longrightarrow> rb_next a h = Some (hd_ptr ys)"
  and tree_rep_prev: "tree_rep h root (xs @ a # ys) \<Longrightarrow> rb_prev a h = Some (hd_ptr (rev xs))"
  unfolding tree_rep_def using rb_next_tree rb_prev_tree by blast+

section \<open>The interface\<close>

text \<open>\<open>n\<close> steps of a partial function, and the loop that removes the first node until none is left.\<close>

fun steps :: "nat \<Rightarrow> ('a \<Rightarrow> 'a option) \<Rightarrow> 'a \<Rightarrow> 'a option" where
  "steps 0 f x = Some x"
| "steps (Suc n) f x = do { y \<leftarrow> f x; steps n f y }"

locale ordered_tree =
  fixes T :: "'h \<Rightarrow> addr \<Rightarrow> addr list \<Rightarrow> bool"
    and first_node last_node :: "'h \<Rightarrow> addr \<Rightarrow> addr option"
    and next_node prev_node :: "addr \<Rightarrow> 'h \<Rightarrow> addr option"
    and erase :: "addr \<Rightarrow> 'h \<Rightarrow> addr \<Rightarrow> ('h \<times> addr) option"
  assumes T_distinct: "T h root xs \<Longrightarrow> distinct xs"
    and T_not_NULL: "T h root xs \<Longrightarrow> NULL \<notin> set xs"
    and T_first: "T h root xs \<Longrightarrow> first_node h root = Some (hd_ptr xs)"
    and T_last: "T h root xs \<Longrightarrow> last_node h root = Some (hd_ptr (rev xs))"
    and T_next: "T h root (xs @ a # ys) \<Longrightarrow> next_node a h = Some (hd_ptr ys)"
    and T_prev: "T h root (xs @ a # ys) \<Longrightarrow> prev_node a h = Some (hd_ptr (rev xs))"
    and T_erase: "T h root (xs @ a # ys) \<Longrightarrow> \<exists>h' root'. erase a h root = Some (h', root') \<and> T h' root' (xs @ ys)"
begin

lemma steps_next:
  "T h root (xs @ a # ys) \<Longrightarrow> i \<le> length (a # ys) \<Longrightarrow>
   steps i (\<lambda>x. next_node x h) a = Some (hd_ptr (drop i (a # ys)))"
proof (induction i arbitrary: xs a ys)
  case (Suc i)
  show ?case
  proof (cases ys)
    case Nil
    then show ?thesis using Suc T_next [OF Suc.prems(1)] by simp
  next
    case (Cons b zs)
    have "T h root ((xs @ [a]) @ b # zs)" using Suc.prems(1) Cons by simp
    from Suc.IH [OF this] show ?thesis using Suc.prems Cons T_next [OF Suc.prems(1)] by simp
  qed
qed simp

lemma walk_forward:
  assumes "T h root xs" "i \<le> length xs"
  shows "first_node h root \<bind> steps i (\<lambda>x. next_node x h) = Some (hd_ptr (drop i xs))"
  using assms T_first [OF assms(1)] steps_next [of h root "[]"] by (cases xs) auto

lemma prev_after_next:
  assumes "T h root xs" "a \<in> set xs" "next_node a h = Some b" "b \<noteq> NULL"
  shows "b \<in> set xs \<and> prev_node b h = Some a"
proof -
  from assms(2) obtain us vs where xs: "xs = us @ a # vs" by (auto dest: split_list)
  with assms T_next [of h root us a vs] obtain ws where vs: "vs = b # ws" by (cases vs) auto
  then have "T h root ((us @ [a]) @ b # ws)" using assms(1) xs by simp
  from T_prev [OF this] show ?thesis using xs vs by simp
qed

text \<open>Removing all the nodes, in whatever order.\<close>

lemma erase_all:
  assumes "T h root xs" "mset ys = mset xs"
  shows "\<exists>h' root'. fold (\<lambda>a s. case s of None \<Rightarrow> None | Some (h, root) \<Rightarrow> erase a h root) ys (Some (h, root)) =
    Some (h', root') \<and> T h' root' []"
  using assms
proof (induction ys arbitrary: xs h root)
  case (Cons y ys)
  then have "y \<in> set xs" by (metis list.set_intros(1) mset_eq_setD)
  then obtain us vs where xs: "xs = us @ y # vs" by (auto dest: split_list)
  with Cons.prems have m: "mset ys = mset (us @ vs)" by simp
  from Cons.prems(1) T_erase obtain h1 root1 where "erase y h root = Some (h1, root1)" "T h1 root1 (us @ vs)"
    unfolding xs by blast
  with Cons.IH [OF _ m] show ?case by simp
qed simp

end

interpretation rbt: ordered_tree tree_rep rb_first rb_last rb_next rb_prev rb_erase
proof
  show "NULL \<notin> set xs" if "tree_rep h root xs" for h root xs using tree_rep_node [OF that] by blast
  show "\<exists>h' root'. rb_erase a h root = Some (h', root') \<and> tree_rep h' root' (xs @ ys)"
    if "tree_rep h root (xs @ a # ys)" for h root xs a ys using tree_rep_erase [OF that] by blast
qed (rule tree_rep_distinct tree_rep_first tree_rep_last tree_rep_next tree_rep_prev, assumption)+

section \<open>Properties\<close>

text \<open>A tree of three nodes for the examples: a black root over two red leaves.\<close>

definition three :: rb_heap where
  "three = [4 \<mapsto> \<lparr>rb_parent_color = 8, rb_right = 0, rb_left = 0\<rparr>,
            8 \<mapsto> \<lparr>rb_parent_color = 1, rb_right = 12, rb_left = 4\<rparr>,
            12 \<mapsto> \<lparr>rb_parent_color = 8, rb_right = 0, rb_left = 0\<rparr>,
            16 \<mapsto> \<lparr>rb_parent_color = 0, rb_right = 0, rb_left = 0\<rparr>]"

lemma three_tree: "tree_rep three 8 [4, 8, 12]"
  unfolding tree_rep_def
  by (rule exI [of _ "Nd True (Nd False Lf 4 Lf) 8 (Nd False Lf 12 Lf)"])
    (simp add: zrep_def three_def rbinv_def aligned4_def packed_defs)

lemma three_hole: "zrep three 8 [(True, False, 12, Lf), (False, True, 8, Nd False Lf 4 Lf)] Lf"
  by (simp add: zrep_def three_def aligned4_def packed_defs)

text \<open>
  C7: Linking a node at any hole of a red-black tree and rebalancing returns without a fault,
  gives a tree that is again balanced and holds the same nodes in the same order with
  the new one at the place of the hole, and writes only to nodes of the tree.
\<close>

theorem rb_insert_color_correct:
  assumes "zrep h root k Lf" "rbinv (plug k Lf)"
    and "a \<notin> set (before k) \<union> set (after k)" "a \<noteq> NULL" "aligned4 a" "a \<in> dom h"
  shows "\<exists>h1 root1 h' root'. rb_link_node a (kpar k) (link_at k) h root = Some (h1, root1) \<and>
    rb_insert_color a h1 root1 = Some (h', root') \<and> tree_rep h' root' (before k @ a # after k) \<and>
    unchanged (insert a (set (before k) \<union> set (after k))) h h'"
  using rb_insert_zrep [OF assms] unfolding tree_rep_def by blast

theorem rb_insert_color_correct_witness:
  "\<exists>h1 root1 h' root'. rb_link_node 16 12 (Left_link 12) three 8 = Some (h1, root1) \<and>
    rb_insert_color 16 h1 root1 = Some (h', root') \<and> tree_rep h' root' [4, 8, 16, 12]"
  using rb_insert_color_correct [OF three_hole, of 16]
  by (auto simp: rbinv_def aligned4_def three_def link_at_def)

text \<open>
  C8: Removing any node of a red-black tree returns without a fault, gives a balanced tree that
  holds the other nodes in their order, leaves the removed node's own fields as they
  were and writes only to nodes of the tree.
\<close>

theorem rb_erase_correct:
  assumes "tree_rep h root (xs @ a # ys)"
  shows "\<exists>h' root'. rb_erase a h root = Some (h', root') \<and> tree_rep h' root' (xs @ ys) \<and>
    h' a = h a \<and> unchanged (set (xs @ a # ys)) h h'"
  using assms by (rule tree_rep_erase)

theorem rb_erase_correct_witness:
  "\<exists>h' root'. rb_erase 8 three 8 = Some (h', root') \<and> tree_rep h' root' [4, 12]"
  using rb_erase_correct [of three 8 "[4]" 8 "[12]"] three_tree by auto

text \<open>
  C9: Starting at \<open>rb_first\<close>, \<open>i\<close> steps of \<open>rb_next\<close> arrive at the \<open>i\<close>-th node in order, and one step
  after the last node arrives at \<open>NULL\<close>: the walk visits every node once and ends.
\<close>

theorem rb_walk_in_order:
  assumes "tree_rep h root xs" "i \<le> length xs"
  shows "rb_first h root \<bind> steps i (\<lambda>x. rb_next x h) = Some (if i < length xs then xs ! i else NULL)"
  using rbt.walk_forward [OF assms] assms(2) by (simp add: hd_drop_conv_nth hd_ptr_def split: list.splits)
    (metis Cons_nth_drop_Suc list.distinct(1) list.inject)

theorem rb_walk_in_order_witness:
  "rb_first three 8 \<bind> steps 2 (\<lambda>x. rb_next x three) = Some 12 \<and>
   rb_first three 8 \<bind> steps 3 (\<lambda>x. rb_next x three) = Some NULL"
  using rb_walk_in_order [OF three_tree, of 2] rb_walk_in_order [OF three_tree, of 3] by simp

text \<open>
  C10: \<open>rb_replace_node\<close> puts a node that is not in the tree at the place of one that is, with the
  same neighbours and without rebalancing: the order and the balance of the tree stay.
\<close>

theorem rb_replace_node_correct:
  assumes "tree_rep h root (xs @ a # ys)" "b \<notin> set (xs @ a # ys)" "b \<noteq> NULL" "aligned4 b" "b \<in> dom h"
  shows "\<exists>h' root'. rb_replace_node a b h root = Some (h', root') \<and> tree_rep h' root' (xs @ b # ys) \<and>
    rb_next b h' = Some (hd_ptr ys) \<and> rb_prev b h' = Some (hd_ptr (rev xs))"
  using tree_rep_replace [OF assms] tree_rep_next tree_rep_prev by blast

theorem rb_replace_node_correct_witness:
  "\<exists>h' root'. rb_replace_node 4 16 three 8 = Some (h', root') \<and> tree_rep h' root' [16, 8, 12]"
  using rb_replace_node_correct [of three 8 "[]" 4 "[8, 12]" 16] three_tree
  by (auto simp: aligned4_def three_def)

end
