(* ===== verification/Elevator_Tree.thy ===== *)
theory Elevator_Tree
  imports Elevator Rbtree_Spec
begin

text \<open>
  The sorted trees of requests of \<open>block/elevator.c\<close>: \<open>elv_rb_add\<close>, \<open>elv_rb_del\<close> and \<open>elv_rb_find\<close> on a
  red-black tree of requests act on the list of its requests in sector order.
\<close>

section \<open>Trees sorted by sector\<close>

definition pos_of :: "(addr \<rightharpoonup> request) \<Rightarrow> addr \<Rightarrow> sector_t" where
  "pos_of reqs x = (case reqs x of Some r \<Rightarrow> blk_rq_pos r | None \<Rightarrow> 0)"

text \<open>The sectors of the requests \<open>xs\<close> increase.\<close>

definition pos_sorted :: "(addr \<rightharpoonup> request) \<Rightarrow> addr list \<Rightarrow> bool" where
  "pos_sorted reqs xs \<longleftrightarrow> set xs \<subseteq> dom reqs \<and> sorted_wrt (\<lambda>x y. pos_of reqs x < pos_of reqs y) xs"

lemma pos_sorted_simps [simp]:
  "pos_sorted reqs []"
  "pos_sorted reqs (x # xs) \<longleftrightarrow> x \<in> dom reqs \<and> (\<forall>y\<in>set xs. pos_of reqs x < pos_of reqs y) \<and> pos_sorted reqs xs"
  "pos_sorted reqs (xs @ ys) \<longleftrightarrow> pos_sorted reqs xs \<and> pos_sorted reqs ys \<and>
     (\<forall>x\<in>set xs. \<forall>y\<in>set ys. pos_of reqs x < pos_of reqs y)"
  by (auto simp: pos_sorted_def sorted_wrt_append)

lemma pos_sorted_inj:
  assumes "pos_sorted reqs xs" "x \<in> set xs" "y \<in> set xs" "y \<noteq> x"
  shows "pos_of reqs y \<noteq> pos_of reqs x"
proof -
  obtain us vs where "xs = us @ x # vs" using assms(2) by (meson split_list)
  with assms show ?thesis by auto
qed

lemma read_link_zrep: "zrep h root k t \<Longrightarrow> read_link (link_at k) h root = Some (rtop t)"
proof (cases k)
  case (Cons f k')
  obtain d c p s where f: "f = (d, c, p, s)" by (cases f)
  assume "zrep h root k t"
  then show ?thesis unfolding Cons f zrep_def
    by (cases d) (auto simp: read_link_def link_at_def simp del: zrep_up)
qed (auto simp: zrep_def read_link_def link_at_def)

lemma elv_rb_add_walk_found:
  "zrep h root k t \<Longrightarrow> pos_sorted reqs (inorder t) \<Longrightarrow> x \<in> set (inorder t) \<Longrightarrow> pos_of reqs x = sec \<Longrightarrow>
   elv_rb_add_walk reqs h root sec (kpar k) (link_at k) = Some (Inl x)"
proof (induction t arbitrary: k)
  case (Nd c l a r)
  note rd = read_link_zrep [OF Nd.prems(1)]
  have a: "a \<noteq> NULL" using zrep_rep [OF Nd.prems(1)] by auto
  obtain ra where ra: "reqs a = Some ra" "blk_rq_pos ra = pos_of reqs a" using Nd.prems(2) by (auto simp: pos_of_def)
  consider "x = a" | "x \<in> set (inorder l)" | "x \<in> set (inorder r)" using Nd.prems(3) by auto
  then show ?case
  proof cases
    case 1
    then show ?thesis using rd a ra Nd.prems(4) by (subst elv_rb_add_walk.simps) simp
  next
    case 2
    then have lt: "sec < blk_rq_pos ra" using Nd.prems(2,4) ra by auto
    have "elv_rb_add_walk reqs h root sec a (Left_link a) = Some (Inl x)"
      using Nd.IH(1) [of "(True, c, a, r) # k"] Nd.prems 2 by (simp add: link_at_def)
    then show ?thesis using rd a ra lt by (subst elv_rb_add_walk.simps) simp
  next
    case 3
    then have gt: "blk_rq_pos ra < sec" using Nd.prems(2,4) ra by auto
    have "elv_rb_add_walk reqs h root sec a (Right_link a) = Some (Inl x)"
      using Nd.IH(2) [of "(False, c, a, l) # k"] Nd.prems 3 by (simp add: link_at_def)
    then show ?thesis using rd a ra gt by (subst elv_rb_add_walk.simps) auto
  qed
qed simp

lemma elv_rb_add_walk_hole:
  "zrep h root k t \<Longrightarrow> pos_sorted reqs (inorder t) \<Longrightarrow> \<forall>x\<in>set (inorder t). pos_of reqs x \<noteq> sec \<Longrightarrow>
   \<exists>k'. elv_rb_add_walk reqs h root sec (kpar k) (link_at k) = Some (Inr (kpar k', link_at k')) \<and>
     zrep h root k' Lf \<and> plug k' Lf = plug k t \<and>
     before k' = before k @ filter (\<lambda>x. pos_of reqs x < sec) (inorder t) \<and>
     after k' = filter (\<lambda>x. sec < pos_of reqs x) (inorder t) @ after k"
proof (induction t arbitrary: k)
  case Lf
  then show ?case using read_link_zrep [OF Lf(1)]
    by (intro exI [of _ k]) (simp add: elv_rb_add_walk.simps)
next
  case (Nd c l a r)
  note rd = read_link_zrep [OF Nd.prems(1)]
  have a: "a \<noteq> NULL" using zrep_rep [OF Nd.prems(1)] by auto
  obtain ra where ra: "reqs a = Some ra" "blk_rq_pos ra = pos_of reqs a" using Nd.prems(2) by (auto simp: pos_of_def)
  show ?case
  proof (cases "sec < pos_of reqs a")
    case True
    have "filter (\<lambda>x. pos_of reqs x < sec) (inorder r) = []" "filter (\<lambda>x. sec < pos_of reqs x) (inorder r) = inorder r"
      using Nd.prems(2) True by (auto simp: filter_empty_conv filter_id_conv dest: order.strict_trans)
    moreover have "elv_rb_add_walk reqs h root sec (kpar k) (link_at k) = elv_rb_add_walk reqs h root sec a (Left_link a)"
      using rd a ra True by (subst elv_rb_add_walk.simps) simp
    ultimately show ?thesis
      using Nd.IH(1) [of "(True, c, a, r) # k"] Nd.prems True by (auto simp: link_at_def)
  next
    case False
    then have gt: "pos_of reqs a < sec" using Nd.prems(3) by (auto simp: neq_iff)
    have "filter (\<lambda>x. sec < pos_of reqs x) (inorder l) = []" "filter (\<lambda>x. pos_of reqs x < sec) (inorder l) = inorder l"
      using Nd.prems(2) gt by (auto simp: filter_empty_conv filter_id_conv dest: order.strict_trans)
    moreover have "elv_rb_add_walk reqs h root sec (kpar k) (link_at k) = elv_rb_add_walk reqs h root sec a (Right_link a)"
      using rd a ra gt False by (subst elv_rb_add_walk.simps) simp
    ultimately show ?thesis
      using Nd.IH(2) [of "(False, c, a, l) # k"] Nd.prems gt False by (auto simp: link_at_def)
  qed
qed


lemma elv_rb_add_alias:
  assumes t: "tree_rep h root xs" "pos_sorted reqs xs" and r: "reqs rq = Some r" and x: "x \<in> set xs" "pos_of reqs x = blk_rq_pos r"
  shows "elv_rb_add reqs rq h root = Some (x, h, root)"
proof -
  from t obtain u where u: "zrep h root [] u" "inorder u = xs" by (auto simp: tree_rep_def)
  have "elv_rb_add_walk reqs h root (blk_rq_pos r) NULL Root_link = Some (Inl x)"
    using elv_rb_add_walk_found [OF u(1)] t(2) u(2) x by (simp add: link_at_def)
  then show ?thesis using r by (simp add: elv_rb_add_def)
qed

lemma elv_rb_add_new:
  assumes t: "tree_rep h root xs" "pos_sorted reqs xs" and r: "reqs rq = Some r"
    and x: "\<forall>x\<in>set xs. pos_of reqs x \<noteq> blk_rq_pos r"
    and rq: "rq \<noteq> NULL" "aligned4 rq" "rq \<in> dom h"
  defines "xs' \<equiv> filter (\<lambda>x. pos_of reqs x < blk_rq_pos r) xs @ rq # filter (\<lambda>x. blk_rq_pos r < pos_of reqs x) xs"
  shows "\<exists>h' root'. elv_rb_add reqs rq h root = Some (NULL, h', root') \<and> tree_rep h' root' xs' \<and>
    pos_sorted reqs xs' \<and> set xs' = insert rq (set xs) \<and> unchanged (set xs') h h'"
proof -
  from t obtain u where u: "zrep h root [] u" "inorder u = xs" "rbinv u" by (auto simp: tree_rep_def)
  have pr: "pos_of reqs rq = blk_rq_pos r" using r by (simp add: pos_of_def)
  have st: "set xs' = insert rq (set xs)" using x by (auto simp: xs'_def neq_iff)
  from elv_rb_add_walk_hole [OF u(1), of reqs "blk_rq_pos r"] t(2) u(2) x obtain k where
    k: "elv_rb_add_walk reqs h root (blk_rq_pos r) NULL Root_link = Some (Inr (kpar k, link_at k))"
     "zrep h root k Lf" "plug k Lf = u" "before k = filter (\<lambda>x. pos_of reqs x < blk_rq_pos r) xs"
     "after k = filter (\<lambda>x. blk_rq_pos r < pos_of reqs x) xs" by (auto simp: link_at_def)
  have "rq \<notin> set (before k) \<union> set (after k)" using pr unfolding k(4,5) by auto
  from rb_insert_zrep [OF k(2) _ this rq] u(3) k(3) obtain h1 root1 h' root' t' where
    i: "rb_link_node rq (kpar k) (link_at k) h root = Some (h1, root1)"
     "rb_insert_color rq h1 root1 = Some (h', root')" "tree_at h' root' t'" "rbinv t'"
     "inorder t' = before k @ rq # after k" "unchanged (insert rq (set (before k) \<union> set (after k))) h h'" by auto
  have "elv_rb_add reqs rq h root = Some (NULL, h', root')" using r k(1) i(1,2) by (simp add: elv_rb_add_def)
  moreover have "inorder t' = xs'" using i(5) unfolding k(4,5) xs'_def .
  moreover have "pos_sorted reqs xs'"
    using t(2) r pr unfolding xs'_def by (auto simp: pos_sorted_def sorted_wrt_append sorted_wrt_filter dest: order.strict_trans)
  moreover have "unchanged (set xs') h h'"
    using i(6) unfolding xs'_def k(4,5) by (simp add: Un_ac insert_commute)
  ultimately show ?thesis using i(3,4) st by (auto simp: tree_rep_def)
qed

lemma elv_rb_del_rep:
  assumes t: "tree_rep h root (xs @ rq # ys)"
  shows "\<exists>h' root'. elv_rb_del rq h root = Some (h', root') \<and> tree_rep h' root' (xs @ ys) \<and>
    unchanged (set (xs @ rq # ys)) h h' \<and> rq \<in> dom h'"
proof -
  from t obtain u where u: "tree_at h root u" "inorder u = xs @ rq # ys" "rbinv u" by (auto simp: tree_rep_def)
  have d: "distinct (xs @ rq # ys)" using tree_rep_distinct [OF t] .
  obtain k c l r where z: "zrep h root k (Nd c l rq r)" by (rule tree_at_split [OF u(1,2)])
  obtain n where n: "h rq = Some n" "rb_parent n \<noteq> rq" by (rule focus_node [OF z])
  have "rq \<in> set (inorder u)" using u(2) by simp
  from rb_erase_zrep [OF u(1,3) this] obtain h1 root' t' where
    e: "rb_erase rq h root = Some (h1, root')" "tree_at h1 root' t'" "rbinv t'"
      "inorder t' = remove1 rq (inorder u)" "h1 rq = h rq" "unchanged (set (inorder u)) h h1" by blast
  have i: "inorder t' = xs @ ys" using e(4) d u(2) by (simp add: remove1_append)
  let ?h = "h1(rq \<mapsto> rb_set_parent rq n)"
  have "elv_rb_del rq h root = Some (?h, root')"
    using n e(1,5) by (simp add: elv_rb_del_def RB_EMPTY_NODE_def RB_CLEAR_NODE_def write_at_Some)
  moreover have "tree_rep h1 root' (xs @ ys)" using e(2,3) i by (auto simp: tree_rep_def)
  then have "tree_rep ?h root' (xs @ ys)"
    by (rule tree_rep_unchanged [where X = "{rq}"]) (use d in \<open>auto simp: unchanged_def\<close>)
  moreover have "unchanged (set (xs @ rq # ys)) h ?h" using e(6) u(2) by (auto simp: unchanged_def)
  ultimately show ?thesis by auto
qed

lemma elv_rb_find_rep:
  assumes "rep h q p t" "pos_sorted reqs (inorder t)"
  shows "elv_rb_find reqs h p sec =
    Some (case find (\<lambda>x. pos_of reqs x = sec) (inorder t) of Some x \<Rightarrow> x | None \<Rightarrow> NULL)"
  using assms
proof (induction t arbitrary: q p)
  case Lf
  then show ?case by (simp add: elv_rb_find.simps)
next
  case (Nd c l a r)
  from Nd.prems(1) obtain n where n: "h a = Some n" "rep h a (rb_left n) l" "rep h a (rb_right n) r" "a \<noteq> NULL" "p = a" by auto
  obtain ra where ra: "reqs a = Some ra" "blk_rq_pos ra = pos_of reqs a" using Nd.prems(2) by (auto simp: pos_of_def)
  have s: "pos_sorted reqs (inorder l)" "pos_sorted reqs (inorder r)"
    "\<forall>x\<in>set (inorder l). pos_of reqs x < pos_of reqs a" "\<forall>x\<in>set (inorder r). pos_of reqs a < pos_of reqs x"
    using Nd.prems(2) by auto
  have app: "find P (as @ bs) = (case find P as of None \<Rightarrow> find P bs | Some x \<Rightarrow> Some x)" for P :: "addr \<Rightarrow> bool" and as bs
    by (induction as) auto
  have none: "find (\<lambda>x. pos_of reqs x = sec) (inorder l) = None" if "pos_of reqs a \<le> sec"
    using s(3) that by (auto simp: find_None_iff)
  have none': "find (\<lambda>x. pos_of reqs x = sec) (inorder r) = None" if "sec \<le> pos_of reqs a"
    using s(4) that by (auto simp: find_None_iff)
  show ?case
    using n ra Nd.IH(1) [OF n(2) s(1)] Nd.IH(2) [OF n(3) s(2)] none none'
    by (subst elv_rb_find.simps) (cases "sec < pos_of reqs a"; cases "sec = pos_of reqs a"; auto simp: app split: option.splits)
qed


lemma elv_rb_find_tree:
  assumes "tree_rep h root xs" "pos_sorted reqs xs"
  shows "elv_rb_find reqs h root sec = Some (case find (\<lambda>x. pos_of reqs x = sec) xs of Some x \<Rightarrow> x | None \<Rightarrow> NULL)"
  using assms elv_rb_find_rep [OF tree_at_rep] unfolding tree_rep_def by blast

end
