(* ===== verification/Elevator_Queue.thy ===== *)
theory Elevator_Queue
  imports Elevator_Tree
begin

text \<open>
  A request queue as the schedulers share it: which requests are on the dispatch queue, which are on a
  list of the scheduler, which are in the merge hash, and what the operations of
  \<open>block/elevator.c\<close> on one request do to this picture.
\<close>

section \<open>A queue and its requests\<close>

text \<open>
  The requests \<open>X\<close> of a queue are on the dispatch queue with the head \<open>qh\<close>, on one of the lists with
  the heads \<open>S\<close>, or on no list; \<open>w\<close> gives the entries of each list.
\<close>

definition listed :: "addr \<Rightarrow> addr set \<Rightarrow> (addr \<Rightarrow> addr list) \<Rightarrow> addr set" where
  "listed qh S w = (\<Union>a\<in>insert qh S. set (w a))"

definition lists_rep :: "list_heap \<Rightarrow> addr \<Rightarrow> addr set \<Rightarrow> addr set \<Rightarrow> (addr \<Rightarrow> addr list) \<Rightarrow> bool" where
  "lists_rep m qh X S w \<longleftrightarrow> rings m (insert qh (S \<union> (X - listed qh S w))) w \<and>
     qh \<notin> S \<union> X \<and> S \<inter> X = {} \<and> listed qh S w \<subseteq> X \<and> (\<forall>x\<in>X. w x = [])"

lemma listed_mem: "a \<in> insert qh S \<Longrightarrow> w a = ys @ n # zs \<Longrightarrow> n \<in> listed qh S w"
  unfolding listed_def by force

lemma listed_sub: "a \<in> insert qh S \<Longrightarrow> set (w a) \<subseteq> listed qh S w"
  unfolding listed_def by blast

lemma lists_repD:
  assumes "lists_rep m qh X S w"
  shows "rings m (insert qh (S \<union> (X - listed qh S w))) w" "qh \<notin> S" "qh \<notin> X" "S \<inter> X = {}"
    "listed qh S w \<subseteq> X" "x \<in> X \<Longrightarrow> w x = []"
  using assms unfolding lists_rep_def by auto

lemma lists_empty: "lists_rep m qh X S w \<Longrightarrow> a \<in> insert qh S \<Longrightarrow> list_empty a m = Some (w a = [])"
  using rings_list_empty [OF lists_repD(1)] by fastforce

lemma lists_first: "lists_rep m qh X S w \<Longrightarrow> a \<in> insert qh S \<Longrightarrow> get_next a m = Some (hd (w a @ [a]))"
  and lists_last: "lists_rep m qh X S w \<Longrightarrow> a \<in> insert qh S \<Longrightarrow> get_prev a m = Some (last (a # w a))"
  using rings_first [OF lists_repD(1)] rings_last [OF lists_repD(1)] by fastforce+

lemma lists_entry:
  assumes "lists_rep m qh X S w" "a \<in> insert qh S" "w a = ys @ n # zs"
  shows "get_next n m = Some (hd (zs @ [a]))" "get_prev n m = Some (last (a # ys))"
    "list_empty n m = Some False"
  using rings_entry [OF lists_repD(1) [OF assms(1)] _ assms(3)] assms(2) by auto

lemma lists_distinct: "lists_rep m qh X S w \<Longrightarrow> a \<in> insert qh S \<Longrightarrow> distinct (w a)"
  using rings_distinct [OF lists_repD(1)] by fastforce

lemma lists_disjoint:
  "lists_rep m qh X S w \<Longrightarrow> a \<in> insert qh S \<Longrightarrow> b \<in> insert qh S \<Longrightarrow> a \<noteq> b \<Longrightarrow> set (w a) \<inter> set (w b) = {}"
  using rings_disjoint [OF lists_repD(1), of m qh X S w a b] by auto

lemma lists_free: "lists_rep m qh X S w \<Longrightarrow> x \<in> X \<Longrightarrow> x \<notin> listed qh S w \<Longrightarrow> list_empty x m = Some True"
  using rings_list_empty [OF lists_repD(1), of m qh X S w x] lists_repD(6) by fastforce

lemma listed_upd:
  assumes "lists_rep m qh X S w" "a \<in> insert qh S"
  shows "listed qh S (w(a := xs)) = (listed qh S w - set (w a)) \<union> set xs"
proof -
  have "set (w b) \<inter> set (w a) = {}" if "b \<in> insert qh S" "b \<noteq> a" for b
    using lists_disjoint [OF assms(1) that(1) assms(2) that(2)] .
  then have "listed qh S w - set (w a) = (\<Union>b\<in>insert qh S - {a}. set (w b))"
    unfolding listed_def by blast
  moreover have "listed qh S (w(a := xs)) = (\<Union>b\<in>insert qh S - {a}. set (w b)) \<union> set xs"
    using assms(2) unfolding listed_def by (fastforce split: if_splits)
  ultimately show ?thesis by simp
qed

lemma lists_add:
  assumes r: "lists_rep m qh X S w" and a: "a \<in> insert qh S" "w a = ys @ zs"
    and n: "n \<in> X" "n \<notin> listed qh S w"
  shows "\<exists>m'. list_add n (last (a # ys)) m = Some m' \<and> lists_rep m' qh X S (w(a := ys @ n # zs))"
    and "\<exists>m'. list_add_tail n (hd (zs @ [a])) m = Some m' \<and> lists_rep m' qh X S (w(a := ys @ n # zs))"
proof -
  let ?H = "insert qh (S \<union> (X - listed qh S w))"
  note D = lists_repD [OF r]
  have nH: "n \<in> ?H" "w n = []" "n \<noteq> a" "a \<in> ?H" using n a(1) D(2-4) D(6) [of n] by auto
  have l: "listed qh S (w(a := ys @ n # zs)) = insert n (listed qh S w)"
    using listed_upd [OF r a(1), of "ys @ n # zs"] a unfolding listed_def by auto
  have H: "?H - {n} = insert qh (S \<union> (X - listed qh S (w(a := ys @ n # zs))))"
    unfolding l using n D(3,4) by auto
  have upd: "lists_rep m' qh X S (w(a := ys @ n # zs))" if "rings m' (?H - {n}) (w(a := ys @ n # zs))" for m'
    using that D(2-5) D(6) a(1) n(1) unfolding lists_rep_def l H by auto
  from rings_add [OF D(1) nH(4) a(2) nH(1-3)] upd
  show "\<exists>m'. list_add n (last (a # ys)) m = Some m' \<and> lists_rep m' qh X S (w(a := ys @ n # zs))"
    "\<exists>m'. list_add_tail n (hd (zs @ [a])) m = Some m' \<and> lists_rep m' qh X S (w(a := ys @ n # zs))" by blast+
qed

lemma lists_del_init:
  assumes r: "lists_rep m qh X S w" and a: "a \<in> insert qh S" "w a = ys @ n # zs"
  shows "\<exists>m'. list_del_init n m = Some m' \<and> lists_rep m' qh X S (w(a := ys @ zs))"
    and "n \<in> X" "n \<notin> listed qh S (w(a := ys @ zs))"
proof -
  let ?H = "insert qh (S \<union> (X - listed qh S w))"
  note D = lists_repD [OF r]
  have d: "n \<notin> set ys" "n \<notin> set zs" using lists_distinct [OF r a(1)] a(2) by auto
  note n = listed_mem [of a qh S w ys n zs, OF a]
  then show nX: "n \<in> X" using D(5) by auto
  have l: "listed qh S (w(a := ys @ zs)) = listed qh S w - {n}"
    using listed_upd [OF r a(1), of "ys @ zs"] a d unfolding listed_def by auto
  then show "n \<notin> listed qh S (w(a := ys @ zs))" by simp
  have H: "insert n ?H = insert qh (S \<union> (X - listed qh S (w(a := ys @ zs))))"
    unfolding l using nX n D(3,4) by auto
  have na: "n \<noteq> a" using nX a(1) D(2-4) by auto
  have W: "w(a := ys @ zs, n := []) = w(a := ys @ zs)" using D(6) [OF nX] na by (auto simp: fun_eq_iff)
  have upd: "lists_rep m' qh X S (w(a := ys @ zs))" if "rings m' (insert n ?H) (w(a := ys @ zs))" for m'
    using that D(2-5) D(6) a(1) unfolding lists_rep_def H by (auto simp: l)
  have "a \<in> ?H" using a(1) by auto
  from rings_del_init [OF D(1) this a(2)] upd show "\<exists>m'. list_del_init n m = Some m' \<and> lists_rep m' qh X S (w(a := ys @ zs))"
    unfolding W by blast
qed

lemma lists_del_init_free:
  assumes "lists_rep m qh X S w" "n \<in> X" "n \<notin> listed qh S w"
  shows "list_del_init n m = Some m"
  using list_del_init_single [OF lists_repD(1) [OF assms(1)], of n] assms lists_repD(6) [OF assms(1)] by auto

lemma lists_rep_cong:
  assumes "lists_rep m qh X S w" "\<And>a. a \<in> insert qh S \<Longrightarrow> w' a = w a" "\<And>x. x \<in> X \<Longrightarrow> w' x = []"
  shows "lists_rep m qh X S w'"
proof -
  have l: "listed qh S w' = listed qh S w" using assms(2) unfolding listed_def by simp
  have "w' a = w a" if "a \<in> insert qh (S \<union> (X - listed qh S w))" for a
    using that assms(2,3) lists_repD(6) [OF assms(1)] by auto
  from rings_cong [of "insert qh (S \<union> (X - listed qh S w))" w' w m, OF this] show ?thesis using assms(1,3) unfolding lists_rep_def l by auto
qed

text \<open>The lists without a request, wherever it was.\<close>

definition wo :: "addr \<Rightarrow> (addr \<Rightarrow> addr list) \<Rightarrow> addr \<Rightarrow> addr list" where
  "wo x w = (\<lambda>a. removeAll x (w a))"

lemma wo_notin [simp]: "x \<notin> set (w a) \<Longrightarrow> wo x w a = w a"
  by (simp add: wo_def)

lemma set_wo [simp]: "set (wo x w a) = set (w a) - {x}"
  by (simp add: wo_def)

lemma wo_append: "w a = ys @ x # zs \<Longrightarrow> distinct (w a) \<Longrightarrow> wo x w a = ys @ zs"
  by (simp add: wo_def removeAll_append)

lemma listed_wo: "listed qh S (wo x w) = listed qh S w - {x}"
  by (auto simp: listed_def)

lemma lists_del:
  assumes r: "lists_rep m qh X S w" and n: "n \<in> X"
  shows "\<exists>m'. list_del_init n m = Some m' \<and> lists_rep m' qh X S (wo n w)"
proof (cases "n \<in> listed qh S w")
  case True
  then obtain a where a: "a \<in> insert qh S" "n \<in> set (w a)" unfolding listed_def by blast
  then obtain ys zs where w: "w a = ys @ n # zs" by (auto dest: split_list)
  from lists_del_init(1) [OF r a(1) w] obtain m' where
    m': "list_del_init n m = Some m'" "lists_rep m' qh X S (w(a := ys @ zs))" by blast
  have "lists_rep m' qh X S (wo n w)"
  proof (rule lists_rep_cong [OF m'(2)])
    show "wo n w b = (w(a := ys @ zs)) b" if b: "b \<in> insert qh S" for b
      using wo_append [of w a ys n zs, OF w lists_distinct [OF r a(1)]] lists_disjoint [OF r a(1) b] a(2)
      by (cases "b = a") (auto intro!: wo_notin)
    show "wo n w x = []" if "x \<in> X" for x using lists_repD(6) [OF r that] by (simp add: wo_def)
  qed
  with m'(1) show ?thesis by blast
next
  case False
  then have "lists_rep m qh X S (wo n w)"
    using lists_repD(6) [OF r] by (intro lists_rep_cong [OF r]) (auto simp: listed_def wo_def)
  with lists_del_init_free [OF r n False] show ?thesis by blast
qed

text \<open>A request is moved behind another one, or to another list.\<close>

lemma lists_move:
  assumes r: "lists_rep m qh X S w" and a: "a \<in> insert qh S" "w a = ys @ n # zs"
    and b: "b \<in> insert qh S" "(w(a := ys @ zs)) b = us @ vs"
  shows "\<exists>m'. list_move n (last (b # us)) m = Some m' \<and> lists_rep m' qh X S (w(a := ys @ zs, b := us @ n # vs))"
proof -
  let ?H = "insert qh (S \<union> (X - listed qh S w))"
  note D = lists_repD [OF r]
  have "a \<in> ?H" "b \<in> ?H" using a(1) b(1) by auto
  from rings_move(1) [OF D(1) this(1) a(2) this(2) b(2)] obtain m' where
    m': "list_move n (last (b # us)) m = Some m'" "rings m' ?H (w(a := ys @ zs, b := us @ n # vs))" by blast
  have d: "n \<notin> set ys" "n \<notin> set zs" using lists_distinct [OF r a(1)] a(2) by auto
  note n = listed_mem [of a qh S w ys n zs, OF a]
  obtain m1 where m1: "lists_rep m1 qh X S (w(a := ys @ zs))" using lists_del_init(1) [OF r a] by blast
  have "listed qh S (w(a := ys @ zs, b := us @ n # vs)) = insert n (listed qh S (w(a := ys @ zs)))"
    using listed_upd [OF m1 b(1), of "us @ n # vs"] listed_sub [OF b(1), of "w(a := ys @ zs)"] b(2) by auto
  also have "\<dots> = listed qh S w"
    using listed_upd [OF r a(1), of "ys @ zs"] listed_sub [OF a(1), of w] a(2) d n by auto
  finally have l: "listed qh S (w(a := ys @ zs, b := us @ n # vs)) = listed qh S w" .
  have "lists_rep m' qh X S (w(a := ys @ zs, b := us @ n # vs))"
    using m'(2) D(2-5) D(6) a(1) b(1) unfolding lists_rep_def l by auto
  with m'(1) show ?thesis by blast
qed

text \<open>
  Of the requests the scheduler holds the set \<open>R\<close>; only these may be in the merge hash or be the
  target of the last merge, and none of them is on the dispatch queue.
\<close>

definition queue_rep ::
  "'d request_queue \<Rightarrow> addr set \<Rightarrow> addr set \<Rightarrow> (addr \<Rightarrow> addr list) \<Rightarrow> addr set \<Rightarrow> bool" where
  "queue_rep q X S w R \<longleftrightarrow> lists_rep (q_lists q) (queue_head q) X S w \<and>
     X \<subseteq> dom (q_reqs q) \<and> X \<subseteq> dom (q_nodes q) \<and> (\<forall>x\<in>X. x \<noteq> NULL \<and> aligned4 x) \<and>
     R \<subseteq> X - set (w (queue_head q)) \<and>
     (\<exists>B. hash_rep (q_hash q) B X \<and> (\<forall>i. set (B i) \<subseteq> R)) \<and>
     last_merge q \<in> insert NULL R"

text \<open>
  What a scheduler leaves alone in a queue, and what it leaves alone in its requests: all but
  the expiry time.
\<close>

definition same_queue :: "'d request_queue \<Rightarrow> 'd request_queue \<Rightarrow> bool" where
  "same_queue q q' \<longleftrightarrow> queue_head q' = queue_head q \<and> q_bios q' = q_bios q \<and> jiffies q' = jiffies q \<and>
     queue_flags q' = queue_flags q \<and> in_flight q' = in_flight q \<and> rq_count q' = rq_count q \<and>
     unplug_thresh q' = unplug_thresh q \<and> ordcolor q' = ordcolor q \<and> ordseq q' = ordseq q \<and>
     pre_flush_rq q' = pre_flush_rq q \<and> bar_rq q' = bar_rq q \<and> post_flush_rq q' = post_flush_rq q \<and>
     orig_bar_rq q' = orig_bar_rq q"

definition untimed :: "request option \<Rightarrow> request option" where
  "untimed r = map_option (\<lambda>r. r\<lparr>fifo_time := 0\<rparr>) r"

definition same_reqs :: "(addr \<rightharpoonup> request) \<Rightarrow> (addr \<rightharpoonup> request) \<Rightarrow> bool" where
  "same_reqs m m' \<longleftrightarrow> (\<forall>x. untimed (m' x) = untimed (m x))"

lemma same_queue_refl [simp]: "same_queue q q"
  and same_queue_trans: "same_queue q q' \<Longrightarrow> same_queue q' q'' \<Longrightarrow> same_queue q q''"
  by (auto simp: same_queue_def)

lemma same_queue_simps [simp]:
  "same_queue (q\<lparr>q_lists := v0\<rparr>) q' = same_queue q q'" "same_queue q (q'\<lparr>q_lists := v0\<rparr>) = same_queue q q'"
  "same_queue (q\<lparr>q_nodes := v1\<rparr>) q' = same_queue q q'" "same_queue q (q'\<lparr>q_nodes := v1\<rparr>) = same_queue q q'"
  "same_queue (q\<lparr>q_hash := v2\<rparr>) q' = same_queue q q'" "same_queue q (q'\<lparr>q_hash := v2\<rparr>) = same_queue q q'"
  "same_queue (q\<lparr>q_reqs := v3\<rparr>) q' = same_queue q q'" "same_queue q (q'\<lparr>q_reqs := v3\<rparr>) = same_queue q q'"
  "same_queue (q\<lparr>last_merge := v4\<rparr>) q' = same_queue q q'" "same_queue q (q'\<lparr>last_merge := v4\<rparr>) = same_queue q q'"
  "same_queue (q\<lparr>end_sector := v5\<rparr>) q' = same_queue q q'" "same_queue q (q'\<lparr>end_sector := v5\<rparr>) = same_queue q q'"
  "same_queue (q\<lparr>boundary_rq := v6\<rparr>) q' = same_queue q q'" "same_queue q (q'\<lparr>boundary_rq := v6\<rparr>) = same_queue q q'"
  "same_queue (q\<lparr>nr_sorted := v7\<rparr>) q' = same_queue q q'" "same_queue q (q'\<lparr>nr_sorted := v7\<rparr>) = same_queue q q'"
  "same_queue (q\<lparr>elevator_data := v8\<rparr>) q' = same_queue q q'" "same_queue q (q'\<lparr>elevator_data := v8\<rparr>) = same_queue q q'"
  by (simp_all add: same_queue_def)

lemma same_reqs_refl [simp]: "same_reqs m m"
  and same_reqs_trans: "same_reqs m m' \<Longrightarrow> same_reqs m' m'' \<Longrightarrow> same_reqs m m''"
  by (auto simp: same_reqs_def)

lemma same_reqs_fifo_time: "m x = Some r \<Longrightarrow> same_reqs m (m(x \<mapsto> r\<lparr>fifo_time := t\<rparr>))"
  by (auto simp: same_reqs_def untimed_def)

lemma same_reqs_Some:
  assumes "same_reqs m m'" "m x = Some r"
  obtains r' where "m' x = Some r'" "blk_rq_pos r' = blk_rq_pos r" "cmd_flags r' = cmd_flags r"
proof -
  have "untimed (m' x) = untimed (m x)" using assms(1) by (simp add: same_reqs_def)
  then obtain r' where "m' x = Some r'" "r'\<lparr>fifo_time := 0\<rparr> = r\<lparr>fifo_time := 0\<rparr>"
    using assms(2) by (auto simp: untimed_def)
  moreover from this(2) have "sector r' = sector r" "cmd_flags r' = cmd_flags r" by (cases r; cases r'; simp)+
  ultimately show thesis using that by (auto simp: blk_rq_pos_def)
qed

lemma same_reqs_sym: "same_reqs m m' \<Longrightarrow> same_reqs m' m"
  by (simp add: same_reqs_def)

lemma same_reqs_dom: "same_reqs m m' \<Longrightarrow> dom m' = dom m"
proof -
  assume "same_reqs m m'"
  then have "m' x = None \<longleftrightarrow> m x = None" for x by (metis map_option_is_None same_reqs_def untimed_def)
  then show ?thesis by (simp add: set_eq_iff domIff)
qed

lemma same_reqs_pos: "same_reqs m m' \<Longrightarrow> pos_of m' = pos_of m"
proof
  fix x assume s: "same_reqs m m'"
  show "pos_of m' x = pos_of m x"
  proof (cases "m x")
    case None
    then show ?thesis using same_reqs_dom [OF s] by (auto simp: pos_of_def domIff split: option.splits)
  next
    case (Some r)
    then show ?thesis by (rule same_reqs_Some [OF s]) (simp add: pos_of_def Some)
  qed
qed

lemma same_reqs_sorted: "same_reqs m m' \<Longrightarrow> pos_sorted m' = pos_sorted m"
  by (auto simp: pos_sorted_def fun_eq_iff same_reqs_dom same_reqs_pos)

section \<open>The merge hash\<close>

lemma ELV_ON_HASH_rep:
  "hash_rep (q_hash q) B X \<Longrightarrow> rq \<in> X \<Longrightarrow> ELV_ON_HASH rq q = Some (\<exists>i. rq \<in> set (B i))"
  by (simp add: ELV_ON_HASH_def hash_rep_unhashed)

lemma elv_rqhash_del_entry_rep:
  assumes h: "hash_rep (q_hash q) B X" and rq: "rq \<in> X"
  shows "\<exists>m. elv_rqhash_del_entry rq q = Some (q\<lparr>q_hash := m\<rparr>) \<and> hash_rep m (\<lambda>i. removeAll rq (B i)) X"
proof (cases "\<exists>i. rq \<in> set (B i)")
  case True
  then obtain i xs ys where i: "B i = xs @ rq # ys" by (meson split_list)
  from hash_rep_del_init [OF h i] obtain m where
    m: "hlist_del_init rq (q_hash q) = Some m" "hash_rep m (B(i := xs @ ys)) X" by blast
  have "rq \<notin> set xs" "rq \<notin> set ys" using hash_repD(2) [OF h, of i] i by auto
  moreover have "rq \<notin> set (B j)" if "j \<noteq> i" for j using hash_repD(4) [OF h that] i by auto
  ultimately have "B(i := xs @ ys) = (\<lambda>i. removeAll rq (B i))" using i by (auto simp: fun_eq_iff)
  with m show ?thesis by (auto simp: elv_rqhash_del_entry_def on_hash_def)
next
  case False
  then have "hlist_del_init rq (q_hash q) = Some (q_hash q)" "(\<lambda>i. removeAll rq (B i)) = B"
    using hlist_del_init_unhashed [OF h rq] by (auto simp: fun_eq_iff)
  with h show ?thesis
    by (intro exI [of _ "q_hash q"]) (simp add: elv_rqhash_del_entry_def on_hash_def)
qed

lemma elv_rqhash_del_rep:
  assumes h: "hash_rep (q_hash q) B X" and rq: "rq \<in> X"
  shows "\<exists>m. elv_rqhash_del rq q = Some (q\<lparr>q_hash := m\<rparr>) \<and> hash_rep m (\<lambda>i. removeAll rq (B i)) X"
proof (cases "\<exists>i. rq \<in> set (B i)")
  case True
  then show ?thesis
    using elv_rqhash_del_entry_rep [OF assms] ELV_ON_HASH_rep [OF assms] by (auto simp: elv_rqhash_del_def)
next
  case False
  then have "(\<lambda>i. removeAll rq (B i)) = B" by (auto simp: fun_eq_iff)
  with False h ELV_ON_HASH_rep [OF assms] show ?thesis
    by (intro exI [of _ "q_hash q"]) (simp add: elv_rqhash_del_def)
qed

lemma elv_rqhash_add_rep:
  assumes h: "hash_rep (q_hash q) B X" and rq: "rq \<in> X" "\<forall>i. rq \<notin> set (B i)" and r: "q_reqs q rq = Some r"
  defines "i \<equiv> ELV_HASH_FN (rq_hash_key r)"
  shows "\<exists>m. elv_rqhash_add rq q = Some (q\<lparr>q_hash := m\<rparr>) \<and> hash_rep m (B(i := rq # B i)) X"
  using hash_rep_add_head [OF h rq, of i] ELV_ON_HASH_rep [OF h rq(1)] rq(2) r
  by (auto simp: elv_rqhash_add_def on_hash_def i_def)


section \<open>Operations on one request\<close>

lemma queue_repD:
  assumes "queue_rep q X S w R"
  shows "lists_rep (q_lists q) (queue_head q) X S w" "X \<subseteq> dom (q_reqs q)" "X \<subseteq> dom (q_nodes q)"
    "x \<in> X \<Longrightarrow> x \<noteq> NULL" "x \<in> X \<Longrightarrow> aligned4 x" "R \<subseteq> X" "R \<inter> set (w (queue_head q)) = {}"
    "last_merge q \<in> insert NULL R"
  using assms unfolding queue_rep_def by auto

lemma queue_rep_hash:
  assumes "queue_rep q X S w R"
  obtains B where "hash_rep (q_hash q) B X" "\<And>i. set (B i) \<subseteq> R"
  using assms unfolding queue_rep_def by blast

lemma queue_rep_req:
  assumes "queue_rep q X S w R" "x \<in> X"
  obtains r where "q_reqs q x = Some r"
  using assms queue_repD(2) by fastforce

lemma queue_rep_simps [simp]:
  "queue_rep (q\<lparr>elevator_data := d\<rparr>) X S w R = queue_rep q X S w R"
  "queue_rep (q\<lparr>nr_sorted := n\<rparr>) X S w R = queue_rep q X S w R"
  "queue_rep (q\<lparr>end_sector := e\<rparr>) X S w R = queue_rep q X S w R"
  "queue_rep (q\<lparr>boundary_rq := b\<rparr>) X S w R = queue_rep q X S w R"
  "queue_rep (q\<lparr>jiffies := j\<rparr>) X S w R = queue_rep q X S w R"
  "queue_rep (q\<lparr>queue_flags := f\<rparr>) X S w R = queue_rep q X S w R"
  "queue_rep (q\<lparr>ordcolor := c\<rparr>) X S w R = queue_rep q X S w R"
  "queue_rep (q\<lparr>in_flight := i\<rparr>) X S w R = queue_rep q X S w R"
  "dom m = dom (q_reqs q) \<Longrightarrow> queue_rep (q\<lparr>q_reqs := m\<rparr>) X S w R = queue_rep q X S w R"
  by (simp_all add: queue_rep_def)

lemma queue_rep_nodes: "queue_rep q X S w R \<Longrightarrow> X \<subseteq> dom ns \<Longrightarrow> queue_rep (q\<lparr>q_nodes := ns\<rparr>) X S w R"
  by (simp add: queue_rep_def)

lemma queue_rep_lists:
  assumes "queue_rep q X S w R" "lists_rep m (queue_head q) X S w'" "R \<inter> set (w' (queue_head q)) = {}"
  shows "queue_rep (q\<lparr>q_lists := m\<rparr>) X S w' R"
  using assms unfolding queue_rep_def by auto

lemma queue_rep_add_tail:
  assumes q: "queue_rep q X S w R" and a: "a \<in> S" and n: "n \<in> X" "n \<notin> listed (queue_head q) S w"
  shows "\<exists>m. list_add_tail n a (q_lists q) = Some m \<and> queue_rep (q\<lparr>q_lists := m\<rparr>) X S (w(a := w a @ [n])) R"
proof -
  note D = queue_repD [OF q]
  have a': "a \<in> insert (queue_head q) S" "w a = w a @ []" using a by auto
  from lists_add(2) [OF D(1) a' n] obtain m where
    m: "list_add_tail n a (q_lists q) = Some m" "lists_rep m (queue_head q) X S (w(a := w a @ [n]))" by auto
  have "queue_head q \<noteq> a" using lists_repD(2) [OF D(1)] a by auto
  then have "queue_rep (q\<lparr>q_lists := m\<rparr>) X S (w(a := w a @ [n])) R"
    using D(7) by (intro queue_rep_lists [OF q m(2)]) auto
  with m(1) show ?thesis by blast
qed

lemma queue_rep_del:
  assumes q: "queue_rep q X S w R" and n: "n \<in> X"
  shows "\<exists>m. list_del_init n (q_lists q) = Some m \<and> queue_rep (q\<lparr>q_lists := m\<rparr>) X S (wo n w) R"
proof -
  note D = queue_repD [OF q]
  from lists_del [OF D(1) n] obtain m where
    m: "list_del_init n (q_lists q) = Some m" "lists_rep m (queue_head q) X S (wo n w)" by blast
  have "queue_rep (q\<lparr>q_lists := m\<rparr>) X S (wo n w) R"
    using D(7) by (intro queue_rep_lists [OF q m(2)]) auto
  with m(1) show ?thesis by blast
qed

lemma rq_fifo_clear_rep:
  assumes q: "queue_rep q X S w R" and n: "n \<in> X" and r: "q_reqs q n = Some r"
  shows "\<exists>m. rq_fifo_clear n q = Some (q\<lparr>q_lists := m, q_reqs := (q_reqs q)(n \<mapsto> r\<lparr>fifo_time := n + 8\<rparr>)\<rparr>) \<and>
    queue_rep (q\<lparr>q_lists := m, q_reqs := (q_reqs q)(n \<mapsto> r\<lparr>fifo_time := n + 8\<rparr>)\<rparr>) X S (wo n w) R"
proof -
  from queue_rep_del [OF q n] obtain m where
    m: "list_del_init n (q_lists q) = Some m" "queue_rep (q\<lparr>q_lists := m\<rparr>) X S (wo n w) R" by blast
  have "dom ((q_reqs q)(n \<mapsto> r\<lparr>fifo_time := n + 8\<rparr>)) = dom (q_reqs q)" using r by auto
  then have "queue_rep (q\<lparr>q_lists := m, q_reqs := (q_reqs q)(n \<mapsto> r\<lparr>fifo_time := n + 8\<rparr>)\<rparr>) X S (wo n w) R"
    using m(2) by simp
  with m(1) r show ?thesis by (intro exI [of _ m]) (simp add: rq_fifo_clear_def on_lists_def on_req_def write_at_Some)
qed

text \<open>Taking a request out of the merge hash and out of the one-hit cache.\<close>

lemma forget_rep:
  assumes q: "queue_rep q X S w R" and n: "n \<in> X"
  shows "\<exists>m. elv_rqhash_del n (forget_last_merge n q) =
      Some (q\<lparr>q_hash := m, last_merge := if last_merge q = n then NULL else last_merge q\<rparr>) \<and>
    queue_rep (q\<lparr>q_hash := m, last_merge := if last_merge q = n then NULL else last_merge q\<rparr>) X S w (R - {n})"
proof -
  note D = queue_repD [OF q]
  obtain B where B: "hash_rep (q_hash q) B X" "\<And>i. set (B i) \<subseteq> R" by (rule queue_rep_hash [OF q]) blast
  let ?q = "forget_last_merge n q"
  have f: "?q = q\<lparr>last_merge := if last_merge q = n then NULL else last_merge q\<rparr>"
    by (simp add: forget_last_merge_def)
  have "hash_rep (q_hash ?q) B X" using B(1) by (simp add: f)
  from elv_rqhash_del_rep [OF this n] obtain m where
    m: "elv_rqhash_del n ?q = Some (?q\<lparr>q_hash := m\<rparr>)" "hash_rep m (\<lambda>i. removeAll n (B i)) X" by blast
  have "\<exists>B. hash_rep m B X \<and> (\<forall>i. set (B i) \<subseteq> R - {n})"
    using m(2) B(2) by (intro exI [of _ "\<lambda>i. removeAll n (B i)"]) auto
  with q have "queue_rep (q\<lparr>q_hash := m, last_merge := if last_merge q = n then NULL else last_merge q\<rparr>) X S w (R - {n})"
    unfolding queue_rep_def by auto
  with m(1) show ?thesis by (intro exI [of _ m]) (simp add: f)
qed

text \<open>Moving a request that is on no list to the end of the dispatch queue.\<close>

lemma elv_dispatch_add_tail_rep:
  assumes q: "queue_rep q X S w R" and n: "n \<in> X" "n \<notin> listed (queue_head q) S w"
  shows "\<exists>q'. elv_dispatch_add_tail n q = Some q' \<and>
    queue_rep q' X S (w(queue_head q := w (queue_head q) @ [n])) (R - {n}) \<and> nr_sorted q' = nr_sorted q - 1 \<and>
    elevator_data q' = elevator_data q \<and> q_nodes q' = q_nodes q \<and> q_reqs q' = q_reqs q \<and> same_queue q q'"
proof -
  let ?q = "\<lambda>m. q\<lparr>q_hash := m, last_merge := if last_merge q = n then NULL else last_merge q\<rparr>"
  from forget_rep [OF q n(1)] obtain m where
    m: "elv_rqhash_del n (forget_last_merge n q) = Some (?q m)" "queue_rep (?q m) X S w (R - {n})" by blast
  obtain r where r: "q_reqs q n = Some r" by (rule queue_rep_req [OF q n(1)])
  note D = queue_repD [OF m(2)]
  have l: "lists_rep (q_lists q) (queue_head q) X S w" using D(1) by simp
  from lists_add(2) [OF l, of "queue_head q" "w (queue_head q)" "[]"] n obtain ml where
    ml: "list_add_tail n (queue_head q) (q_lists q) = Some ml"
      "lists_rep ml (queue_head q) X S (w(queue_head q := w (queue_head q) @ [n]))" by auto
  let ?q' = "(?q m)\<lparr>nr_sorted := nr_sorted q - 1, end_sector := rq_end_sector r, boundary_rq := n, q_lists := ml\<rparr>"
  have "elv_dispatch_add_tail n q = Some ?q'"
    using m(1) r ml(1) by (simp add: elv_dispatch_add_tail_def on_lists_def)
  moreover have "queue_rep ((?q m)\<lparr>q_lists := ml\<rparr>) X S (w(queue_head q := w (queue_head q) @ [n])) (R - {n})"
    using ml(2) D(7) by (intro queue_rep_lists [OF m(2)]) auto
  then have "queue_rep ?q' X S (w(queue_head q := w (queue_head q) @ [n])) (R - {n})"
    by (simp add: queue_rep_def)
  ultimately show ?thesis by (intro exI [of _ ?q']) (simp add: same_queue_def)
qed

text \<open>
  The backward walk of \<open>elv_dispatch_sort\<close> passes the requests at the end of the dispatch queue at
  which it does not stop; the new request goes before them.
\<close>

definition passed :: "'d request_queue \<Rightarrow> request \<Rightarrow> addr \<Rightarrow> bool" where
  "passed q r x \<longleftrightarrow> (case q_reqs q x of Some p \<Rightarrow> \<not> dispatch_stops (end_sector q) r p | None \<Rightarrow> False)"

definition sort_in :: "'d request_queue \<Rightarrow> addr \<Rightarrow> addr list \<Rightarrow> addr list" where
  "sort_in q n xs = (case q_reqs q n of
       Some r \<Rightarrow> rev (dropWhile (passed q r) (rev xs)) @ n # rev (takeWhile (passed q r) (rev xs))
     | None \<Rightarrow> xs)"

lemma elv_dispatch_sort_walk_rep:
  assumes l: "lists_rep (q_lists q) (queue_head q) X S w" and X: "X \<subseteq> dom (q_reqs q)"
  shows "w (queue_head q) = xs @ zs \<Longrightarrow> elv_dispatch_sort_walk (end_sector q) r (last (queue_head q # xs)) q =
    Some (last (queue_head q # rev (dropWhile (passed q r) (rev xs))))"
proof (induction xs arbitrary: zs rule: rev_induct)
  case Nil
  then show ?case by (subst elv_dispatch_sort_walk.simps) simp
next
  case (snoc x xs)
  have w: "w (queue_head q) = xs @ x # zs" using snoc.prems by simp
  note e = lists_entry [OF l _ w]
  have x: "x \<in> X" using listed_mem [of "queue_head q" "queue_head q" S w xs x zs] w lists_repD(5) [OF l] by auto
  then obtain p where p: "q_reqs q x = Some p" using X by blast
  have "x \<noteq> queue_head q" using x lists_repD(3) [OF l] by auto
  moreover have "elv_dispatch_sort_walk (end_sector q) r (last (queue_head q # xs)) q =
      Some (last (queue_head q # rev (dropWhile (passed q r) (rev xs))))"
    using snoc.IH [of "x # zs"] w by simp
  ultimately show ?case
    using p e(2) by (subst elv_dispatch_sort_walk.simps) (auto simp: passed_def)
qed

lemma elv_dispatch_sort_rep:
  assumes q: "queue_rep q X S w R" and n: "n \<in> X" "n \<notin> listed (queue_head q) S w"
  shows "\<exists>q'. elv_dispatch_sort n q = Some q' \<and>
    queue_rep q' X S (w(queue_head q := sort_in q n (w (queue_head q)))) (R - {n}) \<and> nr_sorted q' = nr_sorted q - 1 \<and>
    elevator_data q' = elevator_data q \<and> q_nodes q' = q_nodes q \<and> q_reqs q' = q_reqs q \<and> same_queue q q' \<and>
    end_sector q' = end_sector q"
proof -
  let ?q = "\<lambda>m. q\<lparr>q_hash := m, last_merge := if last_merge q = n then NULL else last_merge q\<rparr>"
  from forget_rep [OF q n(1)] obtain m where
    m: "elv_rqhash_del n (forget_last_merge n q) = Some (?q m)" "queue_rep (?q m) X S w (R - {n})" by blast
  obtain r where r: "q_reqs q n = Some r" by (rule queue_rep_req [OF q n(1)])
  note D = queue_repD [OF m(2)]
  have l: "lists_rep (q_lists q) (queue_head q) X S w" using D(1) by simp
  let ?xs = "w (queue_head q)"
  let ?ys = "rev (dropWhile (passed q r) (rev ?xs))" and ?zs = "rev (takeWhile (passed q r) (rev ?xs))"
  let ?q1 = "(?q m)\<lparr>nr_sorted := nr_sorted q - 1\<rparr>"
  have s: "?xs = ?ys @ ?zs" by (metis rev_append rev_rev_ident takeWhile_dropWhile_id)
  have p: "passed ?q1 r = passed q r" by (auto simp: passed_def fun_eq_iff split: option.splits)
  have "elv_dispatch_sort_walk (end_sector ?q1) r (last (queue_head ?q1 # ?xs)) ?q1 =
      Some (last (queue_head ?q1 # rev (dropWhile (passed ?q1 r) (rev ?xs))))"
    by (rule elv_dispatch_sort_walk_rep [where X = X and S = S and w = w and zs = "[]"])
      (use l D(2) in simp_all)
  then have walk: "elv_dispatch_sort_walk (end_sector q) r (last (queue_head q # ?xs)) ?q1 =
      Some (last (queue_head q # ?ys))" unfolding p by simp
  from lists_add(1) [OF l _ s n] obtain ml where
    ml: "list_add n (last (queue_head q # ?ys)) (q_lists q) = Some ml"
      "lists_rep ml (queue_head q) X S (w(queue_head q := ?ys @ n # ?zs))" by auto
  let ?q' = "?q1\<lparr>q_lists := ml\<rparr>"
  have "get_prev (queue_head q) (q_lists q) = Some (last (queue_head q # ?xs))" using lists_last [OF l] by simp
  then have "elv_dispatch_sort n q = Some ?q'"
    using m(1) r ml(1) walk by (simp add: elv_dispatch_sort_def on_lists_def Let_def)
  moreover have "set ?xs = set ?ys \<union> set ?zs" by (subst s) simp
  then have "queue_rep ((?q m)\<lparr>q_lists := ml\<rparr>) X S (w(queue_head q := ?ys @ n # ?zs)) (R - {n})"
    using ml(2) D(7) by (intro queue_rep_lists [OF m(2)]) auto
  then have "queue_rep ?q' X S (w(queue_head q := sort_in q n ?xs)) (R - {n})"
    using r by (simp add: queue_rep_def sort_in_def)
  ultimately show ?thesis by (intro exI [of _ ?q']) (simp add: same_queue_def)
qed

lemma mset_sort_in: "n \<in> dom (q_reqs q) \<Longrightarrow> mset (sort_in q n xs) = add_mset n (mset xs)"
proof -
  assume "n \<in> dom (q_reqs q)"
  moreover have "mset (dropWhile P ys) + mset (takeWhile P ys) = mset ys" for P and ys :: "addr list"
    by (metis mset_append takeWhile_dropWhile_id union_commute)
  ultimately show ?thesis by (auto simp: sort_in_def)
qed

text \<open>A request that inherits the expiry time of another one goes to the place behind it.\<close>

fun insert_after :: "addr \<Rightarrow> addr \<Rightarrow> addr list \<Rightarrow> addr list" where
  "insert_after y x [] = []"
| "insert_after y x (z # zs) = (if z = y then z # x # zs else z # insert_after y x zs)"

lemma insert_after_append [simp]: "y \<notin> set us \<Longrightarrow> insert_after y x (us @ y # vs) = us @ y # x # vs"
  by (induction us) auto

lemma insert_after_notin [simp]: "y \<notin> set us \<Longrightarrow> insert_after y x us = us"
  by (induction us) auto

lemma set_insert_after: "set (insert_after y x us) = (if y \<in> set us then insert x (set us) else set us)"
  by (induction us) auto

definition inherit :: "addr \<Rightarrow> addr \<Rightarrow> (addr \<Rightarrow> addr list) \<Rightarrow> addr \<Rightarrow> addr list" where
  "inherit n n' w = (\<lambda>a. insert_after n' n (wo n w a))"

lemma set_inherit: "n \<noteq> n' \<Longrightarrow> set (inherit n n' w a) = (if n' \<in> set (w a) then insert n (set (w a)) else set (w a) - {n})"
  by (auto simp: inherit_def set_insert_after)

lemma lists_move_after:
  assumes r: "lists_rep m qh X S w" and a: "a \<in> insert qh S" "n \<in> set (w a)"
    and b: "b \<in> insert qh S" "n' \<in> set (w b)" and nn: "n \<noteq> n'"
  shows "\<exists>m'. list_move n n' m = Some m' \<and> lists_rep m' qh X S (inherit n n' w)"
proof -
  obtain ys zs where w: "w a = ys @ n # zs" using a(2) by (auto dest: split_list)
  note wa = wo_append [of w a ys n zs, OF w lists_distinct [OF r a(1)]]
  have wo_other: "wo n w c = w c" if "c \<in> insert qh S" "c \<noteq> a" for c
    using lists_disjoint [OF r a(1) that(1)] that(2) a(2) by (intro wo_notin) auto
  have W: "(w(a := ys @ zs)) c = wo n w c" if "c \<in> insert qh S" for c
    using wa wo_other [OF that] by auto
  have "n' \<in> set (wo n w b)" using b(2) nn by simp
  then obtain us vs where u: "wo n w b = us @ n' # vs" by (meson split_list)
  obtain m1 where m1: "lists_rep m1 qh X S (wo n w)"
    using lists_del [OF r] lists_repD(5) [OF r] a unfolding listed_def by blast
  have d: "n' \<notin> set us" "n' \<notin> set vs" using lists_distinct [OF m1 b(1)] u by auto
  have "(w(a := ys @ zs)) b = (us @ [n']) @ vs" using W [OF b(1)] u by simp
  from lists_move [OF r a(1) w b(1) this] obtain m' where
    m': "list_move n n' m = Some m'" "lists_rep m' qh X S (w(a := ys @ zs, b := us @ n' # n # vs))" by auto
  have "lists_rep m' qh X S (inherit n n' w)"
  proof (rule lists_rep_cong [OF m'(2)])
    show "inherit n n' w c = (w(a := ys @ zs, b := us @ n' # n # vs)) c" if c: "c \<in> insert qh S" for c
    proof (cases "c = b")
      case True
      then show ?thesis using u d by (simp add: inherit_def)
    next
      case False
      then have "n' \<notin> set (wo n w c)" using lists_disjoint [OF m1 b(1) c] u by auto
      then show ?thesis using False W [OF c] by (simp add: inherit_def)
    qed
    show "inherit n n' w x = []" if "x \<in> X" for x
      using lists_repD(6) [OF r that] by (simp add: inherit_def wo_def)
  qed
  with m'(1) show ?thesis by blast
qed

lemma fifo_inherit_rep:
  assumes q: "queue_rep q X S w R" and n: "n \<in> R" "n' \<in> R" "n \<noteq> n'"
  shows "\<exists>q' w'. fifo_inherit n n' q = Some q' \<and> queue_rep q' X S w' R \<and>
    (w' = w \<or> w' = inherit n n' w \<and> n \<in> listed (queue_head q) S w \<and> n' \<in> listed (queue_head q) S w) \<and>
    elevator_data q' = elevator_data q \<and> q_nodes q' = q_nodes q \<and> same_reqs (q_reqs q) (q_reqs q') \<and>
    nr_sorted q' = nr_sorted q \<and> same_queue q q'"
proof -
  note D = queue_repD [OF q]
  have nX: "n \<in> X" "n' \<in> X" using n D(6) by auto
  have out: "n \<notin> set (w (queue_head q))" "n' \<notin> set (w (queue_head q))" using n D(7) by auto
  obtain r where r: "q_reqs q n = Some r" by (rule queue_rep_req [OF q nX(1)])
  obtain r' where r': "q_reqs q n' = Some r'" by (rule queue_rep_req [OF q nX(2)])
  have emp: "list_empty x (q_lists q) = Some (x \<notin> listed (queue_head q) S w)" if "x \<in> X" for x
  proof (cases "x \<in> listed (queue_head q) S w")
    case True
    then obtain a where a: "a \<in> insert (queue_head q) S" "x \<in> set (w a)" unfolding listed_def by blast
    then obtain ys zs where "w a = ys @ x # zs" by (auto dest: split_list)
    from lists_entry(3) [OF D(1) a(1) this] True show ?thesis by simp
  next
    case False
    with lists_free [OF D(1) that] show ?thesis by simp
  qed
  show ?thesis
  proof (cases "n \<in> listed (queue_head q) S w \<and> n' \<in> listed (queue_head q) S w \<and> time_before (fifo_time r') (fifo_time r)")
    case True
    then obtain a b where ab: "a \<in> insert (queue_head q) S" "n \<in> set (w a)" "b \<in> insert (queue_head q) S" "n' \<in> set (w b)"
      unfolding listed_def by blast
    from lists_move_after [OF D(1) ab n(3)] obtain m where
      m: "list_move n n' (q_lists q) = Some m" "lists_rep m (queue_head q) X S (inherit n n' w)" by blast
    let ?q = "q\<lparr>q_lists := m, q_reqs := (q_reqs q)(n \<mapsto> r\<lparr>fifo_time := fifo_time r'\<rparr>)\<rparr>"
    have "fifo_inherit n n' q = Some ?q"
      using True emp [OF nX(1)] emp [OF nX(2)] r r' m(1)
      by (simp add: fifo_inherit_def on_lists_def rq_set_fifo_time_def on_req_def write_at_Some)
    moreover have "queue_rep (q\<lparr>q_lists := m\<rparr>) X S (inherit n n' w) R"
      using D(7) out by (intro queue_rep_lists [OF q m(2)]) (auto simp: set_inherit [OF n(3)])
    then have "queue_rep ?q X S (inherit n n' w) R" using r by (subst queue_rep_simps) auto
    ultimately show ?thesis using same_reqs_fifo_time [of "q_reqs q" n r "fifo_time r'", OF r] True
      by (intro exI [of _ ?q] exI [of _ "inherit n n' w"]) (simp add: same_queue_def)
  next
    case False
    then have "fifo_inherit n n' q = Some q"
      using emp [OF nX(1)] emp [OF nX(2)] r r' by (auto simp: fifo_inherit_def)
    then show ?thesis using q by auto
  qed
qed

lemma rq_set_fifo_time_rep:
  assumes "q_reqs q n = Some r"
  shows "rq_set_fifo_time n t q = Some (q\<lparr>q_reqs := (q_reqs q)(n \<mapsto> r\<lparr>fifo_time := t\<rparr>)\<rparr>)"
  using assms by (simp add: rq_set_fifo_time_def on_req_def write_at_Some)

end
