(* ===== verification/Elevator_Hash.thy ===== *)
theory Elevator_Hash
  imports Elevator_Queue
begin

text \<open>
  The merge hash of \<open>block/elevator.c\<close>: what a lookup finds, and that the operations keep every
  request in the chain of its key.
\<close>

section \<open>Searching a chain\<close>

text \<open>
  What a lookup makes of a chain: the first mergeable request with the wanted key, and the chain without
  the requests in front of it that can no longer be merged.
\<close>

definition mergeable :: "(addr \<rightharpoonup> request) \<Rightarrow> addr \<Rightarrow> bool" where
  "mergeable m x \<longleftrightarrow> (case m x of Some r \<Rightarrow> rq_mergeable r | None \<Rightarrow> False)"

definition key_of :: "(addr \<rightharpoonup> request) \<Rightarrow> addr \<Rightarrow> sector_t" where
  "key_of m x = (case m x of Some r \<Rightarrow> rq_hash_key r | None \<Rightarrow> 0)"

fun chain_find :: "(addr \<rightharpoonup> request) \<Rightarrow> sector_t \<Rightarrow> addr list \<Rightarrow> addr \<times> addr list" where
  "chain_find m off [] = (NULL, [])"
| "chain_find m off (x # xs) =
     (if \<not> mergeable m x then chain_find m off xs
      else if key_of m x = off then (x, x # xs)
      else map_prod id ((#) x) (chain_find m off xs))"

lemma chain_find_hit:
  "(\<exists>y\<in>set xs. mergeable m y \<and> key_of m y = off) \<Longrightarrow>
    fst (chain_find m off xs) \<in> set xs \<and> mergeable m (fst (chain_find m off xs)) \<and> key_of m (fst (chain_find m off xs)) = off"
  and chain_find_miss: "\<not> (\<exists>y\<in>set xs. mergeable m y \<and> key_of m y = off) \<Longrightarrow> fst (chain_find m off xs) = NULL"
  by (induction xs) auto

lemma chain_find_left:
  "set (snd (chain_find m off xs)) \<subseteq> set xs" "\<forall>y\<in>set xs - set (snd (chain_find m off xs)). \<not> mergeable m y"
  by (induction xs) auto

lemma hash_rep_entry:
  assumes h: "hash_rep m B X" and B: "B i = ys @ x # zs"
  shows "read_ref (HNext x) m = Some (first_of zs)" "hlist_unhashed x m = Some False" "x \<in> X"
proof -
  have c: "hchain (refs m) (pprevs m) (HFirst i) (ys @ x # zs)" using hash_repD(1) [OF h, of i] B by simp
  then show "read_ref (HNext x) m = Some (first_of zs)" using hchain_middle [OF c] by (simp add: read_ref_refs)
  have x: "x \<in> set (B i)" using B by simp
  then show "x \<in> X" using hash_repD(3) [OF h] by blast
  with hash_rep_unhashed [OF h] x show "hlist_unhashed x m = Some False" by auto
qed

lemma elv_rqhash_find_loop_rep:
  assumes "hash_rep (q_hash q) B X" "X \<subseteq> dom (q_reqs q)" "B i = ys @ zs"
  shows "\<exists>m. elv_rqhash_find_loop (first_of zs) off q = Some (fst (chain_find (q_reqs q) off zs), q\<lparr>q_hash := m\<rparr>) \<and>
    hash_rep m (B(i := ys @ snd (chain_find (q_reqs q) off zs))) X"
  using assms
proof (induction zs arbitrary: q B ys)
  case Nil
  then have "B(i := ys) = B" by auto
  then show ?case using Nil
    by (intro exI [of _ "q_hash q"]) (subst elv_rqhash_find_loop.simps, simp add: first_of_def)
next
  case (Cons x zs)
  note e = hash_rep_entry [OF Cons.prems(1,3)]
  have x0: "x \<noteq> NULL" using hash_repD(5) [OF Cons.prems(1) e(3)] by blast
  obtain r where r: "q_reqs q x = Some r" using e(3) Cons.prems(2) by blast
  have step: "elv_rqhash_find_loop (first_of (x # zs)) off q =
      (if \<not> rq_mergeable r then do {
          q \<leftarrow> elv_rqhash_del_entry x q;
          elv_rqhash_find_loop (first_of zs) off q }
        else if rq_hash_key r = off then Some (x, q) else elv_rqhash_find_loop (first_of zs) off q)"
    using x0 e(1,2) r by (subst elv_rqhash_find_loop.simps) (simp add: first_of_def ELV_ON_HASH_def)
  show ?case
  proof (cases "rq_mergeable r")
    case False
    from hash_rep_del_init [OF Cons.prems(1,3)] obtain m where
      m: "hlist_del_init x (q_hash q) = Some m" "hash_rep m (B(i := ys @ zs)) X" by blast
    let ?q = "q\<lparr>q_hash := m\<rparr>"
    have "hash_rep (q_hash ?q) (B(i := ys @ zs)) X" "X \<subseteq> dom (q_reqs ?q)" "(B(i := ys @ zs)) i = ys @ zs"
      using m(2) Cons.prems(2) by simp_all
    from Cons.IH [OF this] obtain m' where
      m': "elv_rqhash_find_loop (first_of zs) off ?q = Some (fst (chain_find (q_reqs q) off zs), q\<lparr>q_hash := m'\<rparr>)"
        "hash_rep m' (B(i := ys @ snd (chain_find (q_reqs q) off zs))) X" by (auto simp: fun_upd_upd simp del: fun_upd_apply)
    have "elv_rqhash_del_entry x q = Some ?q" using m(1) by (simp add: elv_rqhash_del_entry_def on_hash_def)
    with False r step m' show ?thesis by (intro exI [of _ m']) (simp add: mergeable_def del: fun_upd_apply)
  next
    case ok: True
    show ?thesis
    proof (cases "rq_hash_key r = off")
      case True
      have "B(i := ys @ x # zs) = B" using Cons.prems(3) by auto
      then show ?thesis using ok True r step Cons.prems(1)
        by (intro exI [of _ "q_hash q"]) (simp add: mergeable_def key_of_def)
    next
      case False
      from Cons.prems(3) have "B i = (ys @ [x]) @ zs" by simp
      from Cons.IH [OF Cons.prems(1,2) this] ok False r step show ?thesis
        by (auto simp: mergeable_def key_of_def)
    qed
  qed
qed

section \<open>Requests in the chains of their keys\<close>

definition keyed :: "'d request_queue \<Rightarrow> (u32 \<Rightarrow> addr list) \<Rightarrow> addr set \<Rightarrow> bool" where
  "keyed q B X \<longleftrightarrow> hash_rep (q_hash q) B X \<and> X \<subseteq> dom (q_reqs q) \<and>
     (\<forall>i. \<forall>x\<in>set (B i). ELV_HASH_FN (key_of (q_reqs q) x) = i)"

definition hashed :: "(u32 \<Rightarrow> addr list) \<Rightarrow> addr set" where
  "hashed B = (\<Union>i. set (B i))"

lemma elv_rqhash_add_keyed:
  assumes k: "keyed q B X" and n: "n \<in> X" "n \<notin> hashed B"
  shows "\<exists>q' B'. elv_rqhash_add n q = Some q' \<and> keyed q' B' X \<and> hashed B' = insert n (hashed B) \<and> q_reqs q' = q_reqs q"
proof -
  obtain r where r: "q_reqs q n = Some r" using k n(1) by (auto simp: keyed_def)
  let ?i = "ELV_HASH_FN (rq_hash_key r)" and ?B = "B(ELV_HASH_FN (rq_hash_key r) := n # B (ELV_HASH_FN (rq_hash_key r)))"
  have "hash_rep (q_hash q) B X" "\<forall>i. n \<notin> set (B i)" using k n(2) by (auto simp: keyed_def hashed_def)
  from elv_rqhash_add_rep [OF this(1) n(1) this(2) r] obtain m where
    m: "elv_rqhash_add n q = Some (q\<lparr>q_hash := m\<rparr>)" "hash_rep m ?B X" by blast
  have "keyed (q\<lparr>q_hash := m\<rparr>) ?B X" using m(2) k r by (auto simp: keyed_def key_of_def)
  moreover have "hashed ?B = insert n (hashed B)" by (auto simp: hashed_def split: if_splits)
  ultimately show ?thesis using m(1) by (intro exI [of _ "q\<lparr>q_hash := m\<rparr>"] exI [of _ ?B]) simp
qed

lemma elv_rqhash_del_keyed:
  assumes k: "keyed q B X" and n: "n \<in> X"
  shows "\<exists>q' B'. elv_rqhash_del n q = Some q' \<and> keyed q' B' X \<and> hashed B' = hashed B - {n} \<and> q_reqs q' = q_reqs q"
proof -
  have "hash_rep (q_hash q) B X" using k by (simp add: keyed_def)
  from elv_rqhash_del_rep [OF this n] obtain m where
    m: "elv_rqhash_del n q = Some (q\<lparr>q_hash := m\<rparr>)" "hash_rep m (\<lambda>i. removeAll n (B i)) X" by blast
  have "keyed (q\<lparr>q_hash := m\<rparr>) (\<lambda>i. removeAll n (B i)) X" using m(2) k by (auto simp: keyed_def)
  moreover have "hashed (\<lambda>i. removeAll n (B i)) = hashed B - {n}" by (auto simp: hashed_def)
  ultimately show ?thesis using m(1)
    by (intro exI [of _ "q\<lparr>q_hash := m\<rparr>"] exI [of _ "\<lambda>i. removeAll n (B i)"]) simp
qed

lemma elv_rqhash_find_keyed:
  assumes k: "keyed q B X"
  shows "\<exists>x q' B'. elv_rqhash_find off q = Some (x, q') \<and> keyed q' B' X \<and> q_reqs q' = q_reqs q \<and>
    hashed B' \<subseteq> hashed B \<and> (\<forall>y\<in>hashed B - hashed B'. \<not> mergeable (q_reqs q) y) \<and>
    (if \<exists>y\<in>hashed B. mergeable (q_reqs q) y \<and> key_of (q_reqs q) y = off
     then x \<in> hashed B' \<and> mergeable (q_reqs q) x \<and> key_of (q_reqs q) x = off else x = NULL)"
proof -
  let ?i = "ELV_HASH_FN off" and ?m = "q_reqs q"
  have h: "hash_rep (q_hash q) B X" "X \<subseteq> dom ?m" using k by (auto simp: keyed_def)
  define x ys where "x = fst (chain_find ?m off (B ?i))" "ys = snd (chain_find ?m off (B ?i))"
  note d = this
  from elv_rqhash_find_loop_rep [OF h, of ?i "[]" "B ?i" off] obtain m where
    m: "elv_rqhash_find_loop (first_of (B ?i)) off q = Some (x, q\<lparr>q_hash := m\<rparr>)" "hash_rep m (B(?i := ys)) X" by (auto simp: d)
  have c: "hchain (refs (q_hash q)) (pprevs (q_hash q)) (HFirst ?i) (B ?i)" by (rule hash_repD(1) [OF h(1)])
  then have "read_ref (HFirst ?i) (q_hash q) = Some (first_of (B ?i))"
    by (cases "B ?i") (auto simp: read_ref_refs first_of_def)
  then have "elv_rqhash_find off q = Some (x, q\<lparr>q_hash := m\<rparr>)" using m(1) by (simp add: elv_rqhash_find_def)
  moreover note left = chain_find_left [where m = ?m and off = off and xs = "B ?i", folded d]
  have key: "ELV_HASH_FN (key_of ?m y) = i" if "y \<in> set (B i)" for i y using k that by (auto simp: keyed_def)
  have "\<forall>i. \<forall>y\<in>set ((B(?i := ys)) i). ELV_HASH_FN (key_of ?m y) = i" using key left(1) by auto
  then have "keyed (q\<lparr>q_hash := m\<rparr>) (B(?i := ys)) X" using m(2) h(2) by (simp add: keyed_def)
  moreover have "set ((B(?i := ys)) j) \<subseteq> set (B j)" for j using left(1) by simp
  then have sub: "hashed (B(?i := ys)) \<subseteq> hashed B" unfolding hashed_def by blast
  moreover have gone: "\<not> mergeable ?m y" if y: "y \<in> hashed B" "y \<notin> hashed (B(?i := ys))" for y
  proof -
    from y(1) obtain j where j: "y \<in> set (B j)" by (auto simp: hashed_def)
    have "y \<notin> set ((B(?i := ys)) j)" using y(2) unfolding hashed_def by blast
    then show ?thesis using j left(2) by (auto split: if_splits)
  qed
  moreover have all: "(\<exists>y\<in>hashed B. mergeable ?m y \<and> key_of ?m y = off) \<longleftrightarrow> (\<exists>y\<in>set (B ?i). mergeable ?m y \<and> key_of ?m y = off)"
    using key unfolding hashed_def by blast
  have "x \<in> hashed (B(?i := ys)) \<and> mergeable ?m x \<and> key_of ?m x = off"
    if "\<exists>y\<in>set (B ?i). mergeable ?m y \<and> key_of ?m y = off"
    using chain_find_hit [OF that, folded d] gone unfolding hashed_def by blast
  moreover have "x = NULL" if "\<not> (\<exists>y\<in>set (B ?i). mergeable ?m y \<and> key_of ?m y = off)"
    using chain_find_miss [OF that, folded d] .
  ultimately have "elv_rqhash_find off q = Some (x, q\<lparr>q_hash := m\<rparr>) \<and> keyed (q\<lparr>q_hash := m\<rparr>) (B(?i := ys)) X \<and>
    hashed (B(?i := ys)) \<subseteq> hashed B \<and> (\<forall>y\<in>hashed B - hashed (B(?i := ys)). \<not> mergeable ?m y) \<and>
    (if \<exists>y\<in>hashed B. mergeable ?m y \<and> key_of ?m y = off
     then x \<in> hashed (B(?i := ys)) \<and> mergeable ?m x \<and> key_of ?m x = off else x = NULL)"
    unfolding all by auto
  then show ?thesis by (intro exI [of _ x] exI [of _ "q\<lparr>q_hash := m\<rparr>"] exI [of _ "B(?i := ys)"]) simp
qed

end
