(* ===== verification/Elevator_Sched.thy ===== *)
theory Elevator_Sched
  imports Elevator_Hash
begin

text \<open>
  What the elevator core expects of a scheduler and what it promises in turn.  The interface
  \<open>elevator\<close> has the scheduler's operations and an invariant on its private data; its laws say what
  each operation does to the requests the scheduler holds.  The lemmas of the interface are the
  behaviour of \<open>block/elevator.c\<close> over any scheduler that obeys them.
\<close>

section \<open>The state of a queue with its scheduler\<close>

text \<open>
  The part of a request on which a scheduler may base its data structures.
\<close>

definition same_key :: "request \<Rightarrow> request \<Rightarrow> bool" where
  "same_key r r' \<longleftrightarrow> sector r' = sector r \<and> rq_data_dir r' = rq_data_dir r \<and> rq_is_sync r' = rq_is_sync r"

definition same_keys :: "addr set \<Rightarrow> (addr \<rightharpoonup> request) \<Rightarrow> (addr \<rightharpoonup> request) \<Rightarrow> bool" where
  "same_keys R m m' \<longleftrightarrow> (\<forall>x\<in>R. \<exists>r r'. m x = Some r \<and> m' x = Some r' \<and> same_key r r')"

lemma same_keys_refl: "R \<subseteq> dom m \<Longrightarrow> same_keys R m m"
  by (fastforce simp: same_keys_def same_key_def)

lemma same_keys_mono: "same_keys R m m' \<Longrightarrow> R' \<subseteq> R \<Longrightarrow> same_keys R' m m'"
  by (auto simp: same_keys_def)

lemma same_keys_upd:
  assumes "same_keys R (m(n \<mapsto> r)) m'" shows "same_keys (R - {n}) m m'"
  unfolding same_keys_def
proof
  fix x assume "x \<in> R - {n}"
  with assms show "\<exists>r r'. m x = Some r \<and> m' x = Some r' \<and> same_key r r'"
    unfolding same_keys_def by (metis Diff_iff fun_upd_other singletonI)
qed

lemma same_keys_trans: "same_keys R m m' \<Longrightarrow> same_keys R m' m'' \<Longrightarrow> same_keys R m m''"
  by (fastforce simp: same_keys_def same_key_def)

lemma same_reqs_same_keys:
  assumes "same_reqs m m'" "R \<subseteq> dom m"
  shows "same_keys R m m'"
  unfolding same_keys_def
proof
  fix x assume "x \<in> R"
  then obtain r where r: "m x = Some r" using assms(2) by blast
  obtain r' where "m' x = Some r'" "blk_rq_pos r' = blk_rq_pos r" "cmd_flags r' = cmd_flags r"
    by (rule same_reqs_Some [OF assms(1) r])
  then show "\<exists>r r'. m x = Some r \<and> m' x = Some r' \<and> same_key r r'"
    using r by (auto simp: same_key_def blk_rq_pos_def rq_data_dir_def rq_is_sync_def)
qed

lemma same_keys_eq: "(\<And>x. x \<in> R \<Longrightarrow> m' x = m x) \<Longrightarrow> R \<subseteq> dom m \<Longrightarrow> same_keys R m m'"
  by (fastforce simp: same_keys_def same_key_def)

lemma same_keys_pos: "same_keys R m m' \<Longrightarrow> x \<in> R \<Longrightarrow> pos_of m' x = pos_of m x"
  by (fastforce simp: same_keys_def same_key_def pos_of_def blk_rq_pos_def)

lemma pos_sorted_keys:
  assumes "pos_sorted m xs" "same_keys R m m'" "set xs \<subseteq> R"
  shows "pos_sorted m' xs"
proof -
  have "set xs \<subseteq> dom m'" using assms(2,3) by (fastforce simp: same_keys_def)
  moreover have "sorted_wrt (\<lambda>x y. pos_of m' x < pos_of m' y) xs"
  proof (rule sorted_wrt_mono_rel)
    show "sorted_wrt (\<lambda>x y. pos_of m x < pos_of m y) xs" using assms(1) by (simp add: pos_sorted_def)
    show "pos_of m' x < pos_of m' y" if "pos_of m x < pos_of m y" "x \<in> set xs" "y \<in> set xs" for x y
      using that(1) same_keys_pos [OF assms(2) subsetD [OF assms(3) that(2)]]
        same_keys_pos [OF assms(2) subsetD [OF assms(3) that(3)]] by simp
  qed
  ultimately show ?thesis by (simp add: pos_sorted_def)
qed

type_synonym 'd sched_inv =
  "'d \<Rightarrow> rb_heap \<Rightarrow> (addr \<rightharpoonup> request) \<Rightarrow> addr set \<Rightarrow> (addr \<Rightarrow> addr list) \<Rightarrow> addr set \<Rightarrow> bool"

text \<open>
  The state of a queue: of the requests \<open>X\<close>, the scheduler holds \<open>R\<close> and the dispatch queue holds \<open>D\<close>.
\<close>

definition held :: "'d sched_inv \<Rightarrow> 'd request_queue \<Rightarrow> addr set \<Rightarrow> addr set \<Rightarrow> (addr \<Rightarrow> addr list) \<Rightarrow> addr set \<Rightarrow> bool" where
  "held sinv q X S w R \<longleftrightarrow> queue_rep q X S w R \<and> finite R \<and> sinv (elevator_data q) (q_nodes q) (q_reqs q) S w R"

definition sched_rep :: "'d sched_inv \<Rightarrow> 'd request_queue \<Rightarrow> addr set \<Rightarrow> addr list \<Rightarrow> addr set \<Rightarrow> bool" where
  "sched_rep sinv q X D R \<longleftrightarrow> (\<exists>S w. held sinv q X S w R \<and> w (queue_head q) = D) \<and> nr_sorted q = of_nat (card R)"

text \<open>
  What an operation of a scheduler does: it moves the requests \<open>A\<close> to the dispatch queue and changes
  neither the rest of the queue nor the requests, their expiry times apart.
\<close>

definition moves :: "'d request_queue \<Rightarrow> (addr \<Rightarrow> addr list) \<Rightarrow> addr set \<Rightarrow> 'd request_queue \<Rightarrow> (addr \<Rightarrow> addr list) \<Rightarrow> bool" where
  "moves q w A q' w' \<longleftrightarrow> finite A \<and> mset (w' (queue_head q)) = mset (w (queue_head q)) + mset_set A \<and>
     nr_sorted q' = nr_sorted q - of_nat (card A) \<and> same_queue q q' \<and> same_reqs (q_reqs q) (q_reqs q')"

text \<open>A request that can be merged has a bio, from which the merge tests read its flags.\<close>

definition bios_ok :: "'d request_queue \<Rightarrow> addr set \<Rightarrow> bool" where
  "bios_ok q R \<longleftrightarrow> (\<forall>x\<in>R. \<exists>r. q_reqs q x = Some r \<and> rq_bio r \<in> dom (q_bios q))"

lemma merge_ok_Some:
  assumes "bios_ok q R" "n \<in> R" "bio' \<in> dom (q_bios q)" "elv_iosched_allow_merge allow n bio' q = Some b"
  shows "\<exists>b. elv_rq_merge_ok allow n bio' q = Some b"
proof -
  from assms(1,2) obtain r rb where "q_reqs q n = Some r" "q_bios q (rq_bio r) = Some rb" by (fastforce simp: bios_ok_def)
  then show ?thesis using assms(3,4) by (auto simp: elv_rq_merge_ok_def)
qed

section \<open>The interface\<close>

locale elevator =
  fixes ops :: "'d elevator_ops" and sinv :: "'d sched_inv"
  assumes sinv_frame: "sinv d ns m S w R \<Longrightarrow> (\<And>a. a \<in> S \<Longrightarrow> w' a = w a) \<Longrightarrow>
      same_keys R m m' \<Longrightarrow> (\<And>x. x \<in> R \<Longrightarrow> ns' x = ns x) \<Longrightarrow> sinv d ns' m' S w' R"
    and sinv_listed: "sinv d ns m S w R \<Longrightarrow> a \<in> S \<Longrightarrow> set (w a) \<subseteq> R"
    and dispatch_none: "held sinv q X S w {} \<Longrightarrow>
      \<exists>d'. elevator_dispatch_fn ops force q = Some (False, q\<lparr>elevator_data := d'\<rparr>) \<and>
        sinv d' (q_nodes q) (q_reqs q) S w {}"
    and dispatch_one: "held sinv q X S w R \<Longrightarrow> R \<noteq> {} \<Longrightarrow>
      \<exists>q' n w'. elevator_dispatch_fn ops force q = Some (True, q') \<and> n \<in> R \<and>
        held sinv q' X S w' (R - {n}) \<and> moves q w {n} q' w'"
    and add_req: "queue_rep q X S w (insert n R) \<Longrightarrow> finite R \<Longrightarrow>
      sinv (elevator_data q) (q_nodes q) (q_reqs q) S w R \<Longrightarrow> n \<notin> R \<Longrightarrow>
      \<exists>q' w' A. elevator_add_req_fn ops n q = Some q' \<and> A \<subseteq> R \<and>
        held sinv q' X S w' (insert n (R - A)) \<and> moves q w A q' w'"
    and merge_req: "held sinv q X S w R \<Longrightarrow> n \<in> R \<Longrightarrow> n' \<in> R \<Longrightarrow> elv_latter_request ops n q = Some n' \<Longrightarrow>
      q_reqs q n = Some r \<Longrightarrow> q_reqs q n' = Some r' \<Longrightarrow> rq_data_dir r = rq_data_dir r' \<Longrightarrow>
      \<exists>q' w'. (case elevator_merge_req_fn ops of Some f \<Rightarrow> f n n' q | None \<Rightarrow> Some q) = Some q' \<and>
        queue_rep q' X S w' R \<and> sinv (elevator_data q') (q_nodes q') (q_reqs q') S w' (R - {n'}) \<and>
        w' (queue_head q) = w (queue_head q) \<and> moves q w {} q' w'"
    and latter: "held sinv q X S w R \<Longrightarrow> n \<in> R \<Longrightarrow>
      \<exists>x. elv_latter_request ops n q = Some x \<and> (x = NULL \<or> x \<in> R \<and> x \<noteq> n)"
    and merged: "queue_rep q X S w R \<Longrightarrow> finite R \<Longrightarrow> sinv (elevator_data q) (q_nodes q) m S w R \<Longrightarrow> n \<in> R \<Longrightarrow>
      m n = Some r \<Longrightarrow> same_keys R (m(n \<mapsto> r\<lparr>sector := s\<rparr>)) (q_reqs q) \<Longrightarrow>
      (type' = ELEVATOR_FRONT_MERGE \<or> s = sector r) \<Longrightarrow>
      \<exists>q' w' A. (case elevator_merged_fn ops of Some f \<Rightarrow> f n type' q | None \<Rightarrow> Some q) = Some q' \<and> A \<subseteq> R - {n} \<and>
        held sinv q' X S w' (R - A) \<and> moves q w A q' w'"
    and allow_merge: "held sinv q X S w R \<Longrightarrow> n \<in> R \<Longrightarrow>
      \<exists>b. elv_iosched_allow_merge (elevator_allow_merge_fn ops) n bio' q = Some b"
    and merge_fn: "held sinv q X S w R \<Longrightarrow> bios_ok q R \<Longrightarrow> q_bios q bio' = Some b \<Longrightarrow>
      \<exists>ret x. (case elevator_merge_fn ops of Some f \<Rightarrow> f bio' q | None \<Rightarrow> Some (ELEVATOR_NO_MERGE, NULL)) = Some (ret, x) \<and>
        (ret = ELEVATOR_NO_MERGE \<or> ret = ELEVATOR_FRONT_MERGE \<and> x \<in> R \<and>
          elv_rq_merge_ok (elevator_allow_merge_fn ops) x bio' q = Some True \<and>
          pos_of (q_reqs q) x = bi_sector b + ucast (bio_sectors b))"
    and deactivate: "held sinv q X S w R \<Longrightarrow> n \<in> X - R \<Longrightarrow>
      \<exists>q'. elv_deactivate_rq ops n q = Some q' \<and> held sinv q' X S w R \<and> nr_sorted q' = nr_sorted q \<and>
        same_queue q q' \<and> same_reqs (q_reqs q) (q_reqs q')"
    and queue_empty: "held sinv q X S w R \<Longrightarrow>
      (case elevator_queue_empty_fn ops of Some f \<Rightarrow> f q | None \<Rightarrow> Some True) = Some (R = {})"
    and exit_queue: "held sinv q X S w {} \<Longrightarrow>
      (case elevator_exit_fn ops of Some f \<Rightarrow> f q | None \<Rightarrow> Some ()) = Some ()"
begin

text \<open>
  Draining ends: the scheduler gives up every request it holds, so the message that forced
  dispatching is broken is never printed.
\<close>

lemma drain_loop:
  assumes "finite R" "held sinv q X S w R" "nr_sorted q = of_nat (card R)"
  shows "\<exists>q' w'. elv_drain_loop ops q = Some q' \<and> held sinv q' X S w' {} \<and> nr_sorted q' = 0 \<and>
    mset (w' (queue_head q)) = mset (w (queue_head q)) + mset_set R \<and> same_queue q q' \<and>
    same_reqs (q_reqs q) (q_reqs q')"
  using assms
proof (induction R arbitrary: q w rule: measure_induct_rule [of card])
  case (less R)
  show ?case
  proof (cases "R = {}")
    case True
    from dispatch_none [OF less.prems(2) [unfolded True], of True] obtain d' where
      d: "elevator_dispatch_fn ops True q = Some (False, q\<lparr>elevator_data := d'\<rparr>)"
        "sinv d' (q_nodes q) (q_reqs q) S w {}" by blast
    then have "elv_drain_loop ops q = Some (q\<lparr>elevator_data := d'\<rparr>)" by (subst elv_drain_loop.simps) simp
    then show ?thesis using d(2) less.prems True
      by (intro exI [of _ "q\<lparr>elevator_data := d'\<rparr>"] exI [of _ w]) (auto simp: held_def same_queue_def)
  next
    case False
    from dispatch_one [OF less.prems(2) False, of True] obtain q1 n w1 where
      n: "elevator_dispatch_fn ops True q = Some (True, q1)" "n \<in> R" "held sinv q1 X S w1 (R - {n})"
        "moves q w {n} q1 w1" by blast
    have "Suc (card (R - {n})) = card R" using less.prems(1) n(2) by (rule card_Suc_Diff1)
    then have c: "card (R - {n}) < card R" "card R = Suc (card (R - {n}))" by auto
    have "nr_sorted q1 = of_nat (card (R - {n}))" using n(4) less.prems(3) c(2) by (simp add: moves_def)
    from less.IH [OF c(1) _ n(3) this] less.prems(1) obtain q' w' where
      r: "elv_drain_loop ops q1 = Some q'" "held sinv q' X S w' {}" "nr_sorted q' = 0"
        "mset (w' (queue_head q1)) = mset (w1 (queue_head q1)) + mset_set (R - {n})" "same_queue q1 q'"
        "same_reqs (q_reqs q1) (q_reqs q')" by auto
    have "elv_drain_loop ops q = Some q'" using n(1) r(1) by (subst elv_drain_loop.simps) simp
    moreover have "mset (w' (queue_head q)) = mset (w (queue_head q)) + mset_set R"
      using n(4) r(4) mset_set.remove [OF less.prems(1) n(2)] by (simp add: moves_def same_queue_def)
    ultimately show ?thesis using r n(4) same_queue_trans same_reqs_trans unfolding moves_def by blast
  qed
qed

lemma drain:
  assumes "sched_rep sinv q X D R"
  shows "\<exists>q' D'. elv_drain_elevator ops q = Some (False, q') \<and> sched_rep sinv q' X D' {} \<and>
    mset D' = mset D + mset_set R \<and> same_queue q q' \<and> same_reqs (q_reqs q) (q_reqs q')"
proof -
  from assms obtain S w where h: "held sinv q X S w R" "w (queue_head q) = D" "nr_sorted q = of_nat (card R)"
    by (auto simp: sched_rep_def)
  then have "finite R" by (simp add: held_def)
  from drain_loop [OF this h(1,3)] h(2) obtain q' w' where
    "elv_drain_loop ops q = Some q'" "held sinv q' X S w' {}" "nr_sorted q' = 0"
    "mset (w' (queue_head q)) = mset D + mset_set R" "same_queue q q'" "same_reqs (q_reqs q) (q_reqs q')" by auto
  then show ?thesis
    by (intro exI [of _ q'] exI [of _ "w' (queue_head q)"]) (auto simp: elv_drain_elevator_def sched_rep_def same_queue_def)
qed

end

end
