(* ===== verification/Elevator_Core.thy ===== *)
theory Elevator_Core
  imports Elevator_Sched
begin

text \<open>
  The operations of \<open>block/elevator.c\<close> over any scheduler that obeys the laws of the interface.
\<close>

section \<open>Insertion\<close>

lemma of_nat_card_Diff:
  "finite R \<Longrightarrow> A \<subseteq> R \<Longrightarrow> (of_nat (card (R - A)) :: u32) = of_nat (card R) - of_nat (card A)"
  by (simp add: card_Diff_subset finite_subset of_nat_diff card_mono)

lemma on_req_Some: "q_reqs q n = Some r \<Longrightarrow> on_req n f q = Some (q\<lparr>q_reqs := (q_reqs q)(n \<mapsto> f r)\<rparr>)"
  by (simp add: on_req_def write_at_Some)

lemma queue_rep_more:
  assumes "queue_rep q X S w R" "n \<in> X" "n \<notin> set (w (queue_head q))"
  shows "queue_rep q X S w (insert n R)"
  using assms unfolding queue_rep_def by fastforce

text \<open>A new request comes into the merge hash and the one-hit cache.\<close>

lemma hash_new_rep:
  assumes q: "queue_rep q X S w R" and n: "n \<in> X" "n \<notin> R" "n \<notin> set (w (queue_head q))" and r: "q_reqs q n = Some r"
  shows "\<exists>m l. (if rq_mergeable r then do {
            q \<leftarrow> elv_rqhash_add n q;
            Some (if last_merge q = NULL then q\<lparr>last_merge := n\<rparr> else q) }
          else Some q) = Some (q\<lparr>q_hash := m, last_merge := l\<rparr>) \<and>
    queue_rep (q\<lparr>q_hash := m, last_merge := l\<rparr>) X S w (insert n R)"
proof (cases "rq_mergeable r")
  case True
  obtain B where B: "hash_rep (q_hash q) B X" "\<And>i. set (B i) \<subseteq> R" by (rule queue_rep_hash [OF q]) blast
  let ?i = "ELV_HASH_FN (rq_hash_key r)"
  have "\<forall>i. n \<notin> set (B i)" using B(2) n(2) by auto
  from elv_rqhash_add_rep [OF B(1) n(1) this r] obtain m where
    m: "elv_rqhash_add n q = Some (q\<lparr>q_hash := m\<rparr>)" "hash_rep m (B(?i := n # B ?i)) X" by blast
  have "\<exists>B. hash_rep m B X \<and> (\<forall>i. set (B i) \<subseteq> insert n R)"
    using m(2) B(2) by (intro exI [of _ "B(?i := n # B ?i)"]) auto
  with queue_rep_more [OF q n(1,3)]
  have "queue_rep (q\<lparr>q_hash := m, last_merge := if last_merge q = NULL then n else last_merge q\<rparr>) X S w (insert n R)"
    unfolding queue_rep_def by auto
  then show ?thesis using True m(1)
    by (intro exI [of _ m] exI [of _ "if last_merge q = NULL then n else last_merge q"]) simp
next
  case False
  then show ?thesis using queue_rep_more [OF q n(1,3)]
    by (intro exI [of _ "q_hash q"] exI [of _ "last_merge q"]) simp
qed

text \<open>
  A driver may take requests from the queue when its strategy routine runs, and leaves the queue well formed.  The
  relation \<open>P\<close> between the requests that are queued after and before a run says how many it takes: \<open>(\<subseteq>#)\<close> for a driver
  that serves the queue at once, \<open>(=)\<close> for one that only wakes a thread.
\<close>

definition driver :: "'d sched_inv \<Rightarrow> (addr multiset \<Rightarrow> addr multiset \<Rightarrow> bool) \<Rightarrow>
    ('d request_queue \<Rightarrow> 'd request_queue option) \<Rightarrow> bool" where
  "driver sinv P f \<longleftrightarrow> reflp P \<and> transp P \<and> (\<forall>q X D R. sched_rep sinv q X D R \<longrightarrow>
     (\<exists>q' D' R'. f q = Some q' \<and> sched_rep sinv q' X D' R' \<and> P (mset D' + mset_set R') (mset D + mset_set R)))"

lemma driverD:
  assumes "driver sinv P f"
  shows "P A A" "P A B \<Longrightarrow> P B C \<Longrightarrow> P A C"
    "sched_rep sinv q X D R \<Longrightarrow> \<exists>q' D' R'. f q = Some q' \<and> sched_rep sinv q' X D' R' \<and>
       P (mset D' + mset_set R') (mset D + mset_set R)"
  using assms by (auto simp: driver_def dest: reflpD transpD)

lemma driver_idle: "driver sinv (=) Some"
  by (auto simp: driver_def transp_def)

lemma elv_rqhash_find_rep:
  assumes q: "queue_rep q X S w R"
  shows "\<exists>x m. elv_rqhash_find off q = Some (x, q\<lparr>q_hash := m\<rparr>) \<and> queue_rep (q\<lparr>q_hash := m\<rparr>) X S w R \<and>
    (x = NULL \<or> x \<in> R \<and> mergeable (q_reqs q) x \<and> key_of (q_reqs q) x = off)"
proof -
  let ?i = "ELV_HASH_FN off"
  obtain B where B: "hash_rep (q_hash q) B X" "\<And>i. set (B i) \<subseteq> R" by (rule queue_rep_hash [OF q]) blast
  define x ys where d: "x = fst (chain_find (q_reqs q) off (B ?i))" "ys = snd (chain_find (q_reqs q) off (B ?i))"
  from elv_rqhash_find_loop_rep [OF B(1) queue_repD(2) [OF q], of ?i "[]" "B ?i" off] obtain m where
    m: "elv_rqhash_find_loop (first_of (B ?i)) off q = Some (x, q\<lparr>q_hash := m\<rparr>)" "hash_rep m (B(?i := ys)) X" by (auto simp: d)
  have "read_ref (HFirst ?i) (q_hash q) = Some (first_of (B ?i))"
    using hash_repD(1) [OF B(1), of ?i] by (cases "B ?i") (auto simp: read_ref_refs first_of_def)
  then have "elv_rqhash_find off q = Some (x, q\<lparr>q_hash := m\<rparr>)" using m(1) by (simp add: elv_rqhash_find_def)
  moreover have "set ys \<subseteq> R" using chain_find_left(1) [where m = "q_reqs q" and off = off and xs = "B ?i"] B(2) [of ?i] by (simp add: d)
  then have "\<exists>B. hash_rep m B X \<and> (\<forall>i. set (B i) \<subseteq> R)" using m(2) B(2) by (intro exI [of _ "B(?i := ys)"]) simp
  then have "queue_rep (q\<lparr>q_hash := m\<rparr>) X S w R" using q unfolding queue_rep_def by auto
  moreover have "x = NULL \<or> x \<in> R \<and> mergeable (q_reqs q) x \<and> key_of (q_reqs q) x = off"
    using chain_find_hit [where m = "q_reqs q" and off = off and xs = "B ?i"]
      chain_find_miss [where m = "q_reqs q" and off = off and xs = "B ?i"] B(2) [of ?i] by (auto simp: d)
  ultimately show ?thesis by blast
qed

text \<open>What it means that \<open>elv_merge\<close> has found a request for a bio.\<close>

definition adjacent :: "'d request_queue \<Rightarrow> elv_merge_ret \<Rightarrow> addr \<Rightarrow> bio \<Rightarrow> bool" where
  "adjacent q ret x b \<longleftrightarrow> (case ret of
       ELEVATOR_NO_MERGE \<Rightarrow> True
     | ELEVATOR_BACK_MERGE \<Rightarrow> key_of (q_reqs q) x = bi_sector b
     | ELEVATOR_FRONT_MERGE \<Rightarrow> pos_of (q_reqs q) x = bi_sector b + ucast (bio_sectors b))"

text \<open>The front merge of the schedulers that keep their requests in a tree.\<close>

lemma rb_find_merge:
  assumes t: "tree_rep (q_nodes q) root t" "pos_sorted (q_reqs q) t" "set t \<subseteq> R" and b: "bios_ok q R" "bio' \<in> dom (q_bios q)"
  shows "\<exists>x. elv_rb_find (q_reqs q) (q_nodes q) root sec = Some x \<and>
    (x = NULL \<or> x \<in> R \<and> pos_of (q_reqs q) x = sec \<and> (\<exists>ok. elv_rq_merge_ok None x bio' q = Some ok))"
proof (cases "find (\<lambda>x. pos_of (q_reqs q) x = sec) t")
  case None
  then show ?thesis using elv_rb_find_tree [OF t(1,2), of sec] by simp
next
  case (Some x)
  then have x: "x \<in> R" "pos_of (q_reqs q) x = sec" using t(3) by (auto simp: find_Some_iff)
  have "elv_iosched_allow_merge None x bio' q = Some True" by (simp add: elv_iosched_allow_merge_def)
  then show ?thesis using merge_ok_Some [OF b(1) x(1) b(2)] elv_rb_find_tree [OF t(1,2), of sec] Some x by auto
qed

section \<open>Places in an ordered sequence\<close>

text \<open>
  What the position of a request in a barrier's ordered sequence depends on.
\<close>

definition order_key :: "request \<Rightarrow> bool \<times> u32" where
  "order_key r = (blk_fs_request r, cmd_flags r AND REQ_ORDERED_COLOR)"

lemma blk_ordered_req_seq_cong:
  assumes "same_queue q q'" "\<And>x. map_option order_key (q_reqs q' x) = map_option order_key (q_reqs q x)"
  shows "blk_ordered_req_seq x q' = blk_ordered_req_seq x q"
proof -
  have "rel_option (\<lambda>r' r. order_key r' = order_key r) (q_reqs q' y) (q_reqs q y)" for y
    using assms(2) [of y] by (cases "q_reqs q' y"; cases "q_reqs q y") auto
  from this [of x] this [of "orig_bar_rq q"] show ?thesis using assms(1)
    by (cases "q_reqs q' x"; cases "q_reqs q x"; cases "q_reqs q' (orig_bar_rq q)"; cases "q_reqs q (orig_bar_rq q)")
      (auto simp: blk_ordered_req_seq_def same_queue_def order_key_def)
qed

lemma blk_ordered_req_seq_Some:
  assumes "x \<in> dom (q_reqs q)" "orig_bar_rq q \<in> dom (q_reqs q)" "ordseq q \<noteq> 0"
  shows "\<exists>s. blk_ordered_req_seq x q = Some s"
  using assms by (auto simp: blk_ordered_req_seq_def)

lemma same_reqs_order: "same_reqs m m' \<Longrightarrow> map_option order_key (m' x) = map_option order_key (m x)"
proof -
  assume "same_reqs m m'"
  then have "untimed (m' x) = untimed (m x)" by (simp add: same_reqs_def)
  from arg_cong [OF this, of "map_option order_key"] show ?thesis
    by (simp add: untimed_def option.map_comp comp_def order_key_def [abs_def] blk_fs_request_def)
qed

definition seq_before :: "'d request_queue \<Rightarrow> addr \<Rightarrow> addr \<Rightarrow> bool" where
  "seq_before q n x \<longleftrightarrow> the (blk_ordered_req_seq x q) < the (blk_ordered_req_seq n q)"

definition requeue_in :: "'d request_queue \<Rightarrow> addr \<Rightarrow> addr list \<Rightarrow> addr list" where
  "requeue_in q n D = (if ordseq q = 0 then n # D
     else takeWhile (seq_before q n) D @ n # dropWhile (seq_before q n) D)"

lemma requeue_in_cong:
  assumes "same_queue q q'" "\<And>x. map_option order_key (q_reqs q' x) = map_option order_key (q_reqs q x)"
  shows "requeue_in q' n D = requeue_in q n D"
proof -
  have "seq_before q' n = seq_before q n" using blk_ordered_req_seq_cong [OF assms] by (simp add: seq_before_def [abs_def])
  moreover have "ordseq q' = ordseq q" using assms(1) by (simp add: same_queue_def)
  ultimately show ?thesis by (simp add: requeue_in_def)
qed

lemma elv_requeue_walk_rep:
  assumes l: "lists_rep (q_lists q) (queue_head q) X S w" and X: "X \<subseteq> dom (q_reqs q)"
    and o: "orig_bar_rq q \<in> dom (q_reqs q)" "ordseq q \<noteq> 0"
  shows "w (queue_head q) = ys @ zs \<Longrightarrow> elv_requeue_walk seq (hd (zs @ [queue_head q])) q =
    Some (hd (dropWhile (\<lambda>x. the (blk_ordered_req_seq x q) < seq) zs @ [queue_head q]))"
proof (induction zs arbitrary: ys)
  case Nil
  then show ?case by (subst elv_requeue_walk.simps) simp
next
  case (Cons x zs)
  note e = lists_entry [OF l insertI1 Cons.prems]
  have x: "x \<in> X" using listed_mem [of "queue_head q" "queue_head q" S w ys x zs] Cons.prems lists_repD(5) [OF l] by auto
  then have "x \<noteq> queue_head q" using lists_repD(3) [OF l] by auto
  moreover obtain s where "blk_ordered_req_seq x q = Some s" using blk_ordered_req_seq_Some [OF _ o, of x] x X by blast
  moreover have "w (queue_head q) = (ys @ [x]) @ zs" using Cons.prems by simp
  from Cons.IH [OF this] have "elv_requeue_walk seq (hd (zs @ [queue_head q])) q =
    Some (hd (dropWhile (\<lambda>x. the (blk_ordered_req_seq x q) < seq) zs @ [queue_head q]))" .
  ultimately show ?case using e(1) by (subst elv_requeue_walk.simps) auto
qed

text \<open>The count of requests in flight without the request \<open>r\<close>.\<close>

definition unaccounted :: "request \<Rightarrow> 'd request_queue \<Rightarrow> bool \<Rightarrow> u32" where
  "unaccounted r q = (if blk_account_rq r then (in_flight q)(rq_is_sync r := in_flight q (rq_is_sync r) - 1) else in_flight q)"

context elevator
begin

lemma held_frame:
  assumes "held sinv q X S w R" "queue_rep q' X S w' R" "elevator_data q' = elevator_data q" "q_nodes q' = q_nodes q"
    "\<And>a. a \<in> S \<Longrightarrow> w' a = w a" "same_keys R (q_reqs q) (q_reqs q')"
  shows "held sinv q' X S w' R"
  using assms sinv_frame [of "elevator_data q" "q_nodes q" "q_reqs q" S w R w' "q_reqs q'" "q_nodes q"]
  by (auto simp: held_def)

lemma sched_repE:
  assumes "sched_rep sinv q X D R"
  obtains S w where "held sinv q X S w R" "w (queue_head q) = D" "nr_sorted q = of_nat (card R)" "queue_rep q X S w R"
    "finite R" "R \<subseteq> X" "R \<inter> set D = {}" "listed (queue_head q) S w \<subseteq> R \<union> set D" "queue_head q \<notin> S" "set D \<subseteq> X"
proof -
  from assms obtain S w where h: "held sinv q X S w R" "w (queue_head q) = D" "nr_sorted q = of_nat (card R)"
    by (auto simp: sched_rep_def)
  then have i: "queue_rep q X S w R" "finite R" "sinv (elevator_data q) (q_nodes q) (q_reqs q) S w R"
    by (auto simp: held_def)
  note D = queue_repD [OF i(1)]
  have "listed (queue_head q) S w \<subseteq> R \<union> set D" using sinv_listed [OF i(3)] h(2) by (auto simp: listed_def)
  moreover have "set D \<subseteq> X" using lists_repD(5) [OF D(1)] h(2) by (auto simp: listed_def)
  ultimately show thesis using that [OF h i(1,2)] D(6,7) h(2) lists_repD(2) [OF D(1)] by blast
qed

lemma insert_sort:
  assumes s: "sched_rep sinv q X D R" and n: "n \<in> X" "n \<notin> R" "n \<notin> set D"
    and r: "q_reqs q n = Some r" "blk_fs_request r \<or> blk_discard_rq r \<noteq> 0"
  shows "\<exists>q' D' A. elv_insert_sort ops n q = Some q' \<and> A \<subseteq> R \<and> sched_rep sinv q' X D' (insert n (R - A)) \<and>
    mset D' = mset D + mset_set A \<and> same_queue q q' \<and>
    same_reqs ((q_reqs q)(n \<mapsto> set_flag REQ_SORTED r)) (q_reqs q')"
proof -
  obtain S w where h: "held sinv q X S w R" "w (queue_head q) = D" "nr_sorted q = of_nat (card R)" "queue_rep q X S w R"
    "finite R" "R \<subseteq> X" by (rule sched_repE [OF s])
  let ?m = "(q_reqs q)(n \<mapsto> set_flag REQ_SORTED r)"
  let ?q = "q\<lparr>q_reqs := ?m, nr_sorted := nr_sorted q + 1\<rparr>"
  have dom: "dom ?m = dom (q_reqs q)" using r(1) by auto
  have "queue_rep (q\<lparr>q_reqs := ?m\<rparr>) X S w R" using h(4) dom by (subst queue_rep_simps) auto
  then have q1: "queue_rep ?q X S w R" by simp
  from hash_new_rep [OF this n(1,2)] n(3) h(2) obtain m l where
    m: "(if rq_mergeable (set_flag REQ_SORTED r) then do {
            q \<leftarrow> elv_rqhash_add n ?q;
            Some (if last_merge q = NULL then q\<lparr>last_merge := n\<rparr> else q) }
          else Some ?q) = Some (?q\<lparr>q_hash := m, last_merge := l\<rparr>)"
      "queue_rep (?q\<lparr>q_hash := m, last_merge := l\<rparr>) X S w (insert n R)" by auto
  let ?q1 = "?q\<lparr>q_hash := m, last_merge := l\<rparr>"
  have "same_keys R (q_reqs q) ?m"
    by (rule same_keys_eq) (use n(2) h(6) queue_repD(2) [OF h(4)] in auto)
  then have "held sinv ?q X S w R" using h(1) q1 by (intro held_frame [OF h(1)]) auto
  then have "sinv (elevator_data ?q1) (q_nodes ?q1) (q_reqs ?q1) S w R" by (simp add: held_def)
  from add_req [OF m(2) h(5) this n(2)] obtain q' w' A where
    q': "elevator_add_req_fn ops n ?q1 = Some q'" "A \<subseteq> R" "held sinv q' X S w' (insert n (R - A))" "moves ?q1 w A q' w'"
    by blast
  have c: "card (insert n (R - A)) = Suc (card (R - A))" using n(2) h(5) by simp
  have "elv_insert_sort ops n q = (if rq_mergeable (set_flag REQ_SORTED r) then do {
            q \<leftarrow> elv_rqhash_add n ?q;
            Some (if last_merge q = NULL then q\<lparr>last_merge := n\<rparr> else q) }
          else Some ?q) \<bind> elevator_add_req_fn ops n"
    using r unfolding elv_insert_sort_def by (auto simp: on_req_Some Let_def)
  also have "\<dots> = Some q'" using q'(1) unfolding m(1) by simp
  finally have "elv_insert_sort ops n q = Some q'" .
  moreover have "sched_rep sinv q' X (w' (queue_head q)) (insert n (R - A))"
    using q'(3,4) h(3) of_nat_card_Diff [OF h(5) q'(2)] unfolding sched_rep_def c
    by (auto simp: moves_def same_queue_def)
  ultimately show ?thesis using q'(2,4) h(2)
    by (intro exI [of _ q'] exI [of _ "w' (queue_head q)"] exI [of _ A]) (auto simp: moves_def)
qed

text \<open>
  A request that is on no list goes to a place of the dispatch queue.
\<close>

lemma dispatch_place:
  assumes s: "sched_rep sinv q X (ys @ zs) R" and n: "n \<in> X" "n \<notin> R" "n \<notin> set (ys @ zs)"
  shows "\<exists>m. list_add n (last (queue_head q # ys)) (q_lists q) = Some m \<and>
      sched_rep sinv (q\<lparr>q_lists := m\<rparr>) X (ys @ n # zs) R"
    and "\<exists>m. list_add_tail n (hd (zs @ [queue_head q])) (q_lists q) = Some m \<and>
      sched_rep sinv (q\<lparr>q_lists := m\<rparr>) X (ys @ n # zs) R"
proof -
  obtain S w where h: "held sinv q X S w R" "w (queue_head q) = ys @ zs" "nr_sorted q = of_nat (card R)" "queue_rep q X S w R"
    "finite R" "R \<subseteq> X" "R \<inter> set (ys @ zs) = {}" "listed (queue_head q) S w \<subseteq> R \<union> set (ys @ zs)" "queue_head q \<notin> S"
    by (rule sched_repE [OF s])
  have nl: "n \<notin> listed (queue_head q) S w" using h(8) n by auto
  note add = lists_add [OF queue_repD(1) [OF h(4)] insertI1 h(2) n(1) nl]
  have "sched_rep sinv (q\<lparr>q_lists := m\<rparr>) X (ys @ n # zs) R"
    if "lists_rep m (queue_head q) X S (w(queue_head q := ys @ n # zs))" for m
  proof -
    have "queue_rep (q\<lparr>q_lists := m\<rparr>) X S (w(queue_head q := ys @ n # zs)) R"
      using h(7) n(2) by (intro queue_rep_lists [OF h(4) that]) auto
    moreover have "same_keys R (q_reqs q) (q_reqs q)" using h(6) queue_repD(2) [OF h(4)] by (intro same_keys_refl) auto
    ultimately have "held sinv (q\<lparr>q_lists := m\<rparr>) X S (w(queue_head q := ys @ n # zs)) R"
      using h(9) by (intro held_frame [OF h(1)]) auto
    then show ?thesis using h(3) unfolding sched_rep_def
      by (intro conjI exI [of _ S] exI [of _ "w(queue_head q := ys @ n # zs)"]) simp_all
  qed
  with add show "\<exists>m. list_add n (last (queue_head q # ys)) (q_lists q) = Some m \<and>
      sched_rep sinv (q\<lparr>q_lists := m\<rparr>) X (ys @ n # zs) R"
    "\<exists>m. list_add_tail n (hd (zs @ [queue_head q])) (q_lists q) = Some m \<and>
      sched_rep sinv (q\<lparr>q_lists := m\<rparr>) X (ys @ n # zs) R" by blast+
qed

text \<open>The queue may change in ways that matter neither to the lists nor to the scheduler.\<close>

lemma sched_rep_simps:
  "sched_rep sinv (q\<lparr>end_sector := e\<rparr>) X D R = sched_rep sinv q X D R"
  "sched_rep sinv (q\<lparr>boundary_rq := b\<rparr>) X D R = sched_rep sinv q X D R"
  "sched_rep sinv (q\<lparr>jiffies := j\<rparr>) X D R = sched_rep sinv q X D R"
  "sched_rep sinv (q\<lparr>queue_flags := f\<rparr>) X D R = sched_rep sinv q X D R"
  "sched_rep sinv (q\<lparr>ordcolor := c\<rparr>) X D R = sched_rep sinv q X D R"
  "sched_rep sinv (q\<lparr>in_flight := i\<rparr>) X D R = sched_rep sinv q X D R"
  by (simp_all add: sched_rep_def held_def)

lemma sched_rep_req:
  assumes s: "sched_rep sinv q X D R" and r: "q_reqs q n = Some r" and k: "n \<notin> R \<or> same_key r r'"
  shows "sched_rep sinv (q\<lparr>q_reqs := (q_reqs q)(n \<mapsto> r')\<rparr>) X D R"
proof -
  obtain S w where h: "held sinv q X S w R" "w (queue_head q) = D" "nr_sorted q = of_nat (card R)" "queue_rep q X S w R"
    "finite R" "R \<subseteq> X" by (rule sched_repE [OF s])
  have "R \<subseteq> dom (q_reqs q)" using h(6) queue_repD(2) [OF h(4)] by auto
  then have "same_keys R (q_reqs q) ((q_reqs q)(n \<mapsto> r'))"
    using k r unfolding same_keys_def by (fastforce simp: same_key_def)
  moreover have "queue_rep (q\<lparr>q_reqs := (q_reqs q)(n \<mapsto> r')\<rparr>) X S w R"
    using h(4) r by (subst queue_rep_simps) auto
  ultimately have "held sinv (q\<lparr>q_reqs := (q_reqs q)(n \<mapsto> r')\<rparr>) X S w R"
    by (intro held_frame [OF h(1)]) auto
  then show ?thesis using h(2,3) by (auto simp: sched_rep_def)
qed

lemma insert_front:
  assumes s: "sched_rep sinv q X D R" and n: "n \<in> X" "n \<notin> R" "n \<notin> set D" and r: "q_reqs q n = Some r"
  shows "\<exists>q'. elv_insert_front n q = Some q' \<and> sched_rep sinv q' X (n # D) R \<and> same_queue q q' \<and>
    q_reqs q' = (q_reqs q)(n \<mapsto> set_flag REQ_SOFTBARRIER r)"
proof -
  let ?q = "q\<lparr>q_reqs := (q_reqs q)(n \<mapsto> set_flag REQ_SOFTBARRIER r)\<rparr>"
  have "sched_rep sinv ?q X ([] @ D) R" using sched_rep_req [OF s r] n(2) by simp
  from dispatch_place(1) [OF this n(1,2)] n(3) obtain m where
    m: "list_add n (queue_head q) (q_lists q) = Some m" "sched_rep sinv (?q\<lparr>q_lists := m\<rparr>) X (n # D) R" by auto
  then show ?thesis using r
    by (intro exI [of _ "?q\<lparr>q_lists := m\<rparr>"]) (simp add: elv_insert_front_def on_req_Some on_lists_def)
qed

lemma queue_empty_rep:
  assumes s: "sched_rep sinv q X D R"
  shows "elv_queue_empty ops q = Some (D = [] \<and> R = {})"
proof -
  obtain S w where h: "held sinv q X S w R" "w (queue_head q) = D" "nr_sorted q = of_nat (card R)" "queue_rep q X S w R"
    by (rule sched_repE [OF s])
  from lists_empty [OF queue_repD(1) [OF h(4)] insertI1] queue_empty [OF h(1)] h(2)
  show ?thesis by (auto simp: elv_queue_empty_def)
qed

lemma remove_plug:
  assumes "sched_rep sinv q X D R"
  obtains b q1 where "blk_remove_plug q = (b, q1)" "sched_rep sinv q1 X D R"
  using assms by (cases "test_queue_flag QUEUE_FLAG_PLUGGED q")
    (auto simp: blk_remove_plug_def queue_flag_clear_def sched_rep_simps)

lemma run_queue:
  assumes f: "driver sinv P request_fn" and s: "sched_rep sinv q X D R"
  shows "\<exists>q' D' R'. blk_run_queue ops request_fn q = Some q' \<and> sched_rep sinv q' X D' R' \<and>
    P (mset D' + mset_set R') (mset D + mset_set R)"
proof -
  obtain b q1 where p: "blk_remove_plug q = (b, q1)" and s1: "sched_rep sinv q1 X D R" by (rule remove_plug [OF s])
  note e = queue_empty_rep [OF s1]
  have s2: "sched_rep sinv (queue_flag_set k q1) X D R" for k
    using s1 by (simp add: queue_flag_set_def sched_rep_simps)
  obtain q' D' R' where r: "request_fn (queue_flag_set QUEUE_FLAG_REENTER q1) = Some q'" "sched_rep sinv q' X D' R'"
    "P (mset D' + mset_set R') (mset D + mset_set R)" using driverD(3) [OF f s2] by blast
  have s3: "sched_rep sinv (queue_flag_clear QUEUE_FLAG_REENTER q') X D' R'"
    using r(2) by (simp add: queue_flag_clear_def sched_rep_simps)
  have "blk_run_queue ops request_fn q \<in> {Some (queue_flag_clear QUEUE_FLAG_REENTER q'), Some q1,
      Some (queue_flag_set QUEUE_FLAG_PLUGGED q1)}"
    using r(1) by (simp add: blk_run_queue_def p e)
  then show ?thesis using s1 s2 s3 r(3) driverD(1) [OF f] by blast
qed

lemma unplug:
  assumes f: "driver sinv P request_fn" and s: "sched_rep sinv q X D R"
  shows "\<exists>q' D' R'. generic_unplug_device request_fn q = Some q' \<and> sched_rep sinv q' X D' R' \<and>
    P (mset D' + mset_set R') (mset D + mset_set R)"
proof -
  obtain b q1 where p: "blk_remove_plug q = (b, q1)" and s1: "sched_rep sinv q1 X D R" by (rule remove_plug [OF s])
  have "generic_unplug_device request_fn q \<in> {Some q, Some q1, request_fn q1}"
    by (simp add: generic_unplug_device_def p)
  moreover obtain q' D' R' where "request_fn q1 = Some q'" "sched_rep sinv q' X D' R'"
    "P (mset D' + mset_set R') (mset D + mset_set R)" using driverD(3) [OF f s1] by blast
  ultimately show ?thesis using s s1 driverD(1) [OF f] by auto
qed

lemma insert_back:
  assumes s: "sched_rep sinv q X D R" and n: "n \<in> X" "n \<notin> R" "n \<notin> set D" and r: "q_reqs q n = Some r"
  shows "\<exists>q' D'. elv_insert_back ops request_fn n q = blk_run_queue ops request_fn q' \<and>
    sched_rep sinv q' X (D' @ [n]) {} \<and> mset D' = mset D + mset_set R \<and> same_queue q q' \<and>
    same_reqs ((q_reqs q)(n \<mapsto> set_flag REQ_SOFTBARRIER r)) (q_reqs q')"
proof -
  let ?q = "q\<lparr>q_reqs := (q_reqs q)(n \<mapsto> set_flag REQ_SOFTBARRIER r)\<rparr>"
  have "sched_rep sinv ?q X D R" using sched_rep_req [OF s r] n(2) by simp
  from drain [OF this] obtain q1 D1 where
    d: "elv_drain_elevator ops ?q = Some (False, q1)" "sched_rep sinv q1 X D1 {}" "mset D1 = mset D + mset_set R"
      "same_queue q q1" "same_reqs (q_reqs ?q) (q_reqs q1)" by auto
  have "finite R" by (rule sched_repE [OF s])
  then have "set D1 = set D \<union> R" using arg_cong [OF d(3), of set_mset] by simp
  then have "n \<notin> set (D1 @ [])" using n by auto
  from dispatch_place(2) [of q1 X D1 "[]", simplified, OF d(2) n(1)] this obtain m where
    m: "list_add_tail n (queue_head q1) (q_lists q1) = Some m" "sched_rep sinv (q1\<lparr>q_lists := m\<rparr>) X (D1 @ [n]) {}" by auto
  have "elv_insert_back ops request_fn n q = blk_run_queue ops request_fn (q1\<lparr>q_lists := m\<rparr>)"
    using d(1) m(1) r by (simp add: elv_insert_back_def on_req_Some on_lists_def)
  then show ?thesis using d(3-5) m(2) by (intro exI [of _ "q1\<lparr>q_lists := m\<rparr>"] exI [of _ D1]) simp
qed

section \<open>Adding a request\<close>

lemma insert:
  assumes f: "driver sinv P request_fn" and s: "sched_rep sinv q X D R" and n: "n \<in> X" "n \<notin> R" "n \<notin> set D"
    and r: "q_reqs q n = Some r" and c: "where' \<in> {ELEVATOR_INSERT_FRONT, ELEVATOR_INSERT_BACK, ELEVATOR_INSERT_SORT}"
      "where' = ELEVATOR_INSERT_SORT \<Longrightarrow> blk_fs_request r \<or> blk_discard_rq r \<noteq> 0"
  shows "\<exists>q' D' R'. elv_insert ops request_fn n where' q = Some q' \<and> sched_rep sinv q' X D' R' \<and>
    P (mset D' + mset_set R') (add_mset n (mset D + mset_set R))"
proof -
  have fin: "finite R" by (rule sched_repE [OF s])
  have "\<exists>q' D' R'. (if where' = ELEVATOR_INSERT_FRONT then elv_insert_front n q
          else if where' = ELEVATOR_INSERT_BACK then elv_insert_back ops request_fn n q
          else if where' = ELEVATOR_INSERT_SORT then elv_insert_sort ops n q
          else if where' = ELEVATOR_INSERT_REQUEUE then elv_insert_requeue n q
          else None) = Some q' \<and> sched_rep sinv q' X D' R' \<and>
      P (mset D' + mset_set R') (add_mset n (mset D + mset_set R))" (is "\<exists>q' D' R'. ?e = Some q' \<and> _ q' D' R'")
  proof (cases "where' = ELEVATOR_INSERT_FRONT")
    case True
    then show ?thesis using insert_front [OF s n r] driverD(1) [OF f, of "add_mset n (mset D + mset_set R)"] by fastforce
  next
    case nf: False
    show ?thesis
    proof (cases "where' = ELEVATOR_INSERT_BACK")
      case True
      from insert_back [OF s n r] obtain q1 D1 where
        "elv_insert_back ops request_fn n q = blk_run_queue ops request_fn q1"
        "sched_rep sinv q1 X (D1 @ [n]) {}" "mset D1 = mset D + mset_set R" by blast
      with run_queue [OF f this(2)] nf True show ?thesis by (auto simp: add.assoc)
    next
      case False
      with nf c have "where' = ELEVATOR_INSERT_SORT" "blk_fs_request r \<or> blk_discard_rq r \<noteq> 0" by auto
      with insert_sort [OF s n r] obtain q1 D1 A where
        i: "elv_insert_sort ops n q = Some q1" "A \<subseteq> R" "sched_rep sinv q1 X D1 (insert n (R - A))"
          "mset D1 = mset D + mset_set A" by blast
      have "mset_set (insert n (R - A)) = add_mset n (mset_set (R - A))" using n(2) fin by simp
      moreover have "mset_set A + mset_set (R - A) = mset_set R"
        using i(2) fin by (metis Diff_disjoint Diff_partition finite_Diff finite_subset mset_set_Union)
      ultimately show ?thesis using i \<open>where' = _\<close> driverD(1) [OF f, of "add_mset n (mset D + mset_set R)"]
        by (intro exI [of _ q1] exI [of _ D1] exI [of _ "insert n (R - A)"])
          (simp add: ELEVATOR_INSERT_SORT_def ELEVATOR_INSERT_FRONT_def ELEVATOR_INSERT_BACK_def add.assoc)
    qed
  qed
  then obtain q1 D1 R1 where e: "?e = Some q1" "sched_rep sinv q1 X D1 R1"
    "P (mset D1 + mset_set R1) (add_mset n (mset D + mset_set R))" by blast
  from unplug [OF f e(2)] obtain q2 D2 R2 where u: "generic_unplug_device request_fn q1 = Some q2"
    "sched_rep sinv q2 X D2 R2" "P (mset D2 + mset_set R2) (mset D1 + mset_set R1)" by blast
  have "elv_insert ops request_fn n where' q = Some q1 \<or>
      elv_insert ops request_fn n where' q = generic_unplug_device request_fn q1"
    unfolding elv_insert_def e(1) by (simp add: Let_def)
  moreover have "P (mset D2 + mset_set R2) (add_mset n (mset D + mset_set R))"
    by (rule driverD(2) [OF f u(3) e(3)])
  ultimately show ?thesis using e(2,3) u(1,2) by auto
qed

lemma add_request:
  assumes f: "driver sinv P request_fn" and s: "sched_rep sinv q X D R" and n: "n \<in> X" "n \<notin> R" "n \<notin> set D"
    and r: "q_reqs q n = Some r" and c: "where' \<in> {ELEVATOR_INSERT_FRONT, ELEVATOR_INSERT_BACK, ELEVATOR_INSERT_SORT}"
      "where' = ELEVATOR_INSERT_SORT \<Longrightarrow> blk_fs_request r \<or> blk_discard_rq r \<noteq> 0"
  shows "\<exists>q' D' R'. elv_add_request ops request_fn n where' plug' q = Some q' \<and> sched_rep sinv q' X D' R' \<and>
    P (mset D' + mset_set R') (add_mset n (mset D + mset_set R))"
proof -
  define r1 where "r1 = (if ordcolor q then set_flag REQ_ORDERED_COLOR r else r)"
  define q1 where "q1 = q\<lparr>q_reqs := (q_reqs q)(n \<mapsto> r1)\<rparr>"
  have col: "(if ordcolor q then on_req n (set_flag REQ_ORDERED_COLOR) q else Some q) = Some q1"
    using r by (auto simp: q1_def r1_def on_req_Some fun_upd_idem)
  have s1: "sched_rep sinv q1 X D R" unfolding q1_def using sched_rep_req [OF s r] n(2) by blast
  have r1: "q_reqs q1 n = Some r1" by (simp add: q1_def)
  have k: "blk_fs_request r1 = blk_fs_request r" "blk_discard_rq r1 = blk_discard_rq r"
    by (auto simp: r1_def set_flag_def blk_fs_request_def blk_discard_rq_def REQ_ORDERED_COLOR_def REQ_DISCARD_def
        bit.conj_disj_distrib2)
  let ?w = "\<lambda>b. if where' = ELEVATOR_INSERT_SORT \<and> (b \<or> \<not> has_flag r1 REQ_ELVPRIV) then ELEVATOR_INSERT_BACK else where'"
  have w: "?w b \<in> {ELEVATOR_INSERT_FRONT, ELEVATOR_INSERT_BACK, ELEVATOR_INSERT_SORT}" for b using c(1) by auto
  have w2: "?w b = ELEVATOR_INSERT_SORT \<Longrightarrow> blk_fs_request r1 \<or> blk_discard_rq r1 \<noteq> 0" for b
    using c(2) k by (auto simp: ELEVATOR_INSERT_SORT_def ELEVATOR_INSERT_BACK_def split: if_splits)
  show ?thesis unfolding elv_add_request_def col
    by (simp only: bind.bind_lunit r1 Let_def, rule insert [OF f _ n _ w w2])
      (simp_all add: s1 r1 sched_rep_simps blk_plug_device_def queue_flag_set_def)
qed

section \<open>Dispatching and dequeueing\<close>

lemma dispatch:
  assumes s: "sched_rep sinv q X D R"
  shows "\<exists>b q' D' R'. elevator_dispatch_fn ops force q = Some (b, q') \<and> sched_rep sinv q' X D' R' \<and>
    mset D' + mset_set R' = mset D + mset_set R \<and> (if R = {} then \<not> b \<and> D' = D else b \<and> card R' < card R) \<and>
    same_queue q q' \<and> same_reqs (q_reqs q) (q_reqs q')"
proof -
  obtain S w where h: "held sinv q X S w R" "w (queue_head q) = D" "nr_sorted q = of_nat (card R)" "queue_rep q X S w R"
    "finite R" by (rule sched_repE [OF s])
  show ?thesis
  proof (cases "R = {}")
    case True
    from dispatch_none [OF h(1) [unfolded True], of force] obtain d' where
      d: "elevator_dispatch_fn ops force q = Some (False, q\<lparr>elevator_data := d'\<rparr>)"
        "sinv d' (q_nodes q) (q_reqs q) S w {}" by blast
    have "sched_rep sinv (q\<lparr>elevator_data := d'\<rparr>) X D {}"
      using d(2) h True unfolding sched_rep_def held_def
      by (intro conjI exI [of _ S] exI [of _ w]) simp_all
    then show ?thesis using d(1) True
      by (intro exI [of _ False] exI [of _ "q\<lparr>elevator_data := d'\<rparr>"] exI [of _ D] exI [of _ "{}"]) simp
  next
    case False
    from dispatch_one [OF h(1) False, of force] obtain q' n w' where
      n: "elevator_dispatch_fn ops force q = Some (True, q')" "n \<in> R" "held sinv q' X S w' (R - {n})" "moves q w {n} q' w'" by blast
    have c: "Suc (card (R - {n})) = card R" by (rule card_Suc_Diff1 [OF h(5) n(2)])
    have "sched_rep sinv q' X (w' (queue_head q)) (R - {n})"
      using n(2-4) h(3) of_nat_card_Diff [OF h(5), of "{n}"] unfolding sched_rep_def
      by (auto simp: moves_def same_queue_def)
    moreover have "mset (w' (queue_head q)) + mset_set (R - {n}) = mset D + mset_set R"
      using n(4) h(2) mset_set.remove [OF h(5) n(2)] by (simp add: moves_def)
    ultimately show ?thesis using n(1,4) c False
      by (intro exI [of _ True] exI [of _ q'] exI [of _ "w' (queue_head q)"] exI [of _ "R - {n}"])
        (simp add: moves_def)
  qed
qed

lemma dequeue:
  assumes s: "sched_rep sinv q X (ys @ n # zs) R" and r: "q_reqs q n = Some r"
  shows "\<exists>q'. blk_dequeue_request n q = Some q' \<and> sched_rep sinv q' X (ys @ zs) R \<and> q_reqs q' = q_reqs q \<and>
    in_flight q' = (if blk_account_rq r then (in_flight q)(rq_is_sync r := in_flight q (rq_is_sync r) + 1) else in_flight q) \<and>
    same_queue q (q'\<lparr>in_flight := in_flight q\<rparr>)"
proof -
  obtain S w where h: "held sinv q X S w R" "w (queue_head q) = ys @ n # zs" "nr_sorted q = of_nat (card R)" "queue_rep q X S w R"
    "finite R" "R \<subseteq> X" "R \<inter> set (ys @ n # zs) = {}" "listed (queue_head q) S w \<subseteq> R \<union> set (ys @ n # zs)" "queue_head q \<notin> S"
    by (rule sched_repE [OF s])
  note D = queue_repD [OF h(4)]
  from lists_del_init [OF D(1) insertI1 h(2)] obtain m where
    m: "list_del_init n (q_lists q) = Some m" "lists_rep m (queue_head q) X S (w(queue_head q := ys @ zs))" "n \<in> X" by blast
  have q1: "queue_rep (q\<lparr>q_lists := m\<rparr>) X S (w(queue_head q := ys @ zs)) R"
    using h(7) by (intro queue_rep_lists [OF h(4) m(2)]) auto
  obtain B where B: "hash_rep (q_hash q) B X" "\<And>i. set (B i) \<subseteq> R" by (rule queue_rep_hash [OF h(4)]) blast
  have "\<not> (\<exists>i. n \<in> set (B i))" using B(2) h(7) by auto
  then have "hlist_unhashed n (q_hash q) = Some True" using hash_rep_unhashed [OF B(1) m(3)] by auto
  moreover have "list_empty n (q_lists q) = Some False" by (rule lists_entry(3) [OF D(1) insertI1 h(2)])
  moreover have "same_keys R (q_reqs q) (q_reqs q)" using h(6) D(2) by (intro same_keys_refl) auto
  then have "held sinv (q\<lparr>q_lists := m\<rparr>) X S (w(queue_head q := ys @ zs)) R"
    using h(9) q1 by (intro held_frame [OF h(1)]) auto
  then have "sched_rep sinv (q\<lparr>q_lists := m\<rparr>) X (ys @ zs) R" using h(3) unfolding sched_rep_def
    by (intro conjI exI [of _ S] exI [of _ "w(queue_head q := ys @ zs)"]) simp_all
  ultimately show ?thesis using m(1) r
    by (simp add: blk_dequeue_request_def on_lists_def sched_rep_simps)
qed

section \<open>Merging\<close>

lemma reposition:
  assumes q: "queue_rep q X S w R" and n: "n \<in> R"
  shows "\<exists>m. elv_rqhash_reposition n q = Some (q\<lparr>q_hash := m\<rparr>) \<and> queue_rep (q\<lparr>q_hash := m\<rparr>) X S w R"
proof -
  note D = queue_repD [OF q]
  have nX: "n \<in> X" using n D(6) by auto
  obtain B where B: "hash_rep (q_hash q) B X" "\<And>i. set (B i) \<subseteq> R" by (rule queue_rep_hash [OF q]) blast
  obtain r where r: "q_reqs q n = Some r" by (rule queue_rep_req [OF q nX])
  from elv_rqhash_del_entry_rep [OF B(1) nX] obtain m1 where
    m1: "elv_rqhash_del_entry n q = Some (q\<lparr>q_hash := m1\<rparr>)" "hash_rep m1 (\<lambda>i. removeAll n (B i)) X" by blast
  let ?q = "q\<lparr>q_hash := m1\<rparr>" and ?i = "ELV_HASH_FN (rq_hash_key r)"
  have "hash_rep (q_hash ?q) (\<lambda>i. removeAll n (B i)) X" "q_reqs ?q n = Some r" using m1(2) r by simp_all
  from elv_rqhash_add_rep [OF this(1) nX _ this(2)] obtain m2 where
    m2: "elv_rqhash_add n ?q = Some (q\<lparr>q_hash := m2\<rparr>)"
      "hash_rep m2 ((\<lambda>i. removeAll n (B i))(?i := n # removeAll n (B ?i))) X" by auto
  have "\<exists>B. hash_rep m2 B X \<and> (\<forall>i. set (B i) \<subseteq> R)"
    using m2(2) B(2) n by (intro exI [of _ "(\<lambda>i. removeAll n (B i))(?i := n # removeAll n (B ?i))"]) auto
  with q have "queue_rep (q\<lparr>q_hash := m2\<rparr>) X S w R" unfolding queue_rep_def by auto
  with m1(1) m2(1) show ?thesis by (auto simp: elv_rqhash_reposition_def)
qed

lemma merge_requests:
  assumes s: "sched_rep sinv q X D R" and n: "n \<in> R" "n' \<in> R" "elv_latter_request ops n q = Some n'"
    and r: "q_reqs q n = Some r" "q_reqs q n' = Some r'" "rq_data_dir r = rq_data_dir r'"
  shows "\<exists>q'. elv_merge_requests ops n n' q = Some q' \<and> sched_rep sinv q' X D (R - {n'}) \<and> last_merge q' = n \<and>
    same_queue q q' \<and> same_reqs (q_reqs q) (q_reqs q')"
proof -
  obtain S w where h: "held sinv q X S w R" "w (queue_head q) = D" "nr_sorted q = of_nat (card R)" "queue_rep q X S w R"
    "finite R" "R \<subseteq> X" by (rule sched_repE [OF s])
  have ne: "n' \<noteq> n" using latter [OF h(1) n(1)] n(2,3) queue_repD(4) [OF h(4)] h(6) by auto
  from merge_req [OF h(1) n r] obtain q1 w1 where
    q1: "(case elevator_merge_req_fn ops of Some f \<Rightarrow> f n n' q | None \<Rightarrow> Some q) = Some q1"
      "queue_rep q1 X S w1 R" "sinv (elevator_data q1) (q_nodes q1) (q_reqs q1) S w1 (R - {n'})"
      "w1 (queue_head q) = w (queue_head q)" "moves q w {} q1 w1" by blast
  from reposition [OF q1(2) n(1)] obtain m where
    m: "elv_rqhash_reposition n q1 = Some (q1\<lparr>q_hash := m\<rparr>)" "queue_rep (q1\<lparr>q_hash := m\<rparr>) X S w1 R" by blast
  let ?q = "q1\<lparr>q_hash := m\<rparr>"
  have nX: "n' \<in> X" using n(2) h(6) by auto
  obtain B where B: "hash_rep (q_hash ?q) B X" "\<And>i. set (B i) \<subseteq> R" by (rule queue_rep_hash [OF m(2)]) blast
  from elv_rqhash_del_rep [OF B(1) nX] obtain m' where
    m': "elv_rqhash_del n' ?q = Some (q1\<lparr>q_hash := m'\<rparr>)" "hash_rep m' (\<lambda>i. removeAll n' (B i)) X" by auto
  have "\<exists>B. hash_rep m' B X \<and> (\<forall>i. set (B i) \<subseteq> R - {n'})"
    using m'(2) B(2) by (intro exI [of _ "\<lambda>i. removeAll n' (B i)"]) auto
  then have rep: "queue_rep (q1\<lparr>q_hash := m', nr_sorted := nr_sorted q1 - 1, last_merge := n\<rparr>) X S w1 (R - {n'})"
    using q1(2) n(1) ne unfolding queue_rep_def by auto
  have hd: "queue_head q1 = queue_head q" "nr_sorted q1 = nr_sorted q" "same_queue q q1" "same_reqs (q_reqs q) (q_reqs q1)"
    using q1(5) by (auto simp: moves_def same_queue_def)
  have "sched_rep sinv (q1\<lparr>q_hash := m', nr_sorted := nr_sorted q1 - 1, last_merge := n\<rparr>) X D (R - {n'})"
    using rep q1(3,4) h(2,3,5) of_nat_card_Diff [OF h(5), of "{n'}"] n(2) hd(1,2)
    unfolding sched_rep_def held_def by auto
  moreover have "elv_merge_requests ops n n' q = Some (q1\<lparr>q_hash := m', nr_sorted := nr_sorted q1 - 1, last_merge := n\<rparr>)"
    using q1(1) m(1) m'(1) by (simp add: elv_merge_requests_def)
  ultimately show ?thesis using hd(3,4) by auto
qed

text \<open>
  A bio has been merged into the request \<open>n\<close>: in \<open>q0\<close> before, in \<open>q\<close> after its sector has been changed (front merge) or
  its length (back merge).
\<close>

lemma merged_request:
  assumes s: "sched_rep sinv q0 X D R" and n: "n \<in> R" "q_reqs q0 n = Some r"
    and r': "same_key (r\<lparr>sector := sec\<rparr>) r'" "type' = ELEVATOR_FRONT_MERGE \<or> sec = sector r"
    and q: "q = q0\<lparr>q_reqs := (q_reqs q0)(n \<mapsto> r')\<rparr>"
  shows "\<exists>q' D' A. elv_merged_request ops n type' q = Some q' \<and> A \<subseteq> R - {n} \<and> sched_rep sinv q' X D' (R - A) \<and>
    mset D' = mset D + mset_set A \<and> last_merge q' = n \<and> same_queue q q' \<and> same_reqs (q_reqs q) (q_reqs q')"
proof -
  obtain S w where h: "held sinv q0 X S w R" "w (queue_head q0) = D" "nr_sorted q0 = of_nat (card R)" "queue_rep q0 X S w R"
    "finite R" "R \<subseteq> X" by (rule sched_repE [OF s])
  have rep: "queue_rep q X S w R" using h(4) n(2) unfolding q by (subst queue_rep_simps) auto
  have sub: "R \<subseteq> dom (q_reqs q0)" using h(6) queue_repD(2) [OF h(4)] by auto
  have k: "same_keys R ((q_reqs q0)(n \<mapsto> r\<lparr>sector := sec\<rparr>)) (q_reqs q)"
    using sub r'(1) unfolding q same_keys_def by (fastforce simp: same_key_def)
  have i: "sinv (elevator_data q) (q_nodes q) (q_reqs q0) S w R" using h(1) by (simp add: held_def q)
  from merged [OF rep h(5) i n k r'(2)] obtain q1 w1 A where
    q1: "(case elevator_merged_fn ops of Some f \<Rightarrow> f n type' q | None \<Rightarrow> Some q) = Some q1" "A \<subseteq> R - {n}"
      "held sinv q1 X S w1 (R - A)" "moves q w A q1 w1" by blast
  have AR: "A \<subseteq> R" "n \<in> R - A" using q1(2) n(1) by auto
  have rep1: "queue_rep q1 X S w1 (R - A)" using q1(3) by (simp add: held_def)
  obtain m where m: "(if type' = ELEVATOR_BACK_MERGE then elv_rqhash_reposition n q1 else Some q1) = Some (q1\<lparr>q_hash := m\<rparr>)"
    "queue_rep (q1\<lparr>q_hash := m\<rparr>) X S w1 (R - A)"
  proof (cases "type' = ELEVATOR_BACK_MERGE")
    case True
    then show thesis using reposition [OF rep1 AR(2)] that by auto
  next
    case False
    then show thesis using rep1 that [of "q_hash q1"] by simp
  qed
  let ?q = "q1\<lparr>q_hash := m, last_merge := n\<rparr>"
  have "queue_rep ?q X S w1 (R - A)" using m(2) AR(2) unfolding queue_rep_def by simp
  then have "sched_rep sinv ?q X (w1 (queue_head q)) (R - A)"
    using q1(3,4) h(3) of_nat_card_Diff [OF h(5) AR(1)] unfolding sched_rep_def held_def
    by (auto simp: moves_def same_queue_def q)
  moreover have "elv_merged_request ops n type' q = Some ?q" using q1(1) m(1) by (simp add: elv_merged_request_def)
  ultimately show ?thesis using q1(2,4) h(2)
    by (intro exI [of _ ?q] exI [of _ "w1 (queue_head q)"] exI [of _ A]) (simp add: moves_def q)
qed

lemma try_merge:
  assumes h: "held sinv q X S w R" and b: "bios_ok q R" "q_bios q bio' = Some b" and n: "n \<in> R"
  shows "\<exists>ret. elv_try_merge ops n bio' q = Some ret \<and> adjacent q ret n b \<and>
    (ret \<noteq> ELEVATOR_NO_MERGE \<longrightarrow> elv_rq_merge_ok (elevator_allow_merge_fn ops) n bio' q = Some True)"
proof -
  from allow_merge [OF h n, of bio'] merge_ok_Some [OF b(1) n] b(2) obtain ok where
    ok: "elv_rq_merge_ok (elevator_allow_merge_fn ops) n bio' q = Some ok" by blast
  from b(1) n obtain r where r: "q_reqs q n = Some r" by (auto simp: bios_ok_def)
  have "blk_rq_pos r - ucast (bio_sectors b) = bi_sector b \<Longrightarrow> blk_rq_pos r = bi_sector b + ucast (bio_sectors b)"
    by (metis diff_add_cancel)
  then show ?thesis using ok r b(2)
    by (auto simp: elv_try_merge_def adjacent_def key_of_def rq_hash_key_def pos_of_def)
qed

lemma merge:
  assumes s: "sched_rep sinv q X D R" and b: "bios_ok q R" "q_bios q bio' = Some b"
  shows "\<exists>ret x q'. elv_merge ops bio' q = Some (ret, x, q') \<and> sched_rep sinv q' X D R \<and> q_reqs q' = q_reqs q \<and> same_queue q q' \<and>
    (ret \<noteq> ELEVATOR_NO_MERGE \<longrightarrow> x \<in> R \<and> adjacent q ret x b \<and> elv_rq_merge_ok (elevator_allow_merge_fn ops) x bio' q' = Some True)"
proof -
  obtain S w where h: "held sinv q X S w R" "w (queue_head q) = D" "nr_sorted q = of_nat (card R)" "queue_rep q X S w R"
    "finite R" "R \<subseteq> X" by (rule sched_repE [OF s])
  have last: "last_merge q \<noteq> NULL \<Longrightarrow> last_merge q \<in> R" using queue_repD(8) [OF h(4)] by auto
  have "\<exists>ret. (if last_merge q \<noteq> NULL then elv_try_merge ops (last_merge q) bio' q else Some ELEVATOR_NO_MERGE) = Some ret \<and>
      (ret \<noteq> ELEVATOR_NO_MERGE \<longrightarrow> last_merge q \<in> R \<and> adjacent q ret (last_merge q) b \<and>
        elv_rq_merge_ok (elevator_allow_merge_fn ops) (last_merge q) bio' q = Some True)"
    using try_merge [OF h(1) b last] last by auto
  then obtain ret where ret: "(if last_merge q \<noteq> NULL then elv_try_merge ops (last_merge q) bio' q else Some ELEVATOR_NO_MERGE) = Some ret"
      "ret \<noteq> ELEVATOR_NO_MERGE \<longrightarrow> last_merge q \<in> R \<and> adjacent q ret (last_merge q) b \<and>
        elv_rq_merge_ok (elevator_allow_merge_fn ops) (last_merge q) bio' q = Some True" by blast
  from elv_rqhash_find_rep [OF h(4), of "bi_sector b"] obtain x m where
    x: "elv_rqhash_find (bi_sector b) q = Some (x, q\<lparr>q_hash := m\<rparr>)" "queue_rep (q\<lparr>q_hash := m\<rparr>) X S w R"
      "x = NULL \<or> x \<in> R \<and> mergeable (q_reqs q) x \<and> key_of (q_reqs q) x = bi_sector b" by blast
  let ?q = "q\<lparr>q_hash := m\<rparr>"
  have h1: "held sinv ?q X S w R" using h(1) x(2) by (simp add: held_def)
  have s1: "sched_rep sinv ?q X D R" using h1 h(2,3) unfolding sched_rep_def by (intro conjI exI [of _ S] exI [of _ w]) simp_all
  have b1: "bios_ok ?q R" "q_bios ?q bio' = Some b" "bio' \<in> dom (q_bios ?q)" using b by (auto simp: bios_ok_def)
  obtain ok where ok: "(if x \<noteq> NULL then elv_rq_merge_ok (elevator_allow_merge_fn ops) x bio' ?q else Some False) = Some ok"
    using x(3) allow_merge [OF h1, of x bio'] merge_ok_Some [OF b1(1) _ b1(3), of x "elevator_allow_merge_fn ops"] by (cases "x = NULL") auto
  from merge_fn [OF h1 b1(1,2)] obtain fret y where
    f: "(case elevator_merge_fn ops of Some f \<Rightarrow> f bio' ?q | None \<Rightarrow> Some (ELEVATOR_NO_MERGE, NULL)) = Some (fret, y)"
      "fret = ELEVATOR_NO_MERGE \<or> fret = ELEVATOR_FRONT_MERGE \<and> y \<in> R \<and>
        elv_rq_merge_ok (elevator_allow_merge_fn ops) y bio' ?q = Some True \<and> pos_of (q_reqs q) y = bi_sector b + ucast (bio_sectors b)" by auto
  have look: "elv_merge_lookup ops bio' q = Some (if ok then (ELEVATOR_BACK_MERGE, x, ?q) else (fret, y, ?q))"
    using b(2) x(1) ok f(1) by (auto simp: elv_merge_lookup_def split: option.splits)
  have good: "x \<in> R \<and> adjacent q ELEVATOR_BACK_MERGE x b \<and> elv_rq_merge_ok (elevator_allow_merge_fn ops) x bio' ?q = Some True" if ok
    using ok that x(3) by (auto simp: adjacent_def split: if_splits)
  have good': "fret \<noteq> ELEVATOR_NO_MERGE \<longrightarrow> y \<in> R \<and> adjacent q fret y b \<and>
      elv_rq_merge_ok (elevator_allow_merge_fn ops) y bio' ?q = Some True" using f(2) by (auto simp: adjacent_def)
  have "elv_merge ops bio' q = Some (ELEVATOR_NO_MERGE, NULL, q) \<or>
      ret \<noteq> ELEVATOR_NO_MERGE \<and> elv_merge ops bio' q = Some (ret, last_merge q, q) \<or>
      elv_merge ops bio' q = elv_merge_lookup ops bio' q"
    unfolding elv_merge_def ret(1) bind.bind_lunit by simp
  then consider "elv_merge ops bio' q = Some (ELEVATOR_NO_MERGE, NULL, q)"
    | "ret \<noteq> ELEVATOR_NO_MERGE" "elv_merge ops bio' q = Some (ret, last_merge q, q)"
    | "elv_merge ops bio' q = elv_merge_lookup ops bio' q" by blast
  then show ?thesis
  proof cases
    case 1
    then show ?thesis using s by auto
  next
    case 2
    then show ?thesis using s ret(2) by auto
  next
    case 3
    then show ?thesis using look good good' s1
      by (cases ok) (auto intro!: exI [of _ ?q])
  qed
qed

section \<open>Requeueing\<close>

lemma insert_requeue:
  assumes s: "sched_rep sinv q X D R" and n: "n \<in> X" "n \<notin> R" "n \<notin> set D" and r: "q_reqs q n = Some r"
    and o: "ordseq q = 0 \<or> orig_bar_rq q \<in> dom (q_reqs q)"
  shows "\<exists>q'. elv_insert_requeue n q = Some q' \<and> sched_rep sinv q' X (requeue_in q n D) R \<and> same_queue q q' \<and>
    q_reqs q' = (q_reqs q)(n \<mapsto> set_flag REQ_SOFTBARRIER r)"
proof -
  let ?q = "q\<lparr>q_reqs := (q_reqs q)(n \<mapsto> set_flag REQ_SOFTBARRIER r)\<rparr>"
  have s1: "sched_rep sinv ?q X D R" using sched_rep_req [OF s r] n(2) by simp
  have k: "order_key (set_flag REQ_SOFTBARRIER r) = order_key r"
    by (simp add: order_key_def set_flag_def blk_fs_request_def REQ_SOFTBARRIER_def REQ_ORDERED_COLOR_def bit.conj_disj_distrib2)
  have seq: "blk_ordered_req_seq x ?q = blk_ordered_req_seq x q" for x
    by (rule blk_ordered_req_seq_cong) (use k r in auto)
  show ?thesis
  proof (cases "ordseq q = 0")
    case True
    from s1 have "sched_rep sinv ?q X ([] @ D) R" by simp
    from dispatch_place(1) [OF this n(1,2)] n(3) obtain m where
      "list_add n (queue_head q) (q_lists q) = Some m" "sched_rep sinv (?q\<lparr>q_lists := m\<rparr>) X (n # D) R" by auto
    then show ?thesis using r True
      by (intro exI [of _ "?q\<lparr>q_lists := m\<rparr>"]) (simp add: elv_insert_requeue_def on_req_Some on_lists_def requeue_in_def)
  next
    case False
    then have ob: "orig_bar_rq ?q \<in> dom (q_reqs ?q)" "ordseq ?q \<noteq> 0" using o by auto
    let ?ys = "takeWhile (seq_before q n) D" and ?zs = "dropWhile (seq_before q n) D"
    obtain S w where h: "held sinv ?q X S w R" "w (queue_head ?q) = D" "nr_sorted ?q = of_nat (card R)" "queue_rep ?q X S w R"
      by (rule sched_repE [OF s1])
    note D = queue_repD [OF h(4)]
    have "n \<in> dom (q_reqs ?q)" by simp
    from blk_ordered_req_seq_Some [OF this ob] obtain sn where sn: "blk_ordered_req_seq n ?q = Some sn" by blast
    have "w (queue_head ?q) = [] @ D" using h(2) by simp
    from elv_requeue_walk_rep [OF D(1,2) ob this, of sn]
    have walk: "elv_requeue_walk sn (hd (D @ [queue_head q])) ?q = Some (hd (?zs @ [queue_head q]))"
      using sn unfolding seq_before_def [abs_def] seq by simp
    have first: "get_next (queue_head q) (q_lists q) = Some (hd (D @ [queue_head q]))"
      using lists_first [OF D(1) insertI1] h(2) by simp
    have "sched_rep sinv ?q X (?ys @ ?zs) R" "n \<notin> set (?ys @ ?zs)" using s1 n(3) by simp_all
    from dispatch_place(2) [OF this(1) n(1,2) this(2)] obtain m where
      m: "list_add_tail n (hd (?zs @ [queue_head q])) (q_lists q) = Some m" "sched_rep sinv (?q\<lparr>q_lists := m\<rparr>) X (?ys @ n # ?zs) R" by auto
    have "elv_insert_requeue n q = Some (?q\<lparr>q_lists := m\<rparr>)"
      using r False sn first walk m(1) by (simp add: elv_insert_requeue_def on_req_Some on_lists_def)
    then show ?thesis using m(2) False by (intro exI [of _ "?q\<lparr>q_lists := m\<rparr>"]) (simp add: requeue_in_def)
  qed
qed

lemma deactivate_rq:
  assumes s: "sched_rep sinv q X D R" and n: "n \<in> X" "n \<notin> R"
  shows "\<exists>q'. elv_deactivate_rq ops n q = Some q' \<and> sched_rep sinv q' X D R \<and> same_queue q q' \<and> same_reqs (q_reqs q) (q_reqs q')"
proof -
  obtain S w where h: "held sinv q X S w R" "w (queue_head q) = D" "nr_sorted q = of_nat (card R)" by (rule sched_repE [OF s])
  from deactivate [OF h(1), of n] n obtain q' where
    q': "elv_deactivate_rq ops n q = Some q'" "held sinv q' X S w R" "nr_sorted q' = nr_sorted q" "same_queue q q'"
      "same_reqs (q_reqs q) (q_reqs q')" by blast
  then have "sched_rep sinv q' X D R" using h(2,3) unfolding sched_rep_def
    by (intro conjI exI [of _ S] exI [of _ w]) (simp_all add: same_queue_def)
  with q' show ?thesis by blast
qed

text \<open>
  A request that the driver gives back goes to the place of its sequence in the dispatch queue, the front of the queue
  when no ordered sequence is in progress, and leaves the count of requests in flight.
\<close>

lemma requeue_request:
  assumes s: "sched_rep sinv q X D R" and n: "n \<in> X" "n \<notin> R" "n \<notin> set D" and r: "q_reqs q n = Some r"
    and o: "ordseq q = 0 \<or> orig_bar_rq q \<in> dom (q_reqs q)"
  shows "\<exists>q' r'. elv_requeue_request ops request_fn n q = Some q' \<and> sched_rep sinv q' X (requeue_in q n D) R \<and>
    in_flight q' = unaccounted r q \<and> q_reqs q' n = Some r' \<and> \<not> has_flag r' REQ_STARTED \<and> has_flag r' REQ_SOFTBARRIER"
proof -
  let ?q = "q\<lparr>in_flight := unaccounted r q\<rparr>"
  have s0: "sched_rep sinv ?q X D R" using s by (simp add: sched_rep_simps)
  have acc: "(if blk_account_rq r then q\<lparr>in_flight := (in_flight q)(rq_is_sync r := in_flight q (rq_is_sync r) - 1)\<rparr> else q) = ?q"
    by (simp add: unaccounted_def)
  obtain q1 where q1: "(if blk_account_rq r \<and> blk_sorted_rq r then elv_deactivate_rq ops n ?q else Some ?q) = Some q1"
    "sched_rep sinv q1 X D R" "same_queue ?q q1" "same_reqs (q_reqs q) (q_reqs q1)"
    using deactivate_rq [OF s0 n(1,2)] s0 by (cases "blk_account_rq r \<and> blk_sorted_rq r") auto
  have "untimed (q_reqs q1 n) = untimed (Some r)" using q1(4) r by (simp add: same_reqs_def)
  then obtain r1 where r1: "q_reqs q1 n = Some r1" "r1\<lparr>fifo_time := 0\<rparr> = r\<lparr>fifo_time := 0\<rparr>" by (auto simp: untimed_def)
  let ?r = "r1\<lparr>cmd_flags := cmd_flags r1 AND NOT REQ_STARTED\<rparr>"
  let ?q2 = "q1\<lparr>q_reqs := (q_reqs q1)(n \<mapsto> ?r)\<rparr>"
  have s2: "sched_rep sinv ?q2 X D R" using sched_rep_req [OF q1(2) r1(1)] n(2) by blast
  have "order_key ?r = order_key r1"
    by (simp add: order_key_def blk_fs_request_def REQ_STARTED_def REQ_ORDERED_COLOR_def and.assoc)
  then have key: "map_option order_key (q_reqs ?q2 x) = map_option order_key (q_reqs q x)" for x
    using same_reqs_order [OF q1(4), of x] r1(1) by auto
  have dom: "dom (q_reqs ?q2) = dom (q_reqs q)" using same_reqs_dom [OF q1(4)] r1(1) by auto
  have o2: "ordseq ?q2 = 0 \<or> orig_bar_rq ?q2 \<in> dom (q_reqs ?q2)"
    using o q1(3) unfolding dom by (auto simp: same_queue_def)
  have r2: "q_reqs ?q2 n = Some ?r" by simp
  from insert_requeue [OF s2 n r2 o2] obtain q3 where
    q3: "elv_insert_requeue n ?q2 = Some q3" "sched_rep sinv q3 X (requeue_in ?q2 n D) R" "same_queue ?q2 q3"
      "q_reqs q3 = (q_reqs ?q2)(n \<mapsto> set_flag REQ_SOFTBARRIER ?r)" by blast
  have sq: "same_queue (q\<lparr>in_flight := unaccounted r q\<rparr>) q3" using same_queue_trans [OF q1(3)] q3(3) by simp
  have "requeue_in ?q2 n D = requeue_in ?q n D" by (rule requeue_in_cong) (use q1(3) key in auto)
  moreover have "requeue_in ?q n D = requeue_in q n D"
    by (simp add: requeue_in_def seq_before_def [abs_def] blk_ordered_req_seq_def cong: if_cong)
  moreover have "elv_requeue_request ops request_fn n q = elv_insert ops request_fn n ELEVATOR_INSERT_REQUEUE ?q2"
    unfolding elv_requeue_request_def r by (simp only: bind.bind_lunit Let_def acc q1(1) on_req_Some [OF r1(1)])
  moreover have "elv_insert ops request_fn n ELEVATOR_INSERT_REQUEUE ?q2 = Some q3"
    using q3(1) by (simp add: elv_insert_def ELEVATOR_INSERT_REQUEUE_def ELEVATOR_INSERT_FRONT_def
        ELEVATOR_INSERT_BACK_def ELEVATOR_INSERT_SORT_def Let_def)
  moreover have "\<not> has_flag (set_flag REQ_SOFTBARRIER ?r) REQ_STARTED" "has_flag (set_flag REQ_SOFTBARRIER ?r) REQ_SOFTBARRIER"
    by (simp_all add: has_flag_def set_flag_def REQ_STARTED_def REQ_SOFTBARRIER_def bit.conj_disj_distrib2 and.assoc)
  ultimately show ?thesis using q3(2,4) sq
    by (intro exI [of _ q3] exI [of _ "set_flag REQ_SOFTBARRIER ?r"]) (simp add: same_queue_def)
qed

end

end
