(* ===== verification/Iosched_Noop.thy ===== *)
theory Iosched_Noop
  imports Elevator_Core
begin

text \<open>
  The scheduler of \<open>block/noop-iosched.c\<close>: one first-in first-out list.
\<close>

section \<open>The scheduler\<close>

record noop_data =
  noop_queue :: addr

definition noop_merged_requests :: "addr \<Rightarrow> addr \<Rightarrow> noop_data request_queue \<Rightarrow> noop_data request_queue option" where
  "noop_merged_requests rq next' q = on_lists (list_del_init next') q"

definition noop_dispatch :: "bool \<Rightarrow> noop_data request_queue \<Rightarrow> (bool \<times> noop_data request_queue) option" where
  "noop_dispatch force q = do {
     let nd = elevator_data q;
     empty \<leftarrow> list_empty (noop_queue nd) (q_lists q);
     if \<not> empty then do {
       rq \<leftarrow> get_next (noop_queue nd) (q_lists q);
       q \<leftarrow> on_lists (list_del_init rq) q;
       q \<leftarrow> elv_dispatch_sort rq q;
       Some (True, q) }
     else Some (False, q) }"

definition noop_add_request :: "addr \<Rightarrow> noop_data request_queue \<Rightarrow> noop_data request_queue option" where
  "noop_add_request rq q = on_lists (list_add_tail rq (noop_queue (elevator_data q))) q"

definition noop_queue_empty :: "noop_data request_queue \<Rightarrow> bool option" where
  "noop_queue_empty q = list_empty (noop_queue (elevator_data q)) (q_lists q)"

definition noop_former_request :: "addr \<Rightarrow> noop_data request_queue \<Rightarrow> addr option" where
  "noop_former_request rq q = do {
     prev \<leftarrow> get_prev rq (q_lists q);
     Some (if prev = noop_queue (elevator_data q) then NULL else prev) }"

definition noop_latter_request :: "addr \<Rightarrow> noop_data request_queue \<Rightarrow> addr option" where
  "noop_latter_request rq q = do {
     next' \<leftarrow> get_next rq (q_lists q);
     Some (if next' = noop_queue (elevator_data q) then NULL else next') }"

text \<open>\<open>nd\<close> is what the allocator returns; \<open>NULL\<close> is the result when it has no memory.\<close>

definition noop_init_queue ::
  "addr \<Rightarrow> 'd request_queue \<Rightarrow> (noop_data option \<times> 'd request_queue) option" where
  "noop_init_queue nd q =
     (if nd = NULL then Some (None, q)
      else do {
        q \<leftarrow> on_lists (INIT_LIST_HEAD nd) q;
        Some (Some \<lparr>noop_queue = nd\<rparr>, q) })"

definition noop_exit_queue :: "noop_data request_queue \<Rightarrow> unit option" where
  "noop_exit_queue q = do {
     empty \<leftarrow> list_empty (noop_queue (elevator_data q)) (q_lists q);
     BUG_ON (\<not> empty) }"

definition elevator_noop :: "noop_data elevator_ops" where
  "elevator_noop = \<lparr>elevator_merge_fn = None, elevator_merged_fn = None,
     elevator_merge_req_fn = Some noop_merged_requests, elevator_allow_merge_fn = None,
     elevator_dispatch_fn = noop_dispatch, elevator_add_req_fn = noop_add_request,
     elevator_deactivate_req_fn = None, elevator_queue_empty_fn = Some noop_queue_empty,
     elevator_former_req_fn = Some noop_former_request,
     elevator_latter_req_fn = Some noop_latter_request,
     elevator_exit_fn = Some noop_exit_queue\<rparr>"

section \<open>Correctness\<close>

text \<open>The scheduler holds exactly the requests on its list.\<close>

definition noop_inv :: "noop_data sched_inv" where
  "noop_inv d ns m S w R \<longleftrightarrow> S = {noop_queue d} \<and> set (w (noop_queue d)) = R"

lemma noop_frame:
  "noop_inv d ns m S w R \<Longrightarrow> (\<And>a. a \<in> S \<Longrightarrow> w' a = w a) \<Longrightarrow> same_keys R m m' \<Longrightarrow>
   (\<And>x. x \<in> R \<Longrightarrow> ns' x = ns x) \<Longrightarrow> noop_inv d ns' m' S w' R"
  by (simp add: noop_inv_def)

lemma noop_listed: "noop_inv d ns m S w R \<Longrightarrow> a \<in> S \<Longrightarrow> set (w a) \<subseteq> R"
  by (auto simp: noop_inv_def)

lemma noop_heldD:
  assumes "held noop_inv q X S w R"
  shows "queue_rep q X S w R" "S = {noop_queue (elevator_data q)}" "set (w (noop_queue (elevator_data q))) = R"
    "list_empty (noop_queue (elevator_data q)) (q_lists q) = Some (R = {})"
  using assms lists_empty [OF queue_repD(1), of q X S w R "noop_queue (elevator_data q)"]
  by (auto simp: held_def noop_inv_def)

lemma noop_dispatch_none:
  assumes "held noop_inv q X S w {}"
  shows "\<exists>d'. elevator_dispatch_fn elevator_noop force q = Some (False, q\<lparr>elevator_data := d'\<rparr>) \<and>
    noop_inv d' (q_nodes q) (q_reqs q) S w {}"
  using noop_heldD(4) [OF assms] assms
  by (intro exI [of _ "elevator_data q"]) (simp add: elevator_noop_def noop_dispatch_def held_def)

lemma noop_dispatch_one:
  assumes h: "held noop_inv q X S w R" and R: "R \<noteq> {}"
  shows "\<exists>q' n w'. elevator_dispatch_fn elevator_noop force q = Some (True, q') \<and> n \<in> R \<and>
    held noop_inv q' X S w' (R - {n}) \<and> moves q w {n} q' w'"
proof -
  let ?a = "noop_queue (elevator_data q)"
  note D = noop_heldD [OF h]
  from D(3) R obtain n xs where w: "w ?a = n # xs" by (cases "w ?a") auto
  have n: "n \<in> R" "n \<in> X" using w D(3) queue_repD(6) [OF D(1)] by auto
  from queue_rep_del [OF D(1) n(2)] obtain ml where
    ml: "list_del_init n (q_lists q) = Some ml" "queue_rep (q\<lparr>q_lists := ml\<rparr>) X S (wo n w) R" by blast
  let ?q = "q\<lparr>q_lists := ml\<rparr>"
  have "n \<notin> listed (queue_head ?q) S (wo n w)" by (simp add: listed_wo)
  from elv_dispatch_sort_rep [OF ml(2) n(2) this] obtain q' where
    q': "elv_dispatch_sort n ?q = Some q'"
      "queue_rep q' X S ((wo n w)(queue_head q := sort_in ?q n (wo n w (queue_head q)))) (R - {n})"
      "nr_sorted q' = nr_sorted q - 1" "elevator_data q' = elevator_data q" "q_reqs q' = q_reqs q" "same_queue ?q q'"
    by auto
  have "elevator_dispatch_fn elevator_noop force q = Some (True, q')"
    using D(2,4) R lists_first [OF queue_repD(1) [OF D(1)], of ?a] w ml(1) q'(1)
    by (simp add: elevator_noop_def noop_dispatch_def on_lists_def)
  moreover have "n \<notin> set (w (queue_head q))" using n(1) queue_repD(7) [OF D(1)] by auto
  moreover have "n \<in> dom (q_reqs ?q)" using n(2) queue_repD(2) [OF D(1)] by auto
  note mset_sort_in [OF this]
  moreover have "?a \<noteq> queue_head q" using D(2) lists_repD(2) [OF queue_repD(1) [OF D(1)]] by auto
  ultimately show ?thesis using n(1) q' D h
    by (intro exI [of _ q'] exI [of _ n] exI) (auto simp: held_def noop_inv_def moves_def)
qed

lemma noop_add:
  assumes q: "queue_rep q X S w (insert n R)" and R: "finite R" "n \<notin> R"
    and i: "noop_inv (elevator_data q) (q_nodes q) (q_reqs q) S w R"
  shows "\<exists>q' w' A. elevator_add_req_fn elevator_noop n q = Some q' \<and> A \<subseteq> R \<and>
    held noop_inv q' X S w' (insert n (R - A)) \<and> moves q w A q' w'"
proof -
  let ?a = "noop_queue (elevator_data q)"
  have a: "?a \<in> S" "set (w ?a) = R" "S = {?a}" using i by (auto simp: noop_inv_def)
  have n: "n \<in> X" "n \<notin> listed (queue_head q) S w"
    using queue_repD(6,7) [OF q] a(2,3) R(2) by (auto simp: listed_def)
  from queue_rep_add_tail [OF q a(1) n] obtain ml where
    ml: "list_add_tail n ?a (q_lists q) = Some ml"
      "queue_rep (q\<lparr>q_lists := ml\<rparr>) X S (w(?a := w ?a @ [n])) (insert n R)" by blast
  have "queue_head q \<noteq> ?a" using a(1) lists_repD(2) [OF queue_repD(1) [OF q]] by auto
  with ml a R show ?thesis
    by (intro exI [of _ "q\<lparr>q_lists := ml\<rparr>"] exI [of _ "w(?a := w ?a @ [n])"] exI [of _ "{}"])
      (auto simp: elevator_noop_def noop_add_request_def on_lists_def held_def noop_inv_def moves_def)
qed

lemma noop_merge_req:
  assumes h: "held noop_inv q X S w R" and n: "n' \<in> R"
  shows "\<exists>q' w'. (case elevator_merge_req_fn elevator_noop of Some f \<Rightarrow> f n n' q | None \<Rightarrow> Some q) = Some q' \<and>
    queue_rep q' X S w' R \<and> noop_inv (elevator_data q') (q_nodes q') (q_reqs q') S w' (R - {n'}) \<and>
    w' (queue_head q) = w (queue_head q) \<and> moves q w {} q' w'"
proof -
  note D = noop_heldD [OF h]
  have n': "n' \<in> X" "n' \<notin> set (w (queue_head q))" using queue_repD(6,7) [OF D(1)] n by auto
  from queue_rep_del [OF D(1) n'(1)] obtain ml where
    ml: "list_del_init n' (q_lists q) = Some ml" "queue_rep (q\<lparr>q_lists := ml\<rparr>) X S (wo n' w) R" by blast
  then show ?thesis using D(2,3) n'
    by (intro exI [of _ "q\<lparr>q_lists := ml\<rparr>"] exI [of _ "wo n' w"])
      (auto simp: elevator_noop_def noop_merged_requests_def on_lists_def noop_inv_def moves_def)
qed

lemma noop_latter:
  assumes h: "held noop_inv q X S w R" and n: "n \<in> R"
  shows "\<exists>x. elv_latter_request elevator_noop n q = Some x \<and> (x = NULL \<or> x \<in> R \<and> x \<noteq> n)"
proof -
  let ?a = "noop_queue (elevator_data q)"
  note D = noop_heldD [OF h]
  note L = queue_repD(1) [OF D(1)]
  from D(3) n obtain ys zs where w: "w ?a = ys @ n # zs" by (metis split_list)
  have a: "?a \<in> insert (queue_head q) S" using D(2) by simp
  have "hd (zs @ [?a]) \<noteq> ?a \<Longrightarrow> hd (zs @ [?a]) \<in> R \<and> hd (zs @ [?a]) \<noteq> n"
    using w D(3) lists_distinct [OF L a] by (cases zs) auto
  with lists_entry(1) [OF L a w] show ?thesis
    by (auto simp: elv_latter_request_def elevator_noop_def noop_latter_request_def)
qed

lemma noop_merged:
  assumes "queue_rep q X S w R" "finite R" "noop_inv (elevator_data q) (q_nodes q) m S w R"
  shows "\<exists>q' w' A. (case elevator_merged_fn elevator_noop of Some f \<Rightarrow> f n type' q | None \<Rightarrow> Some q) = Some q' \<and>
    A \<subseteq> R - {n} \<and> held noop_inv q' X S w' (R - A) \<and> moves q w A q' w'"
  using assms by (intro exI [of _ q] exI [of _ w] exI [of _ "{}"])
    (auto simp: elevator_noop_def held_def noop_inv_def moves_def)

lemmas noop_hooks = elevator_noop_def elv_iosched_allow_merge_def elv_deactivate_rq_def

lemma noop_allow:
  "held noop_inv q X S w R \<Longrightarrow> n \<in> R \<Longrightarrow> \<exists>b. elv_iosched_allow_merge (elevator_allow_merge_fn elevator_noop) n bio' q = Some b"
  by (auto simp: noop_hooks)

lemma noop_merge_fn:
  "held noop_inv q X S w R \<Longrightarrow> bios_ok q R \<Longrightarrow> q_bios q bio' = Some b \<Longrightarrow>
    \<exists>ret x. (case elevator_merge_fn elevator_noop of Some f \<Rightarrow> f bio' q | None \<Rightarrow> Some (ELEVATOR_NO_MERGE, NULL)) = Some (ret, x) \<and>
    (ret = ELEVATOR_NO_MERGE \<or> ret = ELEVATOR_FRONT_MERGE \<and> x \<in> R \<and>
      elv_rq_merge_ok (elevator_allow_merge_fn elevator_noop) x bio' q = Some True \<and>
      pos_of (q_reqs q) x = bi_sector b + ucast (bio_sectors b))"
  by (simp add: noop_hooks)

lemma noop_deactivate:
  "held noop_inv q X S w R \<Longrightarrow> n \<in> X - R \<Longrightarrow> \<exists>q'. elv_deactivate_rq elevator_noop n q = Some q' \<and> held noop_inv q' X S w R \<and>
    nr_sorted q' = nr_sorted q \<and> same_queue q q' \<and> same_reqs (q_reqs q) (q_reqs q')"
  by (simp add: noop_hooks)

interpretation noop: elevator elevator_noop noop_inv
proof
  fix q X S w R
  assume h: "held noop_inv q X S w R"
  then show "(case elevator_queue_empty_fn elevator_noop of Some f \<Rightarrow> f q | None \<Rightarrow> Some True) = Some (R = {})"
    using noop_heldD(4) by (simp add: elevator_noop_def noop_queue_empty_def)
next
  fix q X S w
  assume "held noop_inv q X S w {}"
  then show "(case elevator_exit_fn elevator_noop of Some f \<Rightarrow> f q | None \<Rightarrow> Some ()) = Some ()"
    using noop_heldD(4) by (simp add: elevator_noop_def noop_exit_queue_def)
qed (fact noop_allow noop_merge_fn noop_deactivate noop_frame noop_listed noop_dispatch_none noop_dispatch_one noop_merge_req noop_latter |
    (erule noop_add noop_merged noop_merge_req; assumption))+

end
