(* ===== verification/Iosched_Sio.thy ===== *)
theory Iosched_Sio
  imports Elevator_Core
begin

text \<open>
  The scheduler of \<open>block/sio-iosched.c\<close>, the default one of this kernel: a first-in first-out list of
  synchronous and one of asynchronous requests, with expiry times that are looked at after
  each batch.
\<close>

section \<open>The scheduler\<close>

definition sio_sync_expire :: u32 where "sio_sync_expire = HZ div 2"
definition sio_async_expire :: u32 where "sio_async_expire = 5 * HZ"
definition sio_fifo_batch :: u32 where "sio_fifo_batch = 16"

text \<open>The list heads are the elements of the array \<open>fifo_list\<close>, indexed by \<open>ASYNC\<close> and \<open>SYNC\<close>.\<close>

record sio_data =
  sd_fifo_list :: "bool \<Rightarrow> addr"
  sd_batched :: u32
  sd_fifo_expire :: "bool \<Rightarrow> u32"
  sd_fifo_batch :: u32

definition sio_merged_requests :: "addr \<Rightarrow> addr \<Rightarrow> sio_data request_queue \<Rightarrow> sio_data request_queue option" where
  "sio_merged_requests rq next' q = do {
     q \<leftarrow> fifo_inherit rq next' q;
     rq_fifo_clear next' q }"

definition sio_add_request :: "addr \<Rightarrow> sio_data request_queue \<Rightarrow> sio_data request_queue option" where
  "sio_add_request rq q = do {
     let sd = elevator_data q;
     r \<leftarrow> q_reqs q rq;
     let sync = rq_is_sync r;
     q \<leftarrow> rq_set_fifo_time rq (jiffies q + sd_fifo_expire sd sync) q;
     on_lists (list_add_tail rq (sd_fifo_list sd sync)) q }"

definition sio_queue_empty :: "sio_data request_queue \<Rightarrow> bool option" where
  "sio_queue_empty q = do {
     let sd = elevator_data q;
     sync_empty \<leftarrow> list_empty (sd_fifo_list sd SYNC) (q_lists q);
     if \<not> sync_empty then Some False else list_empty (sd_fifo_list sd ASYNC) (q_lists q) }"

definition sio_expired_request :: "bool \<Rightarrow> sio_data request_queue \<Rightarrow> addr option" where
  "sio_expired_request sync q = do {
     let sd = elevator_data q;
     empty \<leftarrow> list_empty (sd_fifo_list sd sync) (q_lists q);
     if empty then Some NULL
     else do {
       rq \<leftarrow> get_next (sd_fifo_list sd sync) (q_lists q);
       r \<leftarrow> q_reqs q rq;
       Some (if time_after (jiffies q) (fifo_time r) then rq else NULL) } }"

definition sio_choose_expired_request :: "sio_data request_queue \<Rightarrow> addr option" where
  "sio_choose_expired_request q = do {
     sync \<leftarrow> sio_expired_request SYNC q;
     async \<leftarrow> sio_expired_request ASYNC q;
     Some (if sync \<noteq> NULL \<and> async \<noteq> NULL then async
           else if sync \<noteq> NULL then sync
           else async) }"

definition sio_choose_request :: "sio_data request_queue \<Rightarrow> addr option" where
  "sio_choose_request q = do {
     let sd = elevator_data q;
     sync_empty \<leftarrow> list_empty (sd_fifo_list sd SYNC) (q_lists q);
     if \<not> sync_empty then get_next (sd_fifo_list sd SYNC) (q_lists q)
     else do {
       async_empty \<leftarrow> list_empty (sd_fifo_list sd ASYNC) (q_lists q);
       if \<not> async_empty then get_next (sd_fifo_list sd ASYNC) (q_lists q)
       else Some NULL } }"

definition sio_dispatch_request :: "addr \<Rightarrow> sio_data request_queue \<Rightarrow> sio_data request_queue option" where
  "sio_dispatch_request rq q = do {
     q \<leftarrow> rq_fifo_clear rq q;
     q \<leftarrow> elv_dispatch_add_tail rq q;
     let sd = elevator_data q;
     Some (q\<lparr>elevator_data := sd\<lparr>sd_batched := sd_batched sd + 1\<rparr>\<rparr>) }"

definition sio_dispatch_requests :: "bool \<Rightarrow> sio_data request_queue \<Rightarrow> (bool \<times> sio_data request_queue) option" where
  "sio_dispatch_requests force q = do {
     let sd = elevator_data q;
     (rq, q) \<leftarrow> (if sd_batched sd > sd_fifo_batch sd then do {
            let q = q\<lparr>elevator_data := sd\<lparr>sd_batched := 0\<rparr>\<rparr>;
            rq \<leftarrow> sio_choose_expired_request q;
            Some (rq, q) }
          else Some (NULL, q));
     rq \<leftarrow> (if rq = NULL then sio_choose_request q else Some rq);
     if rq = NULL then Some (False, q)
     else do {
       q \<leftarrow> sio_dispatch_request rq q;
       Some (True, q) } }"

definition sio_former_request :: "addr \<Rightarrow> sio_data request_queue \<Rightarrow> addr option" where
  "sio_former_request rq q = do {
     r \<leftarrow> q_reqs q rq;
     prev \<leftarrow> get_prev rq (q_lists q);
     Some (if prev = sd_fifo_list (elevator_data q) (rq_is_sync r) then NULL else prev) }"

definition sio_latter_request :: "addr \<Rightarrow> sio_data request_queue \<Rightarrow> addr option" where
  "sio_latter_request rq q = do {
     r \<leftarrow> q_reqs q rq;
     next' \<leftarrow> get_next rq (q_lists q);
     Some (if next' = sd_fifo_list (elevator_data q) (rq_is_sync r) then NULL else next') }"

text \<open>\<open>sd\<close> is what the allocator returns; the array \<open>fifo_list\<close> is the first member of the structure.\<close>

definition sio_init_queue ::
  "addr \<Rightarrow> 'd request_queue \<Rightarrow> (sio_data option \<times> 'd request_queue) option" where
  "sio_init_queue sd q =
     (if sd = NULL then Some (None, q)
      else do {
        let fifo_list = (\<lambda>sync. if sync then sd + 8 else sd);
        q \<leftarrow> on_lists (INIT_LIST_HEAD (fifo_list SYNC)) q;
        q \<leftarrow> on_lists (INIT_LIST_HEAD (fifo_list ASYNC)) q;
        Some (Some \<lparr>sd_fifo_list = fifo_list, sd_batched = 0,
                sd_fifo_expire = (\<lambda>sync. if sync then sio_sync_expire else sio_async_expire),
                sd_fifo_batch = sio_fifo_batch\<rparr>, q) })"

definition sio_exit_queue :: "sio_data request_queue \<Rightarrow> unit option" where
  "sio_exit_queue q = do {
     sync_empty \<leftarrow> list_empty (sd_fifo_list (elevator_data q) SYNC) (q_lists q);
     _ \<leftarrow> BUG_ON (\<not> sync_empty);
     async_empty \<leftarrow> list_empty (sd_fifo_list (elevator_data q) ASYNC) (q_lists q);
     BUG_ON (\<not> async_empty) }"

definition iosched_sio :: "sio_data elevator_ops" where
  "iosched_sio = \<lparr>elevator_merge_fn = None, elevator_merged_fn = None,
     elevator_merge_req_fn = Some sio_merged_requests, elevator_allow_merge_fn = None,
     elevator_dispatch_fn = sio_dispatch_requests, elevator_add_req_fn = sio_add_request,
     elevator_deactivate_req_fn = None, elevator_queue_empty_fn = Some sio_queue_empty,
     elevator_former_req_fn = Some sio_former_request,
     elevator_latter_req_fn = Some sio_latter_request,
     elevator_exit_fn = Some sio_exit_queue\<rparr>"

section \<open>Correctness\<close>

text \<open>The scheduler holds the requests on its two lists, synchronous ones on one and the others on the other.\<close>

definition sio_inv :: "sio_data sched_inv" where
  "sio_inv d ns m S w R \<longleftrightarrow> S = range (sd_fifo_list d) \<and> sd_fifo_list d SYNC \<noteq> sd_fifo_list d ASYNC \<and>
     (\<Union>a\<in>S. set (w a)) = R \<and>
     (\<forall>b. \<forall>x\<in>set (w (sd_fifo_list d b)). \<exists>r. m x = Some r \<and> rq_is_sync r = b)"

lemma sio_inv_sets:
  assumes "sio_inv d ns m S w R" "\<And>a. a \<in> S \<Longrightarrow> set (w' a) = set (w a)" "same_keys R m m'"
  shows "sio_inv d ns' m' S w' R"
proof -
  have "\<exists>r. m' x = Some r \<and> rq_is_sync r = b" if "x \<in> set (w (sd_fifo_list d b))" for x b
  proof -
    from assms(1) that have "x \<in> R" "\<exists>r. m x = Some r \<and> rq_is_sync r = b" by (auto simp: sio_inv_def)
    then show ?thesis using assms(3) by (fastforce simp: same_keys_def same_key_def)
  qed
  then show ?thesis using assms(1,2) by (auto simp: sio_inv_def)
qed

lemma sio_frame:
  "sio_inv d ns m S w R \<Longrightarrow> (\<And>a. a \<in> S \<Longrightarrow> w' a = w a) \<Longrightarrow> same_keys R m m' \<Longrightarrow>
   (\<And>x. x \<in> R \<Longrightarrow> ns' x = ns x) \<Longrightarrow> sio_inv d ns' m' S w' R"
  by (rule sio_inv_sets [where w = w]) simp_all

lemma sio_listed: "sio_inv d ns m S w R \<Longrightarrow> a \<in> S \<Longrightarrow> set (w a) \<subseteq> R"
  by (auto simp: sio_inv_def)

lemma sio_inv_wo: "sio_inv d ns m S w R \<Longrightarrow> sio_inv d ns m S (wo n w) (R - {n})"
  by (auto simp: sio_inv_def)

lemma sio_heldD:
  assumes "held sio_inv q X S w R"
  shows "queue_rep q X S w R" "sd_fifo_list (elevator_data q) b \<in> S"
    "list_empty (sd_fifo_list (elevator_data q) b) (q_lists q) = Some (w (sd_fifo_list (elevator_data q) b) = [])"
    "R = {} \<longleftrightarrow> (\<forall>b. w (sd_fifo_list (elevator_data q) b) = [])"
    "x \<in> set (w (sd_fifo_list (elevator_data q) b)) \<Longrightarrow> x \<in> R \<and> (\<exists>r. q_reqs q x = Some r \<and> rq_is_sync r = b)"
    "get_next (sd_fifo_list (elevator_data q) b) (q_lists q) =
       Some (hd (w (sd_fifo_list (elevator_data q) b) @ [sd_fifo_list (elevator_data q) b]))"
proof -
  show q: "queue_rep q X S w R" and S: "sd_fifo_list (elevator_data q) b \<in> S" for b
    using assms by (auto simp: held_def sio_inv_def)
  then show "list_empty (sd_fifo_list (elevator_data q) b) (q_lists q) = Some (w (sd_fifo_list (elevator_data q) b) = [])"
    "get_next (sd_fifo_list (elevator_data q) b) (q_lists q) =
       Some (hd (w (sd_fifo_list (elevator_data q) b) @ [sd_fifo_list (elevator_data q) b]))"
    using lists_empty [OF queue_repD(1) [OF q]] lists_first [OF queue_repD(1) [OF q]] by auto
  show "R = {} \<longleftrightarrow> (\<forall>b. w (sd_fifo_list (elevator_data q) b) = [])"
    using assms by (auto simp: held_def sio_inv_def)
  show "x \<in> set (w (sd_fifo_list (elevator_data q) b)) \<Longrightarrow> x \<in> R \<and> (\<exists>r. q_reqs q x = Some r \<and> rq_is_sync r = b)"
    using assms by (auto simp: held_def sio_inv_def)
qed

text \<open>What the scheduler chooses is \<open>NULL\<close> only when it holds nothing.\<close>

lemma sio_expired_request_rep:
  assumes h: "held sio_inv q X S w R"
  shows "\<exists>x. sio_expired_request b q = Some x \<and> (x = NULL \<or> x \<in> R)"
proof (cases "w (sd_fifo_list (elevator_data q) b)")
  case Nil
  then show ?thesis using sio_heldD(3) [OF h, of b] by (simp add: sio_expired_request_def)
next
  case (Cons x xs)
  with sio_heldD(5) [OF h, of x b] obtain r where "x \<in> R" "q_reqs q x = Some r" by auto
  then show ?thesis using Cons sio_heldD(3,6) [OF h, of b] by (auto simp: sio_expired_request_def)
qed

lemma sio_choose_expired_request_rep:
  assumes h: "held sio_inv q X S w R"
  shows "\<exists>x. sio_choose_expired_request q = Some x \<and> (x = NULL \<or> x \<in> R)"
  using sio_expired_request_rep [OF h, of SYNC] sio_expired_request_rep [OF h, of ASYNC]
  by (auto simp: sio_choose_expired_request_def)

lemma sio_choose_request_rep:
  assumes h: "held sio_inv q X S w R"
  shows "\<exists>x. sio_choose_request q = Some x \<and> (if R = {} then x = NULL else x \<in> R)"
proof -
  have "hd (w (sd_fifo_list (elevator_data q) b) @ ys) \<in> R" if "w (sd_fifo_list (elevator_data q) b) \<noteq> []" for b ys
    using that sio_heldD(5) [OF h, of _ b] by (cases "w (sd_fifo_list (elevator_data q) b)") auto
  moreover have "R = {} \<longleftrightarrow> w (sd_fifo_list (elevator_data q) SYNC) = [] \<and> w (sd_fifo_list (elevator_data q) ASYNC) = []"
    unfolding sio_heldD(4) [OF h] by (metis (full_types))
  ultimately show ?thesis
    using sio_heldD(3,6) [OF h, of SYNC] sio_heldD(3,6) [OF h, of ASYNC]
    by (cases "w (sd_fifo_list (elevator_data q) SYNC) = []"; cases "w (sd_fifo_list (elevator_data q) ASYNC) = []")
      (auto simp: sio_choose_request_def)
qed

lemma sio_held_batched [simp]:
  "held sio_inv (q\<lparr>elevator_data := (elevator_data q)\<lparr>sd_batched := k\<rparr>\<rparr>) X S w R = held sio_inv q X S w R"
  by (simp add: held_def sio_inv_def)

lemma sio_dispatch_none:
  assumes h: "held sio_inv q X S w {}"
  shows "\<exists>d'. elevator_dispatch_fn iosched_sio force q = Some (False, q\<lparr>elevator_data := d'\<rparr>) \<and>
    sio_inv d' (q_nodes q) (q_reqs q) S w {}"
proof -
  let ?d = "if sd_batched (elevator_data q) > sd_fifo_batch (elevator_data q)
    then (elevator_data q)\<lparr>sd_batched := 0\<rparr> else elevator_data q"
  have h0: "held sio_inv (q\<lparr>elevator_data := (elevator_data q)\<lparr>sd_batched := 0\<rparr>\<rparr>) X S w {}" using h by simp
  show ?thesis
    using sio_choose_request_rep [OF h] sio_choose_request_rep [OF h0] sio_choose_expired_request_rep [OF h0] h h0
    by (intro exI [of _ ?d]) (auto simp: iosched_sio_def sio_dispatch_requests_def held_def)
qed

lemma sio_dispatch_request_gives:
  assumes h: "held sio_inv q X S w R" and n: "n \<in> R"
  shows "\<exists>q'. sio_dispatch_request n q = Some q' \<and> held sio_inv q' X S ((wo n w)(queue_head q := w (queue_head q) @ [n])) (R - {n}) \<and>
    nr_sorted q' = nr_sorted q - 1 \<and> same_queue q q' \<and> (\<forall>x. x \<noteq> n \<longrightarrow> q_reqs q' x = q_reqs q x) \<and> same_reqs (q_reqs q) (q_reqs q') \<and>
    elevator_data q' = (elevator_data q)\<lparr>sd_batched := sd_batched (elevator_data q) + 1\<rparr>"
proof -
  note q = sio_heldD(1) [OF h]
  note D = queue_repD [OF q]
  have nX: "n \<in> X" "n \<notin> set (w (queue_head q))" using n D(6,7) by auto
  obtain r where r: "q_reqs q n = Some r" by (rule queue_rep_req [OF q nX(1)])
  let ?q = "\<lambda>m. q\<lparr>q_lists := m, q_reqs := (q_reqs q)(n \<mapsto> r\<lparr>fifo_time := n + 8\<rparr>)\<rparr>"
  from rq_fifo_clear_rep [OF q nX(1) r] obtain m where
    m: "rq_fifo_clear n q = Some (?q m)" "queue_rep (?q m) X S (wo n w) R" by blast
  have "n \<notin> listed (queue_head (?q m)) S (wo n w)" by (simp add: listed_wo)
  from elv_dispatch_add_tail_rep [OF m(2) nX(1) this] nX(2) obtain q1 where
    q1: "elv_dispatch_add_tail n (?q m) = Some q1"
      "queue_rep q1 X S ((wo n w)(queue_head q := w (queue_head q) @ [n])) (R - {n})"
      "nr_sorted q1 = nr_sorted q - 1" "elevator_data q1 = elevator_data q"
      "q_reqs q1 = (q_reqs q)(n \<mapsto> r\<lparr>fifo_time := n + 8\<rparr>)" "same_queue q q1" by auto
  let ?q' = "q1\<lparr>elevator_data := (elevator_data q1)\<lparr>sd_batched := sd_batched (elevator_data q1) + 1\<rparr>\<rparr>"
  have s: "same_reqs (q_reqs q) (q_reqs q1)" unfolding q1(5) by (rule same_reqs_fifo_time) (rule r)
  have "sio_inv (elevator_data q) (q_nodes q1) (q_reqs q1) S ((wo n w)(queue_head q := w (queue_head q) @ [n])) (R - {n})"
  proof (rule sio_inv_sets [OF sio_inv_wo])
    show "sio_inv (elevator_data q) (q_nodes q) (q_reqs q) S w R" using h by (simp add: held_def)
    show "same_keys (R - {n}) (q_reqs q) (q_reqs q1)"
      by (rule same_reqs_same_keys [OF s]) (use D(2,6) in auto)
  qed (use lists_repD(2) [OF D(1)] in auto)
  then have "held sio_inv q1 X S ((wo n w)(queue_head q := w (queue_head q) @ [n])) (R - {n})"
    using q1(2,4) h by (simp add: held_def)
  then have k: "held sio_inv ?q' X S ((wo n w)(queue_head q := w (queue_head q) @ [n])) (R - {n})" by (simp only: sio_held_batched)
  show ?thesis
  proof (intro exI conjI)
    show "sio_dispatch_request n q = Some ?q'" using m(1) q1(1) by (simp add: sio_dispatch_request_def Let_def)
    show "elevator_data ?q' = (elevator_data q)\<lparr>sd_batched := sd_batched (elevator_data q) + 1\<rparr>" using q1(4) by simp
  qed (use q1(3,5,6) s k in \<open>simp_all del: sio_held_batched\<close>)
qed

lemma sio_dispatch_request_rep:
  assumes h: "held sio_inv q X S w R" and n: "n \<in> R"
  shows "\<exists>q' w'. sio_dispatch_request n q = Some q' \<and> held sio_inv q' X S w' (R - {n}) \<and> moves q w {n} q' w'"
proof -
  from sio_dispatch_request_gives [OF assms] obtain q' where "sio_dispatch_request n q = Some q'"
    "held sio_inv q' X S ((wo n w)(queue_head q := w (queue_head q) @ [n])) (R - {n})" "nr_sorted q' = nr_sorted q - 1"
    "same_queue q q'" "same_reqs (q_reqs q) (q_reqs q')" by blast
  then show ?thesis
    by (intro exI [of _ q'] exI [of _ "(wo n w)(queue_head q := w (queue_head q) @ [n])"]) (simp add: moves_def)
qed

lemma sio_dispatch_one:
  assumes h: "held sio_inv q X S w R" and R: "R \<noteq> {}"
  shows "\<exists>q' n w'. elevator_dispatch_fn iosched_sio force q = Some (True, q') \<and> n \<in> R \<and>
    held sio_inv q' X S w' (R - {n}) \<and> moves q w {n} q' w'"
proof -
  let ?b = "sd_batched (elevator_data q) > sd_fifo_batch (elevator_data q)"
  define q0 where "q0 = (if ?b then q\<lparr>elevator_data := (elevator_data q)\<lparr>sd_batched := 0\<rparr>\<rparr> else q)"
  have h0: "held sio_inv q0 X S w R" using h by (simp add: q0_def)
  obtain x where x: "(if ?b then sio_choose_expired_request q0 else Some NULL) = Some x" "x = NULL \<or> x \<in> R"
    using sio_choose_expired_request_rep [OF h0] by (cases ?b) auto
  obtain y where y: "sio_choose_request q0 = Some y" "y \<in> R" using sio_choose_request_rep [OF h0] R by auto
  define n where "n = (if x = NULL then y else x)"
  have n: "n \<in> R" using x(2) y(2) by (auto simp: n_def)
  then have n0: "n \<noteq> NULL" using queue_repD(4,6) [OF sio_heldD(1) [OF h]] by blast
  obtain q' w' where q': "sio_dispatch_request n q0 = Some q'" "held sio_inv q' X S w' (R - {n})" "moves q0 w {n} q' w'"
    using sio_dispatch_request_rep [OF h0 n] by blast
  have "elevator_dispatch_fn iosched_sio force q = Some (True, q')"
    using x(1) y(1) q'(1) n0 by (auto simp: iosched_sio_def sio_dispatch_requests_def q0_def n_def split: if_splits)
  moreover have "moves q w {n} q' w'" using q'(3) by (auto simp: moves_def q0_def split: if_splits)
  ultimately show ?thesis using n q'(2) by blast
qed

lemma sio_add:
  assumes q: "queue_rep q X S w (insert n R)" and R: "finite R" "n \<notin> R"
    and i: "sio_inv (elevator_data q) (q_nodes q) (q_reqs q) S w R"
  shows "\<exists>q' w' A. elevator_add_req_fn iosched_sio n q = Some q' \<and> A \<subseteq> R \<and>
    held sio_inv q' X S w' (insert n (R - A)) \<and> moves q w A q' w'"
proof -
  note D = queue_repD [OF q]
  have nX: "n \<in> X" "n \<notin> listed (queue_head q) S w"
    using D(6,7) i R(2) by (auto simp: listed_def sio_inv_def)
  obtain r where r: "q_reqs q n = Some r" by (rule queue_rep_req [OF q nX(1)])
  let ?a = "sd_fifo_list (elevator_data q) (rq_is_sync r)"
  let ?m = "(q_reqs q)(n \<mapsto> r\<lparr>fifo_time := jiffies q + sd_fifo_expire (elevator_data q) (rq_is_sync r)\<rparr>)"
  have a: "?a \<in> S" "queue_head q \<noteq> ?a" using i lists_repD(2) [OF D(1)] by (auto simp: sio_inv_def)
  have q0: "queue_rep (q\<lparr>q_reqs := ?m\<rparr>) X S w (insert n R)" using q r by (subst queue_rep_simps) auto
  from queue_rep_add_tail [OF q0 a(1)] nX obtain ml where
    ml: "list_add_tail n ?a (q_lists q) = Some ml"
      "queue_rep (q\<lparr>q_reqs := ?m, q_lists := ml\<rparr>) X S (w(?a := w ?a @ [n])) (insert n R)" by auto
  have inj: "sd_fifo_list (elevator_data q) b = ?a \<longleftrightarrow> b = rq_is_sync r" for b
    using i by (cases b; cases "rq_is_sync r") (auto simp: sio_inv_def)
  have "sio_inv (elevator_data q) (q_nodes q) ?m S (w(?a := w ?a @ [n])) (insert n R)"
    using i R(2) inj by (auto simp: sio_inv_def rq_is_sync_def split: if_splits)
  moreover have "same_reqs (q_reqs q) ?m" by (rule same_reqs_fifo_time) (rule r)
  moreover have "elevator_add_req_fn iosched_sio n q = Some (q\<lparr>q_reqs := ?m, q_lists := ml\<rparr>)"
    using ml(1) r by (simp add: iosched_sio_def sio_add_request_def rq_set_fifo_time_rep on_lists_def)
  ultimately show ?thesis using ml(2) R a(2)
    by (intro exI [of _ "q\<lparr>q_reqs := ?m, q_lists := ml\<rparr>"] exI [of _ "w(?a := w ?a @ [n])"] exI [of _ "{}"])
      (simp add: held_def moves_def)
qed

lemma sio_latter_entry:
  assumes h: "held sio_inv q X S w R" and n: "n \<in> R"
  obtains r ys zs where "q_reqs q n = Some r" "w (sd_fifo_list (elevator_data q) (rq_is_sync r)) = ys @ n # zs"
    "elv_latter_request iosched_sio n q = Some (hd_ptr zs)"
    "elv_former_request iosched_sio n q = Some (hd_ptr (rev ys))" "n \<notin> set zs"
proof -
  from h n obtain b where b: "n \<in> set (w (sd_fifo_list (elevator_data q) b))" by (auto simp: held_def sio_inv_def)
  with sio_heldD(5) [OF h] obtain r where r: "q_reqs q n = Some r" "rq_is_sync r = b" by blast
  let ?a = "sd_fifo_list (elevator_data q) b"
  obtain ys zs where w: "w ?a = ys @ n # zs" using b by (meson split_list)
  note L = queue_repD(1) [OF sio_heldD(1) [OF h]]
  have a: "?a \<in> insert (queue_head q) S" using sio_heldD(2) [OF h] by simp
  have "?a \<notin> X" using a lists_repD(3,4) [OF L] by auto
  moreover have "set (w ?a) \<subseteq> X" using sio_heldD(5) [OF h] queue_repD(6) [OF sio_heldD(1) [OF h]] by blast
  ultimately have "zs = [] \<or> hd zs \<noteq> ?a" "ys = [] \<or> last ys \<noteq> ?a" using w by (auto dest: hd_in_set last_in_set)
  then show thesis
    using that [OF r(1), of ys zs] w r lists_entry(1,2) [OF L a w] lists_distinct [OF L a]
    by (cases zs; cases ys rule: rev_cases)
      (auto simp: elv_latter_request_def elv_former_request_def iosched_sio_def sio_latter_request_def sio_former_request_def)
qed

lemma sio_latter:
  assumes h: "held sio_inv q X S w R" and n: "n \<in> R"
  shows "\<exists>x. elv_latter_request iosched_sio n q = Some x \<and> (x = NULL \<or> x \<in> R \<and> x \<noteq> n)"
proof -
  obtain r ys zs where r: "w (sd_fifo_list (elevator_data q) (rq_is_sync r)) = ys @ n # zs"
    "elv_latter_request iosched_sio n q = Some (hd_ptr zs)" "n \<notin> set zs" by (rule sio_latter_entry [OF assms])
  then show ?thesis using sio_heldD(5) [OF h, of _ "rq_is_sync r"] by (cases zs) auto
qed

lemma sio_merge_req:
  assumes h: "held sio_inv q X S w R" and n: "n \<in> R" "n' \<in> R" and l: "elv_latter_request iosched_sio n q = Some n'"
  shows "\<exists>q' w'. (case elevator_merge_req_fn iosched_sio of Some f \<Rightarrow> f n n' q | None \<Rightarrow> Some q) = Some q' \<and>
    queue_rep q' X S w' R \<and> sio_inv (elevator_data q') (q_nodes q') (q_reqs q') S w' (R - {n'}) \<and>
    w' (queue_head q) = w (queue_head q) \<and> moves q w {} q' w'"
proof -
  note q = sio_heldD(1) [OF h]
  note D = queue_repD [OF q]
  obtain r ys zs where r: "q_reqs q n = Some r" "w (sd_fifo_list (elevator_data q) (rq_is_sync r)) = ys @ n # zs"
    "n' = hd_ptr zs" "n \<notin> set zs" using sio_latter_entry [OF h n(1)] l by (metis option.inject)
  have n'0: "n' \<noteq> NULL" "n' \<in> X" using n(2) D(4,6) by blast+
  with r obtain zs' where zs: "zs = n' # zs'" by (cases zs) auto
  with r(4) have ne: "n \<noteq> n'" by auto
  from fifo_inherit_rep [OF q n ne] obtain q1 w1 where
    q1: "fifo_inherit n n' q = Some q1" "queue_rep q1 X S w1 R" "w1 = w \<or> w1 = inherit n n' w"
      "elevator_data q1 = elevator_data q" "same_reqs (q_reqs q) (q_reqs q1)" "nr_sorted q1 = nr_sorted q" "same_queue q q1"
    by blast
  obtain r1 where r1: "q_reqs q1 n' = Some r1" by (rule queue_rep_req [OF q1(2) n'0(2)])
  let ?q = "\<lambda>m. q1\<lparr>q_lists := m, q_reqs := (q_reqs q1)(n' \<mapsto> r1\<lparr>fifo_time := n' + 8\<rparr>)\<rparr>"
  from rq_fifo_clear_rep [OF q1(2) n'0(2) r1] obtain m where
    m: "rq_fifo_clear n' q1 = Some (?q m)" "queue_rep (?q m) X S (wo n' w1) R" by blast
  let ?a = "sd_fifo_list (elevator_data q) (rq_is_sync r)"
  have sets: "set (w1 a) = set (w a)" if "a \<in> S" for a
  proof (cases "a = ?a")
    case True
    then show ?thesis using q1(3) r(2) zs by (auto simp: set_inherit [OF ne])
  next
    case False
    then have "n \<notin> set (w a) \<and> n' \<notin> set (w a)"
      using lists_disjoint [OF D(1), of a ?a] that sio_heldD(2) [OF h] r(2) zs by auto
    then show ?thesis using q1(3) by (auto simp: set_inherit [OF ne])
  qed
  have s: "same_reqs (q_reqs q) (q_reqs (?q m))"
    using same_reqs_trans [OF q1(5) same_reqs_fifo_time [of "q_reqs q1" n' r1 "n' + 8", OF r1]] by simp
  have "sio_inv (elevator_data q) (q_nodes q1) (q_reqs (?q m)) S (wo n' w1) (R - {n'})"
  proof (rule sio_inv_sets [OF sio_inv_wo])
    show "sio_inv (elevator_data q) (q_nodes q) (q_reqs q) S w R" using h by (simp add: held_def)
    show "same_keys (R - {n'}) (q_reqs q) (q_reqs (?q m))"
      by (rule same_reqs_same_keys [OF s]) (use D(2,6) in auto)
  qed (use sets in auto)
  moreover have "n \<notin> set (w (queue_head q))" "n' \<notin> set (w (queue_head q))" using n D(7) by auto
  then have "wo n' w1 (queue_head q) = w (queue_head q)" using q1(3) by (auto simp: inherit_def)
  ultimately show ?thesis using m q1 s
    by (intro exI [of _ "?q m"] exI [of _ "wo n' w1"]) (simp add: iosched_sio_def sio_merged_requests_def moves_def)
qed

lemma sio_merged:
  assumes "queue_rep q X S w R" "finite R" "sio_inv (elevator_data q) (q_nodes q) m S w R" "n \<in> R" "m n = Some r"
    "same_keys R (m(n \<mapsto> r\<lparr>sector := s\<rparr>)) (q_reqs q)"
  shows "\<exists>q' w' A. (case elevator_merged_fn iosched_sio of Some f \<Rightarrow> f n type' q | None \<Rightarrow> Some q) = Some q' \<and>
    A \<subseteq> R - {n} \<and> held sio_inv q' X S w' (R - A) \<and> moves q w A q' w'"
proof -
  have "sio_inv (elevator_data q) (q_nodes q) (m(n \<mapsto> r\<lparr>sector := s\<rparr>)) S w R"
    using assms(3,5) by (fastforce simp: sio_inv_def rq_is_sync_def)
  from sio_inv_sets [OF this _ assms(6)] have "sio_inv (elevator_data q) (q_nodes q) (q_reqs q) S w R" by simp
  then show ?thesis using assms(1,2)
    by (intro exI [of _ q] exI [of _ w] exI [of _ "{}"]) (auto simp: iosched_sio_def held_def moves_def)
qed

lemmas sio_hooks = iosched_sio_def elv_iosched_allow_merge_def elv_deactivate_rq_def

lemma sio_allow:
  "held sio_inv q X S w R \<Longrightarrow> n \<in> R \<Longrightarrow> \<exists>b. elv_iosched_allow_merge (elevator_allow_merge_fn iosched_sio) n bio' q = Some b"
  by (auto simp: sio_hooks)

lemma sio_merge_fn:
  "held sio_inv q X S w R \<Longrightarrow> bios_ok q R \<Longrightarrow> q_bios q bio' = Some b \<Longrightarrow>
    \<exists>ret x. (case elevator_merge_fn iosched_sio of Some f \<Rightarrow> f bio' q | None \<Rightarrow> Some (ELEVATOR_NO_MERGE, NULL)) = Some (ret, x) \<and>
    (ret = ELEVATOR_NO_MERGE \<or> ret = ELEVATOR_FRONT_MERGE \<and> x \<in> R \<and>
      elv_rq_merge_ok (elevator_allow_merge_fn iosched_sio) x bio' q = Some True \<and>
      pos_of (q_reqs q) x = bi_sector b + ucast (bio_sectors b))"
  by (simp add: sio_hooks)

lemma sio_deactivate:
  "held sio_inv q X S w R \<Longrightarrow> n \<in> X - R \<Longrightarrow> \<exists>q'. elv_deactivate_rq iosched_sio n q = Some q' \<and> held sio_inv q' X S w R \<and>
    nr_sorted q' = nr_sorted q \<and> same_queue q q' \<and> same_reqs (q_reqs q) (q_reqs q')"
  by (simp add: sio_hooks)

interpretation sio: elevator iosched_sio sio_inv
proof
  fix q X S w R
  assume h: "held sio_inv q X S w R"
  have "R = {} \<longleftrightarrow> w (sd_fifo_list (elevator_data q) SYNC) = [] \<and> w (sd_fifo_list (elevator_data q) ASYNC) = []"
    unfolding sio_heldD(4) [OF h] by (metis (full_types))
  then show "(case elevator_queue_empty_fn iosched_sio of Some f \<Rightarrow> f q | None \<Rightarrow> Some True) = Some (R = {})"
    using sio_heldD(3) [OF h] by (simp add: iosched_sio_def sio_queue_empty_def Let_def)
next
  fix q X S w
  assume h: "held sio_inv q X S w {}"
  then show "(case elevator_exit_fn iosched_sio of Some f \<Rightarrow> f q | None \<Rightarrow> Some ()) = Some ()"
    using sio_heldD(3,4) [OF h] by (simp add: iosched_sio_def sio_exit_queue_def)
qed (fact sio_allow sio_merge_fn sio_deactivate sio_frame sio_listed sio_dispatch_none sio_dispatch_one sio_latter |
    (erule sio_add sio_merged sio_merge_req; assumption))+

end
