(* ===== verification/Iosched_Deadline.thy ===== *)
theory Iosched_Deadline
  imports Elevator_Core
begin

text \<open>
  The scheduler of \<open>block/deadline-iosched.c\<close>: for reads and for writes a tree sorted by sector and a
  first-in first-out list.  It serves batches in sector order, starts a batch at the oldest
  request when a deadline has passed, and bounds how often reads go before writes.
\<close>

section \<open>The scheduler\<close>

definition read_expire :: u32 where "read_expire = HZ div 2"
definition write_expire :: u32 where "write_expire = 5 * HZ"
definition writes_starved :: u32 where "writes_starved = 2"
definition fifo_batch :: u32 where "fifo_batch = 16"

text \<open>Arrays of two are functions of the data direction, \<open>READ\<close> or \<open>WRITE\<close>.\<close>

record deadline_data =
  dd_sort_list :: "bool \<Rightarrow> addr"
  dd_fifo_list :: "bool \<Rightarrow> addr"
  dd_next_rq :: "bool \<Rightarrow> addr"
  dd_batching :: u32
  dd_last_sector :: sector_t
  dd_starved :: u32
  dd_fifo_expire :: "bool \<Rightarrow> u32"
  dd_fifo_batch :: u32
  dd_writes_starved :: u32
  dd_front_merges :: u32

type_synonym deadline_queue = "deadline_data request_queue"

definition on_dd :: "(deadline_data \<Rightarrow> deadline_data) \<Rightarrow> deadline_queue \<Rightarrow> deadline_queue" where
  "on_dd f q = q\<lparr>elevator_data := f (elevator_data q)\<rparr>"

definition data_dir :: "request \<Rightarrow> bool" where
  "data_dir r \<longleftrightarrow> rq_data_dir r \<noteq> 0"

definition deadline_rb_root :: "deadline_data \<Rightarrow> request \<Rightarrow> addr" where
  "deadline_rb_root dd r = dd_sort_list dd (data_dir r)"

definition deadline_latter_request :: "addr \<Rightarrow> deadline_queue \<Rightarrow> addr option" where
  "deadline_latter_request rq q = rb_next rq (q_nodes q)"

text \<open>\<open>elv_rb_del\<close> and \<open>elv_rb_add\<close> on the tree of the request's direction.\<close>

definition deadline_rb_del :: "addr \<Rightarrow> deadline_queue \<Rightarrow> deadline_queue option" where
  "deadline_rb_del rq q = do {
     r \<leftarrow> q_reqs q rq;
     (ns, root) \<leftarrow> elv_rb_del rq (q_nodes q) (deadline_rb_root (elevator_data q) r);
     Some (on_dd (\<lambda>dd. dd\<lparr>dd_sort_list := (dd_sort_list dd)(data_dir r := root)\<rparr>) (q\<lparr>q_nodes := ns\<rparr>)) }"

definition deadline_rb_add :: "addr \<Rightarrow> deadline_queue \<Rightarrow> (addr \<times> deadline_queue) option" where
  "deadline_rb_add rq q = do {
     r \<leftarrow> q_reqs q rq;
     (alias, ns, root) \<leftarrow> elv_rb_add (q_reqs q) rq (q_nodes q) (deadline_rb_root (elevator_data q) r);
     Some (alias, on_dd (\<lambda>dd. dd\<lparr>dd_sort_list := (dd_sort_list dd)(data_dir r := root)\<rparr>) (q\<lparr>q_nodes := ns\<rparr>)) }"

definition deadline_del_rq_rb :: "addr \<Rightarrow> deadline_queue \<Rightarrow> deadline_queue option" where
  "deadline_del_rq_rb rq q = do {
     r \<leftarrow> q_reqs q rq;
     q \<leftarrow> (if dd_next_rq (elevator_data q) (data_dir r) = rq then do {
            n \<leftarrow> deadline_latter_request rq q;
            Some (on_dd (\<lambda>dd. dd\<lparr>dd_next_rq := (dd_next_rq dd)(data_dir r := n)\<rparr>) q) }
          else Some q);
     deadline_rb_del rq q }"

definition deadline_remove_request :: "addr \<Rightarrow> deadline_queue \<Rightarrow> deadline_queue option" where
  "deadline_remove_request rq q = do {
     q \<leftarrow> rq_fifo_clear rq q;
     deadline_del_rq_rb rq q }"

definition deadline_move_to_dispatch :: "addr \<Rightarrow> deadline_queue \<Rightarrow> deadline_queue option" where
  "deadline_move_to_dispatch rq q = do {
     q \<leftarrow> deadline_remove_request rq q;
     elv_dispatch_add_tail rq q }"

definition deadline_move_request :: "addr \<Rightarrow> deadline_queue \<Rightarrow> deadline_queue option" where
  "deadline_move_request rq q = do {
     r \<leftarrow> q_reqs q rq;
     let q = on_dd (\<lambda>dd. dd\<lparr>dd_next_rq := (\<lambda>_. NULL)\<rparr>) q;
     n \<leftarrow> deadline_latter_request rq q;
     let q = on_dd (\<lambda>dd. dd\<lparr>dd_next_rq := (dd_next_rq dd)(data_dir r := n)\<rparr>) q;
     let q = on_dd (\<lambda>dd. dd\<lparr>dd_last_sector := rq_end_sector r\<rparr>) q;
     deadline_move_to_dispatch rq q }"

partial_function (option) deadline_add_rq_rb :: "addr \<Rightarrow> deadline_queue \<Rightarrow> deadline_queue option" where
  "deadline_add_rq_rb rq q = do {
     (alias, q) \<leftarrow> deadline_rb_add rq q;
     if alias \<noteq> NULL then do {
       q \<leftarrow> deadline_move_request alias q;
       deadline_add_rq_rb rq q }
     else Some q }"

definition deadline_add_request :: "addr \<Rightarrow> deadline_queue \<Rightarrow> deadline_queue option" where
  "deadline_add_request rq q = do {
     r \<leftarrow> q_reqs q rq;
     q \<leftarrow> deadline_add_rq_rb rq q;
     let dd = elevator_data q;
     q \<leftarrow> rq_set_fifo_time rq (jiffies q + dd_fifo_expire dd (data_dir r)) q;
     on_lists (list_add_tail rq (dd_fifo_list dd (data_dir r))) q }"

definition deadline_merge :: "addr \<Rightarrow> deadline_queue \<Rightarrow> (elv_merge_ret \<times> addr) option" where
  "deadline_merge bio' q =
     (if dd_front_merges (elevator_data q) \<noteq> 0 then do {
        b \<leftarrow> q_bios q bio';
        let sec = bi_sector b + ucast (bio_sectors b);
        rq \<leftarrow> elv_rb_find (q_reqs q) (q_nodes q) (dd_sort_list (elevator_data q) (bio_data_dir b \<noteq> 0)) sec;
        if rq \<noteq> NULL then do {
          r \<leftarrow> q_reqs q rq;
          _ \<leftarrow> BUG_ON (sec \<noteq> blk_rq_pos r);
          merge_ok \<leftarrow> elv_rq_merge_ok None rq bio' q;
          Some (if merge_ok then (ELEVATOR_FRONT_MERGE, rq) else (ELEVATOR_NO_MERGE, NULL)) }
        else Some (ELEVATOR_NO_MERGE, NULL) }
      else Some (ELEVATOR_NO_MERGE, NULL))"

definition deadline_merged_request :: "addr \<Rightarrow> elv_merge_ret \<Rightarrow> deadline_queue \<Rightarrow> deadline_queue option" where
  "deadline_merged_request req type' q =
     (if type' = ELEVATOR_FRONT_MERGE then do {
        q \<leftarrow> deadline_rb_del req q;
        deadline_add_rq_rb req q }
      else Some q)"

definition deadline_merged_requests :: "addr \<Rightarrow> addr \<Rightarrow> deadline_queue \<Rightarrow> deadline_queue option" where
  "deadline_merged_requests req next' q = do {
     q \<leftarrow> fifo_inherit req next' q;
     deadline_remove_request next' q }"

definition deadline_check_fifo :: "bool \<Rightarrow> deadline_queue \<Rightarrow> bool option" where
  "deadline_check_fifo ddir q = do {
     rq \<leftarrow> get_next (dd_fifo_list (elevator_data q) ddir) (q_lists q);
     r \<leftarrow> q_reqs q rq;
     Some (time_after (jiffies q) (fifo_time r)) }"

text \<open>
  The labels of \<open>deadline_dispatch_requests\<close>: \<open>dispatch_request\<close> takes the selected request and
  \<open>dispatch_find_request\<close> selects one in a given direction.
\<close>

definition dispatch_request :: "addr \<Rightarrow> deadline_queue \<Rightarrow> (bool \<times> deadline_queue) option" where
  "dispatch_request rq q = do {
     let q = on_dd (\<lambda>dd. dd\<lparr>dd_batching := dd_batching dd + 1\<rparr>) q;
     q \<leftarrow> deadline_move_request rq q;
     Some (True, q) }"

definition dispatch_find_request :: "bool \<Rightarrow> deadline_queue \<Rightarrow> (bool \<times> deadline_queue) option" where
  "dispatch_find_request ddir q = do {
     expired \<leftarrow> deadline_check_fifo ddir q;
     rq \<leftarrow> (if expired \<or> dd_next_rq (elevator_data q) ddir = NULL
           then get_next (dd_fifo_list (elevator_data q) ddir) (q_lists q)
           else Some (dd_next_rq (elevator_data q) ddir));
     dispatch_request rq (on_dd (\<lambda>dd. dd\<lparr>dd_batching := 0\<rparr>) q) }"

definition dispatch_writes :: "deadline_queue \<Rightarrow> (bool \<times> deadline_queue) option" where
  "dispatch_writes q = do {
     _ \<leftarrow> BUG_ON (RB_EMPTY_ROOT (dd_sort_list (elevator_data q) WRITE));
     dispatch_find_request WRITE (on_dd (\<lambda>dd. dd\<lparr>dd_starved := 0\<rparr>) q) }"

definition deadline_dispatch_requests :: "bool \<Rightarrow> deadline_queue \<Rightarrow> (bool \<times> deadline_queue) option" where
  "deadline_dispatch_requests force q = do {
     let dd = elevator_data q;
     no_reads \<leftarrow> list_empty (dd_fifo_list dd READ) (q_lists q);
     no_writes \<leftarrow> list_empty (dd_fifo_list dd WRITE) (q_lists q);
     let rq = (if dd_next_rq dd WRITE \<noteq> NULL then dd_next_rq dd WRITE else dd_next_rq dd READ);
     if rq \<noteq> NULL \<and> dd_batching dd < dd_fifo_batch dd then dispatch_request rq q
     else if \<not> no_reads then do {
       _ \<leftarrow> BUG_ON (RB_EMPTY_ROOT (dd_sort_list dd READ));
       if no_writes then dispatch_find_request READ q
       else do {
         let q = on_dd (\<lambda>dd. dd\<lparr>dd_starved := dd_starved dd + 1\<rparr>) q;
         if dd_starved dd \<ge> dd_writes_starved dd then dispatch_writes q
         else dispatch_find_request READ q } }
     else if \<not> no_writes then dispatch_writes q
     else Some (False, q) }"

definition deadline_queue_empty :: "deadline_queue \<Rightarrow> bool option" where
  "deadline_queue_empty q = do {
     let dd = elevator_data q;
     no_writes \<leftarrow> list_empty (dd_fifo_list dd WRITE) (q_lists q);
     if no_writes then list_empty (dd_fifo_list dd READ) (q_lists q) else Some False }"

definition deadline_exit_queue :: "deadline_queue \<Rightarrow> unit option" where
  "deadline_exit_queue q = do {
     no_reads \<leftarrow> list_empty (dd_fifo_list (elevator_data q) READ) (q_lists q);
     _ \<leftarrow> BUG_ON (\<not> no_reads);
     no_writes \<leftarrow> list_empty (dd_fifo_list (elevator_data q) WRITE) (q_lists q);
     BUG_ON (\<not> no_writes) }"

text \<open>
  \<open>dd\<close> is what the allocator returns, zeroed; the array \<open>fifo_list\<close> comes after the two roots.
\<close>

definition deadline_init_queue ::
  "addr \<Rightarrow> 'd request_queue \<Rightarrow> (deadline_data option \<times> 'd request_queue) option" where
  "deadline_init_queue dd q =
     (if dd = NULL then Some (None, q)
      else do {
        let fifo_list = (\<lambda>dir. if dir then dd + 16 else dd + 8);
        q \<leftarrow> on_lists (INIT_LIST_HEAD (fifo_list READ)) q;
        q \<leftarrow> on_lists (INIT_LIST_HEAD (fifo_list WRITE)) q;
        Some (Some \<lparr>dd_sort_list = (\<lambda>_. RB_ROOT), dd_fifo_list = fifo_list, dd_next_rq = (\<lambda>_. NULL),
                dd_batching = 0, dd_last_sector = 0, dd_starved = 0,
                dd_fifo_expire = (\<lambda>dir. if dir then write_expire else read_expire),
                dd_fifo_batch = fifo_batch, dd_writes_starved = writes_starved,
                dd_front_merges = 1\<rparr>, q) })"

definition iosched_deadline :: "deadline_data elevator_ops" where
  "iosched_deadline = \<lparr>elevator_merge_fn = Some deadline_merge,
     elevator_merged_fn = Some deadline_merged_request,
     elevator_merge_req_fn = Some deadline_merged_requests, elevator_allow_merge_fn = None,
     elevator_dispatch_fn = deadline_dispatch_requests, elevator_add_req_fn = deadline_add_request,
     elevator_deactivate_req_fn = None, elevator_queue_empty_fn = Some deadline_queue_empty,
     elevator_former_req_fn = Some elv_rb_former_request,
     elevator_latter_req_fn = Some elv_rb_latter_request,
     elevator_exit_fn = Some deadline_exit_queue\<rparr>"

section \<open>The invariant\<close>

text \<open>
  The trees hold the requests \<open>T\<close> and the lists the requests \<open>L\<close>, each in the direction of the request.
  The cached next request of a direction is in its tree; while a request is on its way back
  into the tree it may also be one of \<open>E\<close>.
\<close>

definition in_dir :: "(addr \<rightharpoonup> request) \<Rightarrow> bool \<Rightarrow> addr \<Rightarrow> bool" where
  "in_dir m b x \<longleftrightarrow> (\<exists>r. m x = Some r \<and> data_dir r = b)"

definition deadline_lists :: "deadline_data \<Rightarrow> (addr \<rightharpoonup> request) \<Rightarrow> addr set \<Rightarrow> (addr \<Rightarrow> addr list) \<Rightarrow> addr set \<Rightarrow> bool" where
  "deadline_lists d m S w L \<longleftrightarrow> S = range (dd_fifo_list d) \<and> dd_fifo_list d READ \<noteq> dd_fifo_list d WRITE \<and>
     (\<Union>a\<in>S. set (w a)) = L \<and> (\<forall>b. \<forall>x\<in>set (w (dd_fifo_list d b)). in_dir m b x)"

definition deadline_trees :: "deadline_data \<Rightarrow> rb_heap \<Rightarrow> (addr \<rightharpoonup> request) \<Rightarrow> (bool \<Rightarrow> addr list) \<Rightarrow> addr set \<Rightarrow> bool" where
  "deadline_trees d ns m t E \<longleftrightarrow> (\<forall>b. tree_rep ns (dd_sort_list d b) (t b) \<and> pos_sorted m (t b) \<and>
     (\<forall>x\<in>set (t b). in_dir m b x) \<and> dd_next_rq d b \<in> insert NULL (set (t b) \<union> E))"

definition deadline_inv :: "deadline_data sched_inv" where
  "deadline_inv d ns m S w R \<longleftrightarrow> deadline_lists d m S w R \<and>
     (\<exists>t. deadline_trees d ns m t {} \<and> (\<Union>b. set (t b)) = R)"

lemma in_dir_unique: "in_dir m b x \<Longrightarrow> in_dir m b' x \<Longrightarrow> b' = b"
  by (auto simp: in_dir_def)

lemma in_dir_same_keys: "same_keys R m m' \<Longrightarrow> x \<in> R \<Longrightarrow> in_dir m b x \<Longrightarrow> in_dir m' b x"
  by (fastforce simp: same_keys_def same_key_def in_dir_def data_dir_def)

lemma deadline_lists_sets:
  assumes "deadline_lists d m S w L" "\<And>a. a \<in> S \<Longrightarrow> set (w' a) = set (w a)" "same_keys L m m'"
    "dd_fifo_list d' = dd_fifo_list d"
  shows "deadline_lists d' m' S w' L"
proof -
  have "in_dir m' b x" if "x \<in> set (w (dd_fifo_list d b))" for b x
    using assms(1) that in_dir_same_keys [OF assms(3), of x b] unfolding deadline_lists_def by blast
  then show ?thesis using assms unfolding deadline_lists_def by auto
qed

lemma deadline_lists_wo: "deadline_lists d m S w L \<Longrightarrow> deadline_lists d m S (wo n w) (L - {n})"
  by (auto simp: deadline_lists_def)

lemma deadline_lists_in:
  assumes "deadline_lists d m S w L" "x \<in> L"
  shows "x \<in> set (w (dd_fifo_list d b)) \<longleftrightarrow> in_dir m b x"
proof
  assume b: "in_dir m b x"
  from assms obtain c where c: "x \<in> set (w (dd_fifo_list d c))" by (auto simp: deadline_lists_def)
  then have "in_dir m c x" using assms(1) by (auto simp: deadline_lists_def)
  then show "x \<in> set (w (dd_fifo_list d b))" using c b by (auto simp: in_dir_def)
qed (use assms(1) in \<open>auto simp: deadline_lists_def\<close>)

lemma deadline_lists_add:
  "deadline_lists d m S w L \<Longrightarrow> in_dir m b n \<Longrightarrow>
   deadline_lists d m S (w(dd_fifo_list d b := w (dd_fifo_list d b) @ [n])) (insert n L)"
  unfolding deadline_lists_def by (cases b) (simp_all only: UNIV_bool all_bool_eq, auto split: if_splits)

lemma deadline_treesD:
  assumes "deadline_trees d ns m t E"
  shows "tree_rep ns (dd_sort_list d b) (t b)" "pos_sorted m (t b)" "x \<in> set (t b) \<Longrightarrow> in_dir m b x"
    "dd_next_rq d b \<in> insert NULL (set (t b) \<union> E)"
  using assms by (auto simp: deadline_trees_def)

lemma deadline_trees_disjoint: "deadline_trees d ns m t E \<Longrightarrow> b \<noteq> b' \<Longrightarrow> set (t b) \<inter> set (t b') = {}"
  using deadline_treesD(3) in_dir_unique by blast

lemma deadline_trees_frame:
  assumes "deadline_trees d ns m t E" "same_keys (\<Union>b. set (t b)) m m'" "\<And>x. x \<in> (\<Union>b. set (t b)) \<Longrightarrow> ns' x = ns x"
    "dd_sort_list d' = dd_sort_list d" "dd_next_rq d' = dd_next_rq d"
  shows "deadline_trees d' ns' m' t E"
  unfolding deadline_trees_def
proof (intro allI conjI ballI)
  fix b
  note D = deadline_treesD [OF assms(1), where b = b]
  show "tree_rep ns' (dd_sort_list d' b) (t b)"
    using tree_rep_cong [OF D(1)] assms(3,4) by auto
  show "pos_sorted m' (t b)" by (rule pos_sorted_keys [OF D(2) assms(2)]) auto
  show "in_dir m' b x" if "x \<in> set (t b)" for x
    using in_dir_same_keys [OF assms(2)] D(3) [OF that] that by auto
  show "dd_next_rq d' b \<in> insert NULL (set (t b) \<union> E)" using D(4) assms(5) by simp
qed

lemma deadline_frame:
  assumes i: "deadline_inv d ns m S w R" and w: "\<And>a. a \<in> S \<Longrightarrow> w' a = w a" and k: "same_keys R m m'"
    and n: "\<And>x. x \<in> R \<Longrightarrow> ns' x = ns x"
  shows "deadline_inv d ns' m' S w' R"
proof -
  from i obtain t where t: "deadline_trees d ns m t {}" "(\<Union>b. set (t b)) = R" by (auto simp: deadline_inv_def)
  have "deadline_trees d ns' m' t {}" by (rule deadline_trees_frame [OF t(1)]) (use k n t(2) in auto)
  moreover have "deadline_lists d m' S w' R"
    by (rule deadline_lists_sets [where w = w]) (use i w k in \<open>auto simp: deadline_inv_def\<close>)
  ultimately show ?thesis using t(2) by (auto simp: deadline_inv_def)
qed

lemma deadline_listed: "deadline_inv d ns m S w R \<Longrightarrow> a \<in> S \<Longrightarrow> set (w a) \<subseteq> R"
  by (auto simp: deadline_inv_def deadline_lists_def)

section \<open>Trees\<close>

text \<open>What the operations on the trees leave alone.\<close>

definition deadline_same :: "deadline_queue \<Rightarrow> deadline_queue \<Rightarrow> bool" where
  "deadline_same q q' \<longleftrightarrow> dd_fifo_list (elevator_data q') = dd_fifo_list (elevator_data q) \<and> q_lists q' = q_lists q \<and>
     q_reqs q' = q_reqs q \<and> nr_sorted q' = nr_sorted q \<and> same_queue q q'"

lemma deadline_trees_drop:
  "deadline_trees d ns m t (insert n E) \<Longrightarrow> (\<And>b. dd_next_rq d b \<noteq> n) \<Longrightarrow> deadline_trees d ns m t E"
  by (auto simp: deadline_trees_def)

lemma deadline_rb_del_rep:
  assumes q: "queue_rep q X S w R" and t: "deadline_trees (elevator_data q) (q_nodes q) m t E"
    and n: "t b = xs @ n # ys" "q_reqs q n = Some r" "data_dir r = b"
  shows "\<exists>q'. deadline_rb_del n q = Some q' \<and> queue_rep q' X S w R \<and>
    deadline_trees (elevator_data q') (q_nodes q') m (t(b := xs @ ys)) (insert n E) \<and>
    dd_next_rq (elevator_data q') = dd_next_rq (elevator_data q) \<and> deadline_same q q'"
proof -
  let ?d = "elevator_data q"
  note D = deadline_treesD [OF t]
  have tr: "tree_rep (q_nodes q) (dd_sort_list ?d b) (xs @ n # ys)" using D(1) [of b] n(1) by simp
  from elv_rb_del_rep [OF tr] obtain ns root where
    e: "elv_rb_del n (q_nodes q) (dd_sort_list ?d b) = Some (ns, root)" "tree_rep ns root (xs @ ys)"
      "unchanged (set (t b)) (q_nodes q) ns" "n \<in> dom ns" unfolding n(1) by blast
  let ?q = "on_dd (\<lambda>dd. dd\<lparr>dd_sort_list := (dd_sort_list dd)(b := root)\<rparr>) (q\<lparr>q_nodes := ns\<rparr>)"
  have "x \<in> dom ns" if "x \<in> X" for x
    using that e(3,4) tree_rep_node [OF e(2), of x] queue_repD(3) [OF q] n(1)
    by (cases "x \<in> set (t b)") (auto simp: unchanged_def)
  then have "queue_rep ?q X S w R" using queue_rep_nodes [OF q] by (simp add: on_dd_def subset_iff)
  moreover have "deadline_trees (elevator_data ?q) (q_nodes ?q) m (t(b := xs @ ys)) (insert n E)"
    unfolding deadline_trees_def
  proof (intro allI conjI ballI)
    fix c
    show "tree_rep (q_nodes ?q) (dd_sort_list (elevator_data ?q) c) ((t(b := xs @ ys)) c)"
    proof (cases "c = b")
      case False
      then have "set (t b) \<inter> set (t c) = {}" using deadline_trees_disjoint [OF t] by blast
      with tree_rep_unchanged [OF D(1) e(3)] False show ?thesis by (simp add: on_dd_def)
    qed (simp add: on_dd_def e(2))
    show "pos_sorted m ((t(b := xs @ ys)) c)" using D(2) [of b] D(2) [of c] n(1) by auto
    show "in_dir m c x" if "x \<in> set ((t(b := xs @ ys)) c)" for x
      using that D(3) [of x c] D(3) [of x b] n(1) by (auto split: if_splits)
    show "dd_next_rq (elevator_data ?q) c \<in> insert NULL (set ((t(b := xs @ ys)) c) \<union> insert n E)"
      using D(4) [of c] n(1) by (auto simp: on_dd_def)
  qed
  moreover have "deadline_rb_del n q = Some ?q" using e(1) n(2,3) by (simp add: deadline_rb_del_def deadline_rb_root_def)
  ultimately show ?thesis by (intro exI [of _ ?q]) (simp add: on_dd_def deadline_same_def)
qed

lemma deadline_del_rq_rb_rep:
  assumes q: "queue_rep q X S w R" and t: "deadline_trees (elevator_data q) (q_nodes q) m t E"
    and n: "t b = xs @ n # ys" "q_reqs q n = Some r" "data_dir r = b" "n \<notin> E"
  shows "\<exists>q'. deadline_del_rq_rb n q = Some q' \<and> queue_rep q' X S w R \<and>
    deadline_trees (elevator_data q') (q_nodes q') m (t(b := xs @ ys)) E \<and> deadline_same q q'"
proof -
  let ?d = "elevator_data q"
  note D = deadline_treesD [OF t]
  have tr: "tree_rep (q_nodes q) (dd_sort_list ?d b) (xs @ n # ys)" using D(1) [of b] n(1) by simp
  have dn: "n \<noteq> NULL" "n \<notin> set xs" "n \<notin> set ys" using tree_rep_node [OF tr, of n] tree_rep_distinct [OF tr] by auto
  let ?n = "(dd_next_rq ?d)(b := if dd_next_rq ?d b = n then hd_ptr ys else dd_next_rq ?d b)"
  let ?q = "q\<lparr>elevator_data := ?d\<lparr>dd_next_rq := ?n\<rparr>\<rparr>"
  have next': "?n c \<noteq> n" for c
  proof (cases "c = b")
    case True
    then show ?thesis using dn by (cases ys) auto
  next
    case False
    then show ?thesis using D(4) [of c] n(1,4) dn deadline_trees_disjoint [OF t False] by auto
  qed
  have t': "deadline_trees (elevator_data ?q) (q_nodes ?q) m t E"
    unfolding deadline_trees_def
  proof (intro allI conjI ballI)
    fix c
    show "dd_next_rq (elevator_data ?q) c \<in> insert NULL (set (t c) \<union> E)"
      using D(4) [of c] n(1) by (cases ys) auto
  qed (use D(1-3) in auto)
  have q0: "queue_rep ?q X S w R" "q_reqs ?q n = Some r" using q n(2) by simp_all
  from deadline_rb_del_rep [OF q0(1) t' n(1) q0(2) n(3)] obtain q' where
    q': "deadline_rb_del n ?q = Some q'" "queue_rep q' X S w R"
      "deadline_trees (elevator_data q') (q_nodes q') m (t(b := xs @ ys)) (insert n E)"
      "dd_next_rq (elevator_data q') = dd_next_rq (elevator_data ?q)" "deadline_same ?q q'" by blast
  have "deadline_trees (elevator_data q') (q_nodes q') m (t(b := xs @ ys)) E"
    using deadline_trees_drop [OF q'(3)] next' unfolding q'(4) by simp
  moreover have "deadline_del_rq_rb n q = Some q'"
    using q'(1) n(2,3) tree_rep_next [OF tr]
    by (auto simp: deadline_del_rq_rb_def deadline_latter_request_def on_dd_def fun_upd_idem)
  ultimately show ?thesis using q'(2,5) by (auto simp: deadline_same_def)
qed

text \<open>Adding a request to the tree of its direction, with or without another request at its sector.\<close>

lemma deadline_rb_add_alias:
  assumes t: "deadline_trees (elevator_data q) (q_nodes q) (q_reqs q) t E"
    and n: "q_reqs q n = Some r" "data_dir r = b" and x: "x \<in> set (t b)" "pos_of (q_reqs q) x = blk_rq_pos r"
  shows "deadline_rb_add n q = Some (x, q)"
proof -
  note D = deadline_treesD [OF t, where b = b]
  from elv_rb_add_alias [OF D(1,2) n(1) x] n show ?thesis
    by (simp add: deadline_rb_add_def deadline_rb_root_def on_dd_def fun_upd_idem)
qed

lemma deadline_rb_add_new:
  assumes q: "queue_rep q X S w R" and t: "deadline_trees (elevator_data q) (q_nodes q) (q_reqs q) t E"
    and n: "n \<in> X" "q_reqs q n = Some r" "data_dir r = b" "E \<subseteq> {n}" "n \<notin> (\<Union>b. set (t b))"
    and new: "\<forall>x\<in>set (t b). pos_of (q_reqs q) x \<noteq> blk_rq_pos r"
    and nx: "\<And>c. dd_next_rq (elevator_data q) c = n \<Longrightarrow> c = b"
  shows "\<exists>q' t'. deadline_rb_add n q = Some (NULL, q') \<and> queue_rep q' X S w R \<and>
    deadline_trees (elevator_data q') (q_nodes q') (q_reqs q') t' {} \<and>
    (\<Union>b. set (t' b)) = insert n (\<Union>b. set (t b)) \<and> deadline_same q q'"
proof -
  let ?d = "elevator_data q"
  note D = deadline_treesD [OF t]
  have nn: "n \<noteq> NULL" "aligned4 n" "n \<in> dom (q_nodes q)" using queue_repD(3,4,5) [OF q] n(1) by auto
  let ?xs = "filter (\<lambda>x. pos_of (q_reqs q) x < blk_rq_pos r) (t b) @ n # filter (\<lambda>x. blk_rq_pos r < pos_of (q_reqs q) x) (t b)"
  from elv_rb_add_new [OF D(1) D(2) n(2) new nn] obtain ns root where
    e: "elv_rb_add (q_reqs q) n (q_nodes q) (dd_sort_list ?d b) = Some (NULL, ns, root)" "tree_rep ns root ?xs"
      "pos_sorted (q_reqs q) ?xs" "set ?xs = insert n (set (t b))" "unchanged (set ?xs) (q_nodes q) ns" by blast
  let ?q = "on_dd (\<lambda>dd. dd\<lparr>dd_sort_list := (dd_sort_list dd)(b := root)\<rparr>) (q\<lparr>q_nodes := ns\<rparr>)"
  have "x \<in> dom ns" if "x \<in> X" for x
    using that e(5) tree_rep_node [OF e(2), of x] queue_repD(3) [OF q]
    by (cases "x \<in> set ?xs") (auto simp: unchanged_def)
  then have "queue_rep ?q X S w R" using queue_rep_nodes [OF q] by (simp add: on_dd_def subset_iff)
  moreover have "deadline_trees (elevator_data ?q) (q_nodes ?q) (q_reqs ?q) (t(b := ?xs)) {}"
    unfolding deadline_trees_def
  proof (intro allI conjI ballI)
    fix c
    show "tree_rep (q_nodes ?q) (dd_sort_list (elevator_data ?q) c) ((t(b := ?xs)) c)"
    proof (cases "c = b")
      case False
      then have "set ?xs \<inter> set (t c) = {}" using deadline_trees_disjoint [OF t, of b c] n(5) unfolding e(4) by auto
      with tree_rep_unchanged [OF D(1) e(5)] False show ?thesis by (simp add: on_dd_def)
    qed (simp add: on_dd_def e(2))
    show "pos_sorted (q_reqs ?q) ((t(b := ?xs)) c)" using D(2) [of c] e(3)
      by (cases "c = b") (simp_all add: on_dd_def del: pos_sorted_simps)
    show "in_dir (q_reqs ?q) c x" if "x \<in> set ((t(b := ?xs)) c)" for x
    proof (cases "c = b")
      case True
      then have "x = n \<or> x \<in> set (t b)" using that e(4) by auto
      then show ?thesis using True D(3) n(2,3) by (auto simp: on_dd_def in_dir_def)
    next
      case False
      then show ?thesis using that D(3) [of x c] by (simp add: on_dd_def)
    qed
    show "dd_next_rq (elevator_data ?q) c \<in> insert NULL (set ((t(b := ?xs)) c) \<union> {})"
    proof (cases "c = b")
      case True
      then show ?thesis using D(4) [of b] e(4) n(4) by (auto simp: on_dd_def)
    next
      case False
      then show ?thesis using D(4) [of c] n(4) nx [of c] by (auto simp: on_dd_def)
    qed
  qed
  moreover have "(\<Union>c. set ((t(b := ?xs)) c)) = insert n (\<Union>b. set (t b))"
    using e(4) by (cases b) (simp_all only: UNIV_bool, auto)
  moreover have "deadline_rb_add n q = Some (NULL, ?q)"
    using e(1) n(2,3) by (simp add: deadline_rb_add_def deadline_rb_root_def)
  ultimately show ?thesis by (intro exI [of _ ?q] exI [of _ "t(b := ?xs)"]) (simp add: on_dd_def deadline_same_def)
qed

section \<open>Removing and dispatching a request\<close>

lemma same_reqs_keys_trees:
  assumes "deadline_trees d ns m t E" "same_reqs m m'"
  shows "deadline_trees d ns m' t E"
proof (rule deadline_trees_frame [OF assms(1)])
  have "(\<Union>b. set (t b)) \<subseteq> dom m" using deadline_treesD(3) [OF assms(1)] by (fastforce simp: in_dir_def)
  then show "same_keys (\<Union>b. set (t b)) m m'" by (rule same_reqs_same_keys [OF assms(2)])
qed simp_all

lemma same_reqs_keys_lists:
  assumes "deadline_lists d m S w L" "same_reqs m m'" "\<And>a. a \<in> S \<Longrightarrow> set (w' a) = set (w a)"
    "dd_fifo_list d' = dd_fifo_list d"
  shows "deadline_lists d' m' S w' L"
proof (rule deadline_lists_sets [OF assms(1,3) _ assms(4)])
  have "L \<subseteq> dom m" using assms(1) by (fastforce simp: deadline_lists_def in_dir_def)
  then show "same_keys L m m'" by (rule same_reqs_same_keys [OF assms(2)])
qed

lemma deadline_remove_rep:
  assumes q: "queue_rep q X S w R" and l: "deadline_lists (elevator_data q) (q_reqs q) S w L"
    and t: "deadline_trees (elevator_data q) (q_nodes q) (q_reqs q) t E"
    and n: "t b = xs @ n # ys" "n \<in> X" "n \<notin> E"
  shows "\<exists>q'. deadline_remove_request n q = Some q' \<and> queue_rep q' X S (wo n w) R \<and>
    deadline_lists (elevator_data q') (q_reqs q') S (wo n w) (L - {n}) \<and>
    deadline_trees (elevator_data q') (q_nodes q') (q_reqs q') (t(b := xs @ ys)) E \<and>
    nr_sorted q' = nr_sorted q \<and> same_queue q q' \<and> same_reqs (q_reqs q) (q_reqs q')"
proof -
  have "n \<in> set (t b)" using n(1) by simp
  from deadline_treesD(3) [OF t this] obtain r where r: "q_reqs q n = Some r" "data_dir r = b" by (auto simp: in_dir_def)
  let ?m = "(q_reqs q)(n \<mapsto> r\<lparr>fifo_time := n + 8\<rparr>)"
  let ?q = "\<lambda>ml. q\<lparr>q_lists := ml, q_reqs := ?m\<rparr>"
  from rq_fifo_clear_rep [OF q n(2) r(1)] obtain ml where
    ml: "rq_fifo_clear n q = Some (?q ml)" "queue_rep (?q ml) X S (wo n w) R" by blast
  have s: "same_reqs (q_reqs q) ?m" by (rule same_reqs_fifo_time) (rule r)
  have t1: "deadline_trees (elevator_data (?q ml)) (q_nodes (?q ml)) ?m t E"
    using same_reqs_keys_trees [OF t s] by simp
  have r1: "q_reqs (?q ml) n = Some (r\<lparr>fifo_time := n + 8\<rparr>)" "data_dir (r\<lparr>fifo_time := n + 8\<rparr>) = b"
    using r by (simp_all add: data_dir_def rq_data_dir_def)
  from deadline_del_rq_rb_rep [OF ml(2) t1 n(1) r1 n(3)] obtain q' where
    q': "deadline_del_rq_rb n (?q ml) = Some q'" "queue_rep q' X S (wo n w) R"
      "deadline_trees (elevator_data q') (q_nodes q') ?m (t(b := xs @ ys)) E" "deadline_same (?q ml) q'" by blast
  from q'(4) have e: "q_reqs q' = ?m" "dd_fifo_list (elevator_data q') = dd_fifo_list (elevator_data q)"
    "nr_sorted q' = nr_sorted q" "same_queue q q'" by (simp_all add: deadline_same_def)
  have "deadline_lists (elevator_data q') (q_reqs q') S (wo n w) (L - {n})"
    unfolding e(1) by (rule same_reqs_keys_lists [OF deadline_lists_wo [OF l] s _ e(2)]) simp
  moreover have "deadline_remove_request n q = Some q'" using ml(1) q'(1) by (simp add: deadline_remove_request_def)
  ultimately show ?thesis using q' e s by (intro exI [of _ q']) simp
qed

lemma deadline_move_rep:
  assumes q: "queue_rep q X S w R" and l: "deadline_lists (elevator_data q) (q_reqs q) S w L"
    and t: "deadline_trees (elevator_data q) (q_nodes q) (q_reqs q) t E"
    and n: "n \<in> set (t b)" "n \<in> X" "n \<notin> set (w (queue_head q))"
  shows "\<exists>q' w' t'. deadline_move_request n q = Some q' \<and> queue_rep q' X S w' (R - {n}) \<and>
    deadline_lists (elevator_data q') (q_reqs q') S w' (L - {n}) \<and>
    deadline_trees (elevator_data q') (q_nodes q') (q_reqs q') t' {} \<and>
    (\<forall>c. set (t' c) = set (t c) - {n}) \<and> (\<forall>a\<in>S. w' a = wo n w a) \<and> moves q w {n} q' w'"
proof -
  let ?d = "elevator_data q"
  obtain xs ys where w: "t b = xs @ n # ys" using n(1) by (meson split_list)
  from deadline_treesD(3) [OF t n(1)] obtain r where r: "q_reqs q n = Some r" "data_dir r = b" by (auto simp: in_dir_def)
  have tr: "tree_rep (q_nodes q) (dd_sort_list ?d b) (xs @ n # ys)" using deadline_treesD(1) [OF t, of b] w by simp
  have dn: "n \<notin> set xs" "n \<notin> set ys" using tree_rep_distinct [OF tr] by auto
  let ?q = "q\<lparr>elevator_data := ?d\<lparr>dd_next_rq := (\<lambda>_. NULL)(b := hd_ptr ys), dd_last_sector := rq_end_sector r\<rparr>\<rparr>"
  have "hd_ptr ys \<in> insert NULL (set (t b))" using w by (cases ys) auto
  then have t0: "deadline_trees (elevator_data ?q) (q_nodes ?q) (q_reqs ?q) t {}"
    using t unfolding deadline_trees_def by auto
  have l0: "deadline_lists (elevator_data ?q) (q_reqs ?q) S w L" using l by (auto simp: deadline_lists_def)
  have q0: "queue_rep ?q X S w R" using q by simp
  from deadline_remove_rep [OF q0 l0 t0 w n(2)] obtain q1 where
    q1: "deadline_remove_request n ?q = Some q1" "queue_rep q1 X S (wo n w) R"
      "deadline_lists (elevator_data q1) (q_reqs q1) S (wo n w) (L - {n})"
      "deadline_trees (elevator_data q1) (q_nodes q1) (q_reqs q1) (t(b := xs @ ys)) {}"
      "nr_sorted q1 = nr_sorted q" "same_queue q q1" "same_reqs (q_reqs q) (q_reqs q1)" by auto
  have qh: "queue_head q1 = queue_head q" using q1(6) by (simp add: same_queue_def)
  have "n \<notin> listed (queue_head q1) S (wo n w)" by (simp add: listed_wo)
  from elv_dispatch_add_tail_rep [OF q1(2) n(2) this] obtain q' where
    q': "elv_dispatch_add_tail n q1 = Some q'"
      "queue_rep q' X S ((wo n w)(queue_head q := wo n w (queue_head q) @ [n])) (R - {n})"
      "nr_sorted q' = nr_sorted q1 - 1" "elevator_data q' = elevator_data q1" "q_nodes q' = q_nodes q1"
      "q_reqs q' = q_reqs q1" "same_queue q1 q'" unfolding qh by blast
  let ?w = "(wo n w)(queue_head q := wo n w (queue_head q) @ [n])"
  have S: "a \<in> S \<Longrightarrow> ?w a = wo n w a" for a using lists_repD(2) [OF queue_repD(1) [OF q]] by auto
  have "deadline_move_request n q = Some q'"
    using r tree_rep_next [OF tr] q1(1) q'(1)
    by (simp add: deadline_move_request_def deadline_latter_request_def deadline_move_to_dispatch_def on_dd_def Let_def)
  moreover have "deadline_lists (elevator_data q') (q_reqs q') S ?w (L - {n})"
    unfolding q'(4,6) by (rule same_reqs_keys_lists [OF q1(3)]) (use S in auto)
  moreover have "\<forall>c. set ((t(b := xs @ ys)) c) = set (t c) - {n}"
    using w dn n(1) deadline_trees_disjoint [OF t, of b "\<not> b"] by auto
  moreover have "moves q w {n} q' ?w"
    using q' q1(5-7) n(3) same_queue_trans [OF q1(6) q'(7)] by (simp add: moves_def)
  ultimately show ?thesis using q'(2) q1(4) S unfolding q'(4,5,6)
    by (intro exI [of _ q'] exI [of _ ?w] exI [of _ "t(b := xs @ ys)"]) (simp add: q'(4-6))
qed

section \<open>Adding a request\<close>

text \<open>
  The request \<open>n\<close> comes into the tree of its direction; a request at the same sector, if there is
  one, goes to the dispatch queue.
\<close>

lemma deadline_add_rq_rb_rep:
  assumes q: "queue_rep q X S w R" and l: "deadline_lists (elevator_data q) (q_reqs q) S w L"
    and t: "deadline_trees (elevator_data q) (q_nodes q) (q_reqs q) t E" "(\<Union>b. set (t b)) \<subseteq> R - {n}"
    and n: "n \<in> X" "E \<subseteq> {n}" "\<And>c. dd_next_rq (elevator_data q) c = n \<Longrightarrow> in_dir (q_reqs q) c n"
  shows "\<exists>q' w' t' A. deadline_add_rq_rb n q = Some q' \<and> A \<subseteq> (\<Union>b. set (t b)) \<and> queue_rep q' X S w' (R - A) \<and>
    deadline_lists (elevator_data q') (q_reqs q') S w' (L - A) \<and>
    deadline_trees (elevator_data q') (q_nodes q') (q_reqs q') t' {} \<and>
    (\<Union>b. set (t' b)) = insert n ((\<Union>b. set (t b)) - A) \<and> moves q w A q' w'"
proof -
  obtain r where r: "q_reqs q n = Some r" by (rule queue_rep_req [OF q n(1)])
  define b where "b = data_dir r"
  have nx: "c = b" if "dd_next_rq (elevator_data q) c = n" for c
    using n(3) [OF that] r by (auto simp: in_dir_def b_def)
  show ?thesis
  proof (cases "\<exists>x\<in>set (t b). pos_of (q_reqs q) x = blk_rq_pos r")
    case False
    then have new: "\<forall>x\<in>set (t b). pos_of (q_reqs q) x \<noteq> blk_rq_pos r" by blast
    have "n \<notin> (\<Union>b. set (t b))" using t(2) by blast
    from deadline_rb_add_new [OF q t(1) n(1) r b_def [symmetric] n(2) this new nx] obtain q' t' where
      q': "deadline_rb_add n q = Some (NULL, q')" "queue_rep q' X S w R"
        "deadline_trees (elevator_data q') (q_nodes q') (q_reqs q') t' {}"
        "(\<Union>b. set (t' b)) = insert n (\<Union>b. set (t b))" "deadline_same q q'" by blast
    have "deadline_add_rq_rb n q = Some q'" using q'(1) by (subst deadline_add_rq_rb.simps) simp
    moreover have "deadline_lists (elevator_data q') (q_reqs q') S w L"
      using l q'(5) by (auto simp: deadline_lists_def deadline_same_def)
    moreover have "moves q w {} q' w" using q'(5) by (simp add: moves_def deadline_same_def)
    ultimately show ?thesis using q'(2-4)
      by (intro exI [of _ q'] exI [of _ w] exI [of _ t'] exI [of _ "{}"]) simp
  next
    case True
    then obtain x where x: "x \<in> set (t b)" "pos_of (q_reqs q) x = blk_rq_pos r" by blast
    then have xR: "x \<in> R" "x \<noteq> n" using t(2) by auto
    have xX: "x \<in> X" "x \<notin> set (w (queue_head q))" using queue_repD(6,7) [OF q] xR by auto
    from deadline_move_rep [OF q l t(1) x(1) xX] obtain q1 w1 t1 where
      m: "deadline_move_request x q = Some q1" "queue_rep q1 X S w1 (R - {x})"
        "deadline_lists (elevator_data q1) (q_reqs q1) S w1 (L - {x})"
        "deadline_trees (elevator_data q1) (q_nodes q1) (q_reqs q1) t1 {}"
        "\<forall>c. set (t1 c) = set (t c) - {x}" "moves q w {x} q1 w1" by blast
    have s: "same_reqs (q_reqs q) (q_reqs q1)" using m(6) by (simp add: moves_def)
    obtain r1 where r1: "q_reqs q1 n = Some r1" "blk_rq_pos r1 = blk_rq_pos r" "cmd_flags r1 = cmd_flags r"
      by (rule same_reqs_Some [OF s r])
    then have b1: "data_dir r1 = b" by (simp add: b_def data_dir_def rq_data_dir_def)
    have "distinct (map (pos_of (q_reqs q)) (t b))"
      using deadline_treesD(2) [OF t(1), of b]
      by (auto simp: pos_sorted_def distinct_map distinct_conv_nth sorted_wrt_iff_nth_less inj_on_def in_set_conv_nth neq_iff)
    then have "inj_on (pos_of (q_reqs q)) (set (t b))" by (simp add: distinct_map)
    then have "y \<in> set (t b) \<Longrightarrow> y \<noteq> x \<Longrightarrow> pos_of (q_reqs q) y \<noteq> blk_rq_pos r" for y
      using inj_onD [OF _ _ _ x(1)] x(2) by metis
    then have new: "\<forall>y\<in>set (t1 b). pos_of (q_reqs q1) y \<noteq> blk_rq_pos r1"
      using m(5) r1(2) same_reqs_pos [OF s] by auto
    have un: "(\<Union>b. set (t1 b)) = (\<Union>b. set (t b)) - {x}" using m(5) by auto
    have nn: "n \<notin> (\<Union>b. set (t1 b))" using un t(2) by auto
    have nx1: "c = b" if "dd_next_rq (elevator_data q1) c = n" for c
      using that deadline_treesD(4) [OF m(4), of c] nn queue_repD(4) [OF q n(1)] by auto
    from deadline_rb_add_new [OF m(2,4) n(1) r1(1) b1 _ nn new nx1] obtain q' t' where
      q': "deadline_rb_add n q1 = Some (NULL, q')" "queue_rep q' X S w1 (R - {x})"
        "deadline_trees (elevator_data q') (q_nodes q') (q_reqs q') t' {}"
        "(\<Union>b. set (t' b)) = insert n (\<Union>b. set (t1 b))" "deadline_same q1 q'" by blast
    have "deadline_add_rq_rb n q1 = Some q'" using q'(1) by (subst deadline_add_rq_rb.simps) simp
    moreover have "x \<noteq> NULL" using queue_repD(4) [OF q xX(1)] .
    ultimately have "deadline_add_rq_rb n q = Some q'"
      using deadline_rb_add_alias [OF t(1) r b_def [symmetric] x] m(1) by (subst deadline_add_rq_rb.simps) simp
    moreover have "deadline_lists (elevator_data q') (q_reqs q') S w1 (L - {x})"
      using m(3) q'(5) by (auto simp: deadline_lists_def deadline_same_def)
    moreover have "moves q w {x} q' w1"
      using q'(5) m(6) same_queue_trans by (auto simp: moves_def deadline_same_def)
    ultimately show ?thesis using q'(2-4) un x(1)
      by (intro exI [of _ q'] exI [of _ w1] exI [of _ t'] exI [of _ "{x}"]) auto
  qed
qed

lemma deadline_add:
  assumes q: "queue_rep q X S w (insert n R)" and R: "finite R" "n \<notin> R"
    and i: "deadline_inv (elevator_data q) (q_nodes q) (q_reqs q) S w R"
  shows "\<exists>q' w' A. elevator_add_req_fn iosched_deadline n q = Some q' \<and> A \<subseteq> R \<and>
    held deadline_inv q' X S w' (insert n (R - A)) \<and> moves q w A q' w'"
proof -
  from i obtain t where t: "deadline_trees (elevator_data q) (q_nodes q) (q_reqs q) t {}" "(\<Union>b. set (t b)) = R"
    and l: "deadline_lists (elevator_data q) (q_reqs q) S w R" by (auto simp: deadline_inv_def)
  have nX: "n \<in> X" "n \<notin> set (w (queue_head q))" using queue_repD(6,7) [OF q] by auto
  obtain r where r: "q_reqs q n = Some r" by (rule queue_rep_req [OF q nX(1)])
  have "dd_next_rq (elevator_data q) c \<noteq> n" for c
    using deadline_treesD(4) [OF t(1), of c] t(2) R(2) queue_repD(4) [OF q nX(1)] by auto
  with deadline_add_rq_rb_rep [OF q l t(1) _ nX(1), unfolded t(2)] R(2) obtain q1 w1 t1 A where
    q1: "deadline_add_rq_rb n q = Some q1" "A \<subseteq> R" "queue_rep q1 X S w1 (insert n R - A)"
      "deadline_lists (elevator_data q1) (q_reqs q1) S w1 (R - A)"
      "deadline_trees (elevator_data q1) (q_nodes q1) (q_reqs q1) t1 {}"
      "(\<Union>b. set (t1 b)) = insert n (R - A)" "moves q w A q1 w1" by blast
  have RA: "insert n R - A = insert n (R - A)" using q1(2) R(2) by auto
  have s: "same_reqs (q_reqs q) (q_reqs q1)" using q1(7) by (simp add: moves_def)
  obtain r1 where r1: "q_reqs q1 n = Some r1" "cmd_flags r1 = cmd_flags r" by (rule same_reqs_Some [OF s r])
  let ?b = "data_dir r" and ?d = "elevator_data q1"
  let ?m = "(q_reqs q1)(n \<mapsto> r1\<lparr>fifo_time := jiffies q1 + dd_fifo_expire ?d ?b\<rparr>)"
  let ?a = "dd_fifo_list ?d ?b"
  have qh: "queue_head q1 = queue_head q" using q1(7) by (simp add: moves_def same_queue_def)
  have a: "?a \<in> S" using q1(4) by (auto simp: deadline_lists_def)
  then have aq: "?a \<noteq> queue_head q" using lists_repD(2) [OF queue_repD(1) [OF q1(3)]] qh by auto
  have q2: "queue_rep (q1\<lparr>q_reqs := ?m\<rparr>) X S w1 (insert n (R - A))"
    using q1(3) r1(1) unfolding RA by (subst queue_rep_simps) auto
  have "n \<notin> listed (queue_head q1) S w1"
    using q1(4) queue_repD(7) [OF q2] R(2) by (auto simp: listed_def deadline_lists_def)
  with queue_rep_add_tail [OF q2 a nX(1)] obtain ml where
    ml: "list_add_tail n ?a (q_lists q1) = Some ml"
      "queue_rep (q1\<lparr>q_reqs := ?m, q_lists := ml\<rparr>) X S (w1(?a := w1 ?a @ [n])) (insert n (R - A))" by auto
  have s1: "same_reqs (q_reqs q1) ?m" by (rule same_reqs_fifo_time) (rule r1)
  have "deadline_trees ?d (q_nodes q1) ?m t1 {}" by (rule same_reqs_keys_trees [OF q1(5) s1])
  moreover have "deadline_lists ?d ?m S (w1(?a := w1 ?a @ [n])) (insert n (R - A))"
  proof -
    have l1: "deadline_lists ?d ?m S w1 (R - A)" by (rule same_reqs_keys_lists [OF q1(4) s1]) auto
    have "in_dir ?m ?b n" using r1 by (simp add: in_dir_def data_dir_def rq_data_dir_def)
    from deadline_lists_add [OF l1 this] show ?thesis .
  qed
  moreover have "elevator_add_req_fn iosched_deadline n q = Some (q1\<lparr>q_reqs := ?m, q_lists := ml\<rparr>)"
    using q1(1) r r1(1) ml(1)
    by (simp add: iosched_deadline_def deadline_add_request_def rq_set_fifo_time_rep on_lists_def)
  moreover have "moves q w A (q1\<lparr>q_reqs := ?m, q_lists := ml\<rparr>) (w1(?a := w1 ?a @ [n]))"
    using q1(7) same_reqs_trans [OF s s1] aq by (simp add: moves_def)
  ultimately show ?thesis using ml(2) R(1) q1(2,6)
    by (intro exI [of _ "q1\<lparr>q_reqs := ?m, q_lists := ml\<rparr>"] exI [of _ "w1(?a := w1 ?a @ [n])"] exI [of _ A])
      (auto simp: held_def deadline_inv_def)
qed

section \<open>Merging\<close>

lemma deadline_merged:
  assumes q: "queue_rep q X S w R" "finite R" and i: "deadline_inv (elevator_data q) (q_nodes q) m S w R"
    and n: "n \<in> R" "m n = Some r" and k: "same_keys R (m(n \<mapsto> r\<lparr>sector := s\<rparr>)) (q_reqs q)"
    and ty: "type' = ELEVATOR_FRONT_MERGE \<or> s = sector r"
  shows "\<exists>q' w' A. (case elevator_merged_fn iosched_deadline of Some f \<Rightarrow> f n type' q | None \<Rightarrow> Some q) = Some q' \<and>
    A \<subseteq> R - {n} \<and> held deadline_inv q' X S w' (R - A) \<and> moves q w A q' w'"
proof -
  from i obtain t where t: "deadline_trees (elevator_data q) (q_nodes q) m t {}" "(\<Union>b. set (t b)) = R"
    and l: "deadline_lists (elevator_data q) m S w R" by (auto simp: deadline_inv_def)
  have nX: "n \<in> X" using n(1) queue_repD(6) [OF q(1)] by auto
  have l1: "deadline_lists (elevator_data q) (q_reqs q) S w R"
  proof (rule deadline_lists_sets [OF _ _ k])
    show "deadline_lists (elevator_data q) (m(n \<mapsto> r\<lparr>sector := s\<rparr>)) S w R"
      using l n(2) by (fastforce simp: deadline_lists_def in_dir_def data_dir_def rq_data_dir_def)
  qed simp_all
  show ?thesis
  proof (cases "type' = ELEVATOR_FRONT_MERGE")
    case False
    with ty n(2) have "m(n \<mapsto> r\<lparr>sector := s\<rparr>) = m" by (simp add: fun_upd_idem)
    with k have "same_keys R m (q_reqs q)" by simp
    from deadline_frame [OF i _ this, of w "q_nodes q"] have "held deadline_inv q X S w R" using q by (simp add: held_def)
    then show ?thesis using False
      by (intro exI [of _ q] exI [of _ w] exI [of _ "{}"])
        (simp add: iosched_deadline_def deadline_merged_request_def moves_def)
  next
    case True
    from n(1) t(2) obtain b where b: "n \<in> set (t b)" by blast
    then obtain xs ys where w: "t b = xs @ n # ys" by (meson split_list)
    from k n(1) obtain r1 where r1: "q_reqs q n = Some r1" "same_key (r\<lparr>sector := s\<rparr>) r1" by (auto simp: same_keys_def)
    have "in_dir m b n" using deadline_treesD(3) [OF t(1) b] .
    then have b1: "data_dir r1 = b" using r1(2) n(2) by (auto simp: in_dir_def same_key_def data_dir_def rq_data_dir_def)
    from deadline_rb_del_rep [OF q(1) t(1) w r1(1) b1] obtain q1 where
      q1: "deadline_rb_del n q = Some q1" "queue_rep q1 X S w R"
        "deadline_trees (elevator_data q1) (q_nodes q1) m (t(b := xs @ ys)) {n}"
        "dd_next_rq (elevator_data q1) = dd_next_rq (elevator_data q)" "deadline_same q q1" by blast
    have e: "q_reqs q1 = q_reqs q" "dd_fifo_list (elevator_data q1) = dd_fifo_list (elevator_data q)"
      using q1(5) by (simp_all add: deadline_same_def)
    have un: "(\<Union>c. set ((t(b := xs @ ys)) c)) = R - {n}"
    proof -
      have "set ((t(b := xs @ ys)) c) = set (t c) - {n}" for c
        using w tree_rep_distinct [OF deadline_treesD(1) [OF t(1), of b]] deadline_trees_disjoint [OF t(1), of b c] b by auto
      then show ?thesis using t(2) by auto
    qed
    have t1: "deadline_trees (elevator_data q1) (q_nodes q1) (q_reqs q1) (t(b := xs @ ys)) {n}"
    proof (rule deadline_trees_frame [OF q1(3)])
      show "same_keys (\<Union>c. set ((t(b := xs @ ys)) c)) m (q_reqs q1)"
        unfolding un e(1) by (rule same_keys_upd [OF k])
    qed simp_all
    have l2: "deadline_lists (elevator_data q1) (q_reqs q1) S w R" using l1 e by (auto simp: deadline_lists_def)
    have nx: "in_dir (q_reqs q1) c n" if "dd_next_rq (elevator_data q1) c = n" for c
    proof -
      have "n \<in> set (t c)" using that deadline_treesD(4) [OF t(1), of c] queue_repD(4) [OF q(1) nX] unfolding q1(4) by auto
      then have "c = b" using b deadline_trees_disjoint [OF t(1), of b c] by blast
      then show ?thesis using r1(1) b1 by (simp add: in_dir_def e(1))
    qed
    from deadline_add_rq_rb_rep [OF q1(2) l2 t1 _ nX _ nx, unfolded un] obtain q' w' t' A where
      q': "deadline_add_rq_rb n q1 = Some q'" "A \<subseteq> R - {n}" "queue_rep q' X S w' (R - A)"
        "deadline_lists (elevator_data q') (q_reqs q') S w' (R - A)"
        "deadline_trees (elevator_data q') (q_nodes q') (q_reqs q') t' {}"
        "(\<Union>b. set (t' b)) = insert n (R - {n} - A)" "moves q1 w A q' w'" by blast
    have "insert n (R - {n} - A) = R - A" using n(1) q'(2) by auto
    then have "held deadline_inv q' X S w' (R - A)" using q' q(2) by (auto simp: held_def deadline_inv_def)
    moreover have "moves q w A q' w'"
      using q'(7) q1(5) same_queue_trans by (auto simp: moves_def deadline_same_def same_queue_def)
    ultimately show ?thesis using True q1(1) q'(1,2)
      by (intro exI [of _ q'] exI [of _ w'] exI [of _ A]) (simp add: iosched_deadline_def deadline_merged_request_def)
  qed
qed

lemma deadline_latter:
  assumes h: "held deadline_inv q X S w R" and n: "n \<in> R"
  shows "\<exists>x. elv_latter_request iosched_deadline n q = Some x \<and> (x = NULL \<or> x \<in> R \<and> x \<noteq> n)"
proof -
  from h obtain t where t: "deadline_trees (elevator_data q) (q_nodes q) (q_reqs q) t {}" "(\<Union>b. set (t b)) = R"
    by (auto simp: held_def deadline_inv_def)
  from n t(2) obtain b where "n \<in> set (t b)" by blast
  then obtain xs ys where w: "t b = xs @ n # ys" by (meson split_list)
  have tr: "tree_rep (q_nodes q) (dd_sort_list (elevator_data q) b) (xs @ n # ys)"
    using deadline_treesD(1) [OF t(1), of b] w by simp
  have "set (t b) \<subseteq> R" using t(2) by blast
  then have "hd_ptr ys = NULL \<or> hd_ptr ys \<in> R \<and> hd_ptr ys \<noteq> n"
    using w tree_rep_distinct [OF tr] by (cases ys) auto
  then show ?thesis
    using tree_rep_next [OF tr] by (simp add: elv_latter_request_def iosched_deadline_def elv_rb_latter_request_def)
qed

lemma deadline_merge_req:
  assumes h: "held deadline_inv q X S w R" and n: "n \<in> R" "n' \<in> R" "elv_latter_request iosched_deadline n q = Some n'"
    and r: "q_reqs q n = Some r" "q_reqs q n' = Some r'" "rq_data_dir r = rq_data_dir r'"
  shows "\<exists>q' w'. (case elevator_merge_req_fn iosched_deadline of Some f \<Rightarrow> f n n' q | None \<Rightarrow> Some q) = Some q' \<and>
    queue_rep q' X S w' R \<and> deadline_inv (elevator_data q') (q_nodes q') (q_reqs q') S w' (R - {n'}) \<and>
    w' (queue_head q) = w (queue_head q) \<and> moves q w {} q' w'"
proof -
  from h obtain t where t: "deadline_trees (elevator_data q) (q_nodes q) (q_reqs q) t {}" "(\<Union>b. set (t b)) = R"
    and l: "deadline_lists (elevator_data q) (q_reqs q) S w R" and q: "queue_rep q X S w R"
    by (auto simp: held_def deadline_inv_def)
  note D = queue_repD [OF q]
  have nX: "n \<in> X" "n' \<in> X" using n D(6) by auto
  have ne: "n \<noteq> n'" using deadline_latter [OF h n(1)] n(3) D(4) [OF nX(2)] by auto
  from fifo_inherit_rep [OF q n(1,2) ne] obtain q1 w1 where
    q1: "fifo_inherit n n' q = Some q1" "queue_rep q1 X S w1 R" "w1 = w \<or> w1 = inherit n n' w"
      "elevator_data q1 = elevator_data q" "q_nodes q1 = q_nodes q" "same_reqs (q_reqs q) (q_reqs q1)"
      "nr_sorted q1 = nr_sorted q" "same_queue q q1"
    by blast
  have dir: "in_dir (q_reqs q) b n \<longleftrightarrow> in_dir (q_reqs q) b n'" for b
    using r by (simp add: in_dir_def data_dir_def)
  have sets: "set (w1 a) = set (w a)" if "a \<in> S" for a
  proof -
    have "a \<in> range (dd_fifo_list (elevator_data q))" using that l by (simp add: deadline_lists_def)
    then obtain b where a: "a = dd_fifo_list (elevator_data q) b" by blast
    have "n \<in> set (w a) \<longleftrightarrow> n' \<in> set (w a)" using deadline_lists_in [OF l, of n b] deadline_lists_in [OF l, of n' b] dir n a by simp
    then show ?thesis using q1(3) by (auto simp: set_inherit [OF ne])
  qed
  have l1: "deadline_lists (elevator_data q1) (q_reqs q1) S w1 R"
    by (rule same_reqs_keys_lists [OF l q1(6) sets]) (simp_all add: q1(4))
  have t1: "deadline_trees (elevator_data q1) (q_nodes q1) (q_reqs q1) t {}"
    unfolding q1(4,5) by (rule same_reqs_keys_trees [OF t(1) q1(6)])
  from n(2) t(2) obtain b where b: "n' \<in> set (t b)" by blast
  then obtain xs ys where w: "t b = xs @ n' # ys" by (meson split_list)
  from deadline_remove_rep [OF q1(2) l1 t1 w nX(2)] obtain q' where
    q': "deadline_remove_request n' q1 = Some q'" "queue_rep q' X S (wo n' w1) R"
      "deadline_lists (elevator_data q') (q_reqs q') S (wo n' w1) (R - {n'})"
      "deadline_trees (elevator_data q') (q_nodes q') (q_reqs q') (t(b := xs @ ys)) {}"
      "nr_sorted q' = nr_sorted q1" "same_queue q1 q'" "same_reqs (q_reqs q1) (q_reqs q')" by blast
  have "set ((t(b := xs @ ys)) c) = set (t c) - {n'}" for c
    using w tree_rep_distinct [OF deadline_treesD(1) [OF t(1), of b]] deadline_trees_disjoint [OF t(1), of b c] b by auto
  then have un: "(\<Union>c. set ((t(b := xs @ ys)) c)) = R - {n'}" using t(2) by auto
  have "n \<notin> set (w (queue_head q))" "n' \<notin> set (w (queue_head q))" using n D(7) by auto
  then have "wo n' w1 (queue_head q) = w (queue_head q)" using q1(3) by (auto simp: inherit_def)
  moreover have "same_queue q q'" "same_reqs (q_reqs q) (q_reqs q')"
    using same_queue_trans [OF q1(8) q'(6)] same_reqs_trans [OF q1(6) q'(7)] by auto
  moreover have "deadline_inv (elevator_data q') (q_nodes q') (q_reqs q') S (wo n' w1) (R - {n'})"
    using q'(3,4) un unfolding deadline_inv_def by blast
  ultimately show ?thesis using q' q1(1,7)
    by (intro exI [of _ q'] exI [of _ "wo n' w1"])
      (simp add: iosched_deadline_def deadline_merged_requests_def moves_def)
qed

section \<open>Dispatching\<close>

lemma deadline_heldD:
  assumes h: "held deadline_inv q X S w R"
  obtains t where "queue_rep q X S w R" "finite R" "deadline_trees (elevator_data q) (q_nodes q) (q_reqs q) t {}"
    "(\<Union>b. set (t b)) = R" "deadline_lists (elevator_data q) (q_reqs q) S w R"
    "\<forall>b. set (w (dd_fifo_list (elevator_data q) b)) = set (t b)"
    "\<forall>b. list_empty (dd_fifo_list (elevator_data q) b) (q_lists q) = Some (t b = [])"
    "\<forall>b. dd_sort_list (elevator_data q) b = NULL \<longleftrightarrow> t b = []"
    "\<forall>b. get_next (dd_fifo_list (elevator_data q) b) (q_lists q) =
      Some (hd (w (dd_fifo_list (elevator_data q) b) @ [dd_fifo_list (elevator_data q) b]))"
proof -
  from h obtain t where t: "deadline_trees (elevator_data q) (q_nodes q) (q_reqs q) t {}" "(\<Union>b. set (t b)) = R"
    and l: "deadline_lists (elevator_data q) (q_reqs q) S w R" and q: "queue_rep q X S w R" "finite R"
    by (auto simp: held_def deadline_inv_def)
  have S: "dd_fifo_list (elevator_data q) b \<in> insert (queue_head q) S" for b using l by (auto simp: deadline_lists_def)
  have sets: "set (w (dd_fifo_list (elevator_data q) b)) = set (t b)" for b
  proof -
    have "x \<in> set (t b) \<longleftrightarrow> in_dir (q_reqs q) b x" if "x \<in> R" for x
      using that t(2) deadline_treesD(3) [OF t(1)] in_dir_unique by blast
    moreover have "set (w (dd_fifo_list (elevator_data q) b)) \<subseteq> R" "set (t b) \<subseteq> R"
      using l t(2) by (auto simp: deadline_lists_def)
    ultimately show ?thesis using deadline_lists_in [OF l] by blast
  qed
  then have "w (dd_fifo_list (elevator_data q) b) = [] \<longleftrightarrow> t b = []" for b by (metis set_empty)
  then show thesis
    using that [OF q t l] sets lists_empty [OF queue_repD(1) [OF q(1)] S] lists_first [OF queue_repD(1) [OF q(1)] S]
      tree_rep_root [OF deadline_treesD(1) [OF t(1)]] by simp
qed

lemma deadline_dispatch_none:
  assumes h: "held deadline_inv q X S w {}"
  shows "\<exists>d'. elevator_dispatch_fn iosched_deadline force q = Some (False, q\<lparr>elevator_data := d'\<rparr>) \<and>
    deadline_inv d' (q_nodes q) (q_reqs q) S w {}"
proof -
  obtain t where t: "deadline_trees (elevator_data q) (q_nodes q) (q_reqs q) t {}" "(\<Union>b. set (t b)) = {}"
    "\<forall>b. list_empty (dd_fifo_list (elevator_data q) b) (q_lists q) = Some (t b = [])" by (rule deadline_heldD [OF h])
  then have "t b = []" "dd_next_rq (elevator_data q) b = NULL" for b
    using deadline_treesD(4) [OF t(1), of b] by auto
  then show ?thesis using t(3) h
    by (intro exI [of _ "elevator_data q"]) (simp add: iosched_deadline_def deadline_dispatch_requests_def held_def)
qed

text \<open>Counters do not matter for the invariant.\<close>

definition deadline_like :: "deadline_data \<Rightarrow> deadline_data \<Rightarrow> bool" where
  "deadline_like d d' \<longleftrightarrow> dd_sort_list d' = dd_sort_list d \<and> dd_fifo_list d' = dd_fifo_list d \<and> dd_next_rq d' = dd_next_rq d"

lemma deadline_inv_like: "deadline_like d d' \<Longrightarrow> deadline_inv d' ns m S w R = deadline_inv d ns m S w R"
  by (simp add: deadline_like_def deadline_inv_def deadline_lists_def deadline_trees_def)

definition one_moved :: "deadline_queue \<Rightarrow> addr set \<Rightarrow> addr set \<Rightarrow> (addr \<Rightarrow> addr list) \<Rightarrow> addr set \<Rightarrow>
    (bool \<times> deadline_queue) option \<Rightarrow> bool" where
  "one_moved q X S w R res \<longleftrightarrow> (\<exists>q' n w'. res = Some (True, q') \<and> n \<in> R \<and>
     held deadline_inv q' X S w' (R - {n}) \<and> moves q w {n} q' w')"

lemma held_like: "deadline_like (elevator_data q) d' \<Longrightarrow> held deadline_inv (q\<lparr>elevator_data := d'\<rparr>) X S w R = held deadline_inv q X S w R"
  by (simp add: held_def deadline_inv_like)

lemma one_moved_like: "one_moved (q\<lparr>elevator_data := d'\<rparr>) X S w R res = one_moved q X S w R res"
  by (simp add: one_moved_def moves_def)

lemma dispatch_request_rep:
  assumes h: "held deadline_inv q X S w R" and n: "n \<in> R"
  shows "one_moved q X S w R (dispatch_request n q)"
proof -
  let ?q = "on_dd (\<lambda>dd. dd\<lparr>dd_batching := dd_batching dd + 1\<rparr>) q"
  have h1: "held deadline_inv ?q X S w R"
    unfolding on_dd_def by (subst held_like) (simp_all add: h deadline_like_def)
  obtain t where t: "queue_rep ?q X S w R" "finite R" "deadline_trees (elevator_data ?q) (q_nodes ?q) (q_reqs ?q) t {}"
    "(\<Union>b. set (t b)) = R" "deadline_lists (elevator_data ?q) (q_reqs ?q) S w R" by (rule deadline_heldD [OF h1])
  from n t(4) obtain b where b: "n \<in> set (t b)" by blast
  have "n \<in> X" "n \<notin> set (w (queue_head ?q))" using n queue_repD(6,7) [OF t(1)] by auto
  from deadline_move_rep [OF t(1,5,3) b this] obtain q' w' t' where
    m: "deadline_move_request n ?q = Some q'" "queue_rep q' X S w' (R - {n})"
      "deadline_lists (elevator_data q') (q_reqs q') S w' (R - {n})"
      "deadline_trees (elevator_data q') (q_nodes q') (q_reqs q') t' {}"
      "\<forall>c. set (t' c) = set (t c) - {n}" "moves ?q w {n} q' w'" by blast
  have "(\<Union>b. set (t' b)) = R - {n}" using m(5) t(4) by auto
  then have "held deadline_inv q' X S w' (R - {n})" using m(2-4) t(2) by (auto simp: held_def deadline_inv_def)
  moreover have "moves q w {n} q' w'" using m(6) by (simp add: on_dd_def moves_def)
  ultimately show ?thesis using m(1) n by (auto simp: one_moved_def dispatch_request_def)
qed

lemma dispatch_find_request_rep:
  assumes h: "held deadline_inv q X S w R" and ne: "w (dd_fifo_list (elevator_data q) b) \<noteq> []"
  shows "one_moved q X S w R (dispatch_find_request b q)"
proof -
  let ?a = "dd_fifo_list (elevator_data q) b"
  obtain t where t: "queue_rep q X S w R" "deadline_trees (elevator_data q) (q_nodes q) (q_reqs q) t {}"
    "(\<Union>b. set (t b)) = R" "\<forall>b. set (w (dd_fifo_list (elevator_data q) b)) = set (t b)"
    "\<forall>b. get_next (dd_fifo_list (elevator_data q) b) (q_lists q) =
      Some (hd (w (dd_fifo_list (elevator_data q) b) @ [dd_fifo_list (elevator_data q) b]))"
    by (rule deadline_heldD [OF h])
  from ne obtain x xs where x: "w ?a = x # xs" by (cases "w ?a") auto
  have sub: "set (t b) \<subseteq> R" using t(3) by blast
  then have xR: "x \<in> R" using t(4) x by (metis list.set_intros(1) subsetD)
  then obtain r where r: "q_reqs q x = Some r" using queue_rep_req [OF t(1)] queue_repD(6) [OF t(1)] by blast
  let ?d = "(elevator_data q)\<lparr>dd_batching := 0\<rparr>"
  have like: "deadline_like (elevator_data q) ?d" by (simp add: deadline_like_def)
  let ?n = "if time_after (jiffies q) (fifo_time r) \<or> dd_next_rq (elevator_data q) b = NULL then x
    else dd_next_rq (elevator_data q) b"
  have nR: "?n \<in> R" using xR sub deadline_treesD(4) [OF t(2), of b] by auto
  have "held deadline_inv (q\<lparr>elevator_data := ?d\<rparr>) X S w R" using h held_like [OF like] by blast
  from dispatch_request_rep [OF this nR] have "one_moved q X S w R (dispatch_request ?n (q\<lparr>elevator_data := ?d\<rparr>))"
    by (simp only: one_moved_like)
  moreover have "dispatch_find_request b q = dispatch_request ?n (q\<lparr>elevator_data := ?d\<rparr>)"
    using t(5) x r by (simp add: dispatch_find_request_def deadline_check_fifo_def on_dd_def)
  ultimately show ?thesis by simp
qed

lemma dispatch_writes_rep:
  assumes h: "held deadline_inv q X S w R" and ne: "w (dd_fifo_list (elevator_data q) WRITE) \<noteq> []"
  shows "one_moved q X S w R (dispatch_writes q)"
proof -
  obtain t where t: "\<forall>b. set (w (dd_fifo_list (elevator_data q) b)) = set (t b)"
    "\<forall>b. dd_sort_list (elevator_data q) b = NULL \<longleftrightarrow> t b = []" by (rule deadline_heldD [OF h]) blast
  have "t WRITE \<noteq> []" using ne t(1) by (metis set_empty)
  let ?d = "(elevator_data q)\<lparr>dd_starved := 0\<rparr>"
  have "held deadline_inv (q\<lparr>elevator_data := ?d\<rparr>) X S w R"
    using h by (subst held_like) (simp_all add: deadline_like_def)
  from dispatch_find_request_rep [OF this, of WRITE] ne
  have "one_moved q X S w R (dispatch_find_request WRITE (q\<lparr>elevator_data := ?d\<rparr>))" by (simp add: one_moved_like)
  then show ?thesis using \<open>t WRITE \<noteq> []\<close> t(2) by (simp add: dispatch_writes_def RB_EMPTY_ROOT_def on_dd_def)
qed

lemma deadline_dispatch_one:
  assumes h: "held deadline_inv q X S w R" and R: "R \<noteq> {}"
  shows "\<exists>q' n w'. elevator_dispatch_fn iosched_deadline force q = Some (True, q') \<and> n \<in> R \<and>
    held deadline_inv q' X S w' (R - {n}) \<and> moves q w {n} q' w'"
proof -
  let ?d = "elevator_data q"
  obtain t where t: "deadline_trees ?d (q_nodes q) (q_reqs q) t {}" "(\<Union>b. set (t b)) = R"
    "\<forall>b. set (w (dd_fifo_list ?d b)) = set (t b)" "\<forall>b. list_empty (dd_fifo_list ?d b) (q_lists q) = Some (t b = [])"
    "\<forall>b. dd_sort_list ?d b = NULL \<longleftrightarrow> t b = []" by (rule deadline_heldD [OF h])
  have ne: "w (dd_fifo_list ?d b) = [] \<longleftrightarrow> t b = []" for b using t(3) by (metis set_empty)
  have some: "t READ \<noteq> [] \<or> t WRITE \<noteq> []" using R t(2) by (auto simp: UNIV_bool)
  let ?n = "if dd_next_rq ?d WRITE \<noteq> NULL then dd_next_rq ?d WRITE else dd_next_rq ?d READ"
  let ?s = "on_dd (\<lambda>dd. dd\<lparr>dd_starved := dd_starved dd + 1\<rparr>) q"
  have like: "deadline_like ?d (?d\<lparr>dd_starved := dd_starved ?d + 1\<rparr>)" by (simp add: deadline_like_def)
  have hs: "held deadline_inv ?s X S w R" unfolding on_dd_def using h held_like [OF like] by blast
  have ss: "one_moved ?s X S w R res = one_moved q X S w R res" for res by (simp only: on_dd_def one_moved_like)
  have fs: "dd_fifo_list (elevator_data ?s) = dd_fifo_list ?d" by (simp add: on_dd_def)
  have "?n \<in> R" if "?n \<noteq> NULL"
    using that deadline_treesD(4) [OF t(1), of WRITE] deadline_treesD(4) [OF t(1), of READ] t(2) by (auto split: if_splits)
  note case_next = dispatch_request_rep [OF h this]
  note case_read = dispatch_find_request_rep [OF h, of READ] dispatch_find_request_rep [OF hs, of READ, unfolded fs ss]
  note case_write = dispatch_writes_rep [OF h] dispatch_writes_rep [OF hs, unfolded fs ss]
  have "one_moved q X S w R (deadline_dispatch_requests force q)"
    unfolding deadline_dispatch_requests_def Let_def t(4) [rule_format] bind.bind_lunit RB_EMPTY_ROOT_def t(5) [rule_format]
    using case_next case_read case_write some ne by (auto simp: BUG_ON_def)
  then show ?thesis by (simp add: one_moved_def iosched_deadline_def)
qed

lemmas deadline_hooks = iosched_deadline_def elv_iosched_allow_merge_def elv_deactivate_rq_def

lemma deadline_allow:
  "held deadline_inv q X S w R \<Longrightarrow> n \<in> R \<Longrightarrow> \<exists>b. elv_iosched_allow_merge (elevator_allow_merge_fn iosched_deadline) n bio' q = Some b"
  by (auto simp: deadline_hooks)

lemma deadline_merge_fn:
  assumes h: "held deadline_inv q X S w R" and b: "bios_ok q R" "q_bios q bio' = Some b"
  shows "\<exists>ret x. (case elevator_merge_fn iosched_deadline of Some f \<Rightarrow> f bio' q | None \<Rightarrow> Some (ELEVATOR_NO_MERGE, NULL)) = Some (ret, x) \<and>
    (ret = ELEVATOR_NO_MERGE \<or> ret = ELEVATOR_FRONT_MERGE \<and> x \<in> R \<and>
      elv_rq_merge_ok (elevator_allow_merge_fn iosched_deadline) x bio' q = Some True \<and>
      pos_of (q_reqs q) x = bi_sector b + ucast (bio_sectors b))"
proof -
  let ?d = "bio_data_dir b \<noteq> 0" and ?sec = "bi_sector b + ucast (bio_sectors b)"
  obtain t where t: "deadline_trees (elevator_data q) (q_nodes q) (q_reqs q) t {}" "(\<Union>b. set (t b)) = R"
    by (rule deadline_heldD [OF h])
  note tr = deadline_treesD [OF t(1), where b = ?d]
  have sub: "set (t ?d) \<subseteq> R" using t(2) by blast
  have dom: "bio' \<in> dom (q_bios q)" using b(2) by blast
  from rb_find_merge [OF tr(1,2) sub b(1) dom, of ?sec] obtain x where
    x: "elv_rb_find (q_reqs q) (q_nodes q) (dd_sort_list (elevator_data q) ?d) ?sec = Some x"
      "x = NULL \<or> x \<in> R \<and> pos_of (q_reqs q) x = ?sec \<and> (\<exists>ok. elv_rq_merge_ok None x bio' q = Some ok)" by blast
  have "\<exists>r. q_reqs q x = Some r" if "x \<in> R" using b(1) that by (auto simp: bios_ok_def)
  then show ?thesis using x b(2)
    by (cases "x = NULL") (auto simp: iosched_deadline_def deadline_merge_def Let_def pos_of_def)
qed

lemma deadline_deactivate:
  "held deadline_inv q X S w R \<Longrightarrow> n \<in> X - R \<Longrightarrow> \<exists>q'. elv_deactivate_rq iosched_deadline n q = Some q' \<and> held deadline_inv q' X S w R \<and>
    nr_sorted q' = nr_sorted q \<and> same_queue q q' \<and> same_reqs (q_reqs q) (q_reqs q')"
  by (simp add: deadline_hooks)

interpretation deadline: elevator iosched_deadline deadline_inv
proof
  fix q X S w R
  assume h: "held deadline_inv q X S w R"
  obtain t where t: "(\<Union>b. set (t b)) = R"
    "\<forall>b. list_empty (dd_fifo_list (elevator_data q) b) (q_lists q) = Some (t b = [])" by (rule deadline_heldD [OF h])
  then show "(case elevator_queue_empty_fn iosched_deadline of Some f \<Rightarrow> f q | None \<Rightarrow> Some True) = Some (R = {})"
    by (auto simp: iosched_deadline_def deadline_queue_empty_def Let_def UNIV_bool)
next
  fix q X S w
  assume h: "held deadline_inv q X S w {}"
  obtain t :: "bool \<Rightarrow> addr list" where "(\<Union>b. set (t b)) = {}"
    "\<forall>b. list_empty (dd_fifo_list (elevator_data q) b) (q_lists q) = Some (t b = [])" by (rule deadline_heldD [OF h])
  then show "(case elevator_exit_fn iosched_deadline of Some f \<Rightarrow> f q | None \<Rightarrow> Some ()) = Some ()"
    by (simp add: iosched_deadline_def deadline_exit_queue_def)
qed (fact deadline_allow deadline_merge_fn deadline_deactivate deadline_frame deadline_listed deadline_dispatch_none deadline_dispatch_one deadline_latter |
    (erule deadline_add deadline_merged deadline_merge_req; assumption))+

end
