(* ===== verification/Iosched_Vr.thy ===== *)
theory Iosched_Vr
  imports Elevator_Core
begin

text \<open>
  The scheduler of \<open>block/vr-iosched.c\<close>: one tree of all requests sorted by sector, from which it
  takes the nearest request ahead of the head or behind it, whichever has the lower penalty;
  expired requests of the two first-in first-out lists come first after each batch.
\<close>

section \<open>The scheduler\<close>

datatype vr_head_dir = FORWARD | BACKWARD

definition vr_sync_expire :: u32 where "vr_sync_expire = HZ div 2"
definition vr_async_expire :: u32 where "vr_async_expire = 5 * HZ"
definition vr_fifo_batch :: u32 where "vr_fifo_batch = 16"
definition vr_rev_penalty :: u32 where "vr_rev_penalty = 10"

record vr_data =
  vd_sort_list :: addr
  vd_fifo_list :: "bool \<Rightarrow> addr"
  vd_next_rq :: addr
  vd_prev_rq :: addr
  vd_nbatched :: u32
  vd_last_sector :: sector_t
  vd_head_dir :: vr_head_dir
  vd_fifo_expire :: "bool \<Rightarrow> u32"
  vd_fifo_batch :: u32
  vd_rev_penalty :: u32

type_synonym vr_queue = "vr_data request_queue"

definition on_vr :: "(vr_data \<Rightarrow> vr_data) \<Rightarrow> vr_queue \<Rightarrow> vr_queue" where
  "on_vr f q = q\<lparr>elevator_data := f (elevator_data q)\<rparr>"

text \<open>The two run-time checks that follow each change of the cached neighbours of the head.\<close>

definition vr_check_distinct :: "vr_queue \<Rightarrow> unit option" where
  "vr_check_distinct q = (let vd = elevator_data q in
     BUG_ON (vd_next_rq vd \<noteq> NULL \<and> vd_next_rq vd = vd_prev_rq vd))"

definition vr_check_order :: "vr_queue \<Rightarrow> unit option" where
  "vr_check_order q = (let vd = elevator_data q in
     if vd_next_rq vd \<noteq> NULL \<and> vd_prev_rq vd \<noteq> NULL then do {
       n \<leftarrow> q_reqs q (vd_next_rq vd);
       p \<leftarrow> q_reqs q (vd_prev_rq vd);
       BUG_ON (blk_rq_pos n < blk_rq_pos p) }
     else Some ())"

definition vr_del_rq_rb :: "addr \<Rightarrow> vr_queue \<Rightarrow> vr_queue option" where
  "vr_del_rq_rb rq q = do {
     let vd = elevator_data q;
     q \<leftarrow> (if vd_next_rq vd = rq then do {
            n \<leftarrow> elv_rb_latter_request rq q;
            Some (on_vr (\<lambda>vd. vd\<lparr>vd_next_rq := n\<rparr>) q) }
          else if vd_prev_rq vd = rq then do {
            p \<leftarrow> elv_rb_former_request rq q;
            Some (on_vr (\<lambda>vd. vd\<lparr>vd_prev_rq := p\<rparr>) q) }
          else Some q);
     _ \<leftarrow> vr_check_distinct q;
     _ \<leftarrow> vr_check_order q;
     (ns, root) \<leftarrow> elv_rb_del rq (q_nodes q) (vd_sort_list (elevator_data q));
     Some (on_vr (\<lambda>vd. vd\<lparr>vd_sort_list := root\<rparr>) (q\<lparr>q_nodes := ns\<rparr>)) }"

definition vr_remove_request :: "addr \<Rightarrow> vr_queue \<Rightarrow> vr_queue option" where
  "vr_remove_request rq q = do {
     q \<leftarrow> rq_fifo_clear rq q;
     vr_del_rq_rb rq q }"

definition vr_move_request :: "addr \<Rightarrow> vr_queue \<Rightarrow> vr_queue option" where
  "vr_move_request rq q = do {
     r \<leftarrow> q_reqs q rq;
     let q = on_vr (\<lambda>vd. vd\<lparr>vd_head_dir := if blk_rq_pos r > vd_last_sector vd then FORWARD else BACKWARD\<rparr>) q;
     let q = on_vr (\<lambda>vd. vd\<lparr>vd_last_sector := blk_rq_pos r\<rparr>) q;
     n \<leftarrow> elv_rb_latter_request rq q;
     let q = on_vr (\<lambda>vd. vd\<lparr>vd_next_rq := n\<rparr>) q;
     p \<leftarrow> elv_rb_former_request rq q;
     let q = on_vr (\<lambda>vd. vd\<lparr>vd_prev_rq := p\<rparr>) q;
     _ \<leftarrow> vr_check_distinct q;
     q \<leftarrow> vr_remove_request rq q;
     q \<leftarrow> elv_dispatch_add_tail rq q;
     Some (on_vr (\<lambda>vd. vd\<lparr>vd_nbatched := vd_nbatched vd + 1\<rparr>) q) }"

text \<open>\<open>elv_rb_add\<close> on the tree of the scheduler.\<close>

definition vr_rb_add :: "addr \<Rightarrow> vr_queue \<Rightarrow> (addr \<times> vr_queue) option" where
  "vr_rb_add rq q = do {
     (alias, ns, root) \<leftarrow> elv_rb_add (q_reqs q) rq (q_nodes q) (vd_sort_list (elevator_data q));
     Some (alias, on_vr (\<lambda>vd. vd\<lparr>vd_sort_list := root\<rparr>) (q\<lparr>q_nodes := ns\<rparr>)) }"

text \<open>The cached neighbours of the head after \<open>rq\<close> has come into the tree.\<close>

definition vr_update_neighbours :: "addr \<Rightarrow> vr_queue \<Rightarrow> vr_queue option" where
  "vr_update_neighbours rq q = do {
     let vd = elevator_data q;
     r \<leftarrow> q_reqs q rq;
     if blk_rq_pos r \<ge> vd_last_sector vd then do {
       closer \<leftarrow> (if vd_next_rq vd = NULL then Some True
                 else do { n \<leftarrow> q_reqs q (vd_next_rq vd); Some (blk_rq_pos n > blk_rq_pos r) });
       Some (if closer then on_vr (\<lambda>vd. vd\<lparr>vd_next_rq := rq\<rparr>) q else q) }
     else do {
       closer \<leftarrow> (if vd_prev_rq vd = NULL then Some True
                 else do { p \<leftarrow> q_reqs q (vd_prev_rq vd); Some (blk_rq_pos p < blk_rq_pos r) });
       Some (if closer then on_vr (\<lambda>vd. vd\<lparr>vd_prev_rq := rq\<rparr>) q else q) } }"

definition vr_add_rq_rb :: "addr \<Rightarrow> vr_queue \<Rightarrow> vr_queue option" where
  "vr_add_rq_rb rq q = do {
     (alias, q) \<leftarrow> vr_rb_add rq q;
     q \<leftarrow> (if alias \<noteq> NULL then do {
            q \<leftarrow> vr_move_request alias q;
            (alias, q) \<leftarrow> vr_rb_add rq q;
            _ \<leftarrow> BUG_ON (alias \<noteq> NULL);
            Some q }
          else Some q);
     q \<leftarrow> vr_update_neighbours rq q;
     _ \<leftarrow> vr_check_distinct q;
     _ \<leftarrow> vr_check_order q;
     Some q }"

definition vr_add_request :: "addr \<Rightarrow> vr_queue \<Rightarrow> vr_queue option" where
  "vr_add_request rq q = do {
     r \<leftarrow> q_reqs q rq;
     let dir = rq_is_sync r;
     q \<leftarrow> vr_add_rq_rb rq q;
     let vd = elevator_data q;
     if vd_fifo_expire vd dir \<noteq> 0 then do {
       q \<leftarrow> rq_set_fifo_time rq (jiffies q + vd_fifo_expire vd dir) q;
       on_lists (list_add_tail rq (vd_fifo_list vd dir)) q }
     else Some q }"

definition vr_merged_request :: "addr \<Rightarrow> elv_merge_ret \<Rightarrow> vr_queue \<Rightarrow> vr_queue option" where
  "vr_merged_request req type' q =
     (if type' = ELEVATOR_FRONT_MERGE then do {
        q \<leftarrow> vr_del_rq_rb req q;
        vr_add_rq_rb req q }
      else Some q)"

definition vr_merged_requests :: "addr \<Rightarrow> addr \<Rightarrow> vr_queue \<Rightarrow> vr_queue option" where
  "vr_merged_requests rq next' q = do {
     q \<leftarrow> fifo_inherit rq next' q;
     vr_remove_request next' q }"

definition vr_expired_request :: "bool \<Rightarrow> vr_queue \<Rightarrow> addr option" where
  "vr_expired_request ddir q = do {
     let vd = elevator_data q;
     empty \<leftarrow> list_empty (vd_fifo_list vd ddir) (q_lists q);
     if empty then Some NULL
     else do {
       rq \<leftarrow> get_next (vd_fifo_list vd ddir) (q_lists q);
       r \<leftarrow> q_reqs q rq;
       Some (if time_after (jiffies q) (fifo_time r) then rq else NULL) } }"

definition vr_check_fifo :: "vr_queue \<Rightarrow> addr option" where
  "vr_check_fifo q = do {
     rq_sync \<leftarrow> vr_expired_request SYNC q;
     rq_async \<leftarrow> vr_expired_request ASYNC q;
     if rq_async \<noteq> NULL \<and> rq_sync \<noteq> NULL then do {
       a \<leftarrow> q_reqs q rq_async;
       s \<leftarrow> q_reqs q rq_sync;
       Some (if time_after (fifo_time a) (fifo_time s) then rq_sync else rq_async) }
     else Some (if rq_sync \<noteq> NULL then rq_sync else rq_async) }"

text \<open>
  \<open>do_div(n, base)\<close> sets \<open>n\<close> to the quotient and has the remainder as its value, so an assignment of
  the value to \<open>n\<close> itself keeps the remainder.
\<close>

definition INT_MAX :: u32 where "INT_MAX = 0x7fffffff"

definition do_div_value :: "u64 \<Rightarrow> u32 \<Rightarrow> u64" where
  "do_div_value n base = n mod ucast base"

definition vr_choose_request :: "vr_queue \<Rightarrow> addr option" where
  "vr_choose_request q = do {
     let vd = elevator_data q;
     let penalty = (if vd_rev_penalty vd \<noteq> 0 then vd_rev_penalty vd else INT_MAX);
     let nxt = vd_next_rq vd;
     let prv = vd_prev_rq vd;
     _ \<leftarrow> BUG_ON (prv \<noteq> NULL \<and> prv = nxt);
     if prv = NULL then Some nxt
     else if nxt = NULL then Some prv
     else do {
       n \<leftarrow> q_reqs q nxt;
       p \<leftarrow> q_reqs q prv;
       let next_pen = blk_rq_pos n - vd_last_sector vd;
       let prev_pen = vd_last_sector vd - blk_rq_pos p;
       let (next_pen, prev_pen) =
         (if vd_head_dir vd = FORWARD then (do_div_value next_pen penalty, prev_pen)
          else (next_pen, do_div_value prev_pen penalty));
       Some (if next_pen \<le> prev_pen then nxt else prv) } }"

definition vr_dispatch_requests :: "bool \<Rightarrow> vr_queue \<Rightarrow> (bool \<times> vr_queue) option" where
  "vr_dispatch_requests force q = do {
     (rq, q) \<leftarrow> (if vd_nbatched (elevator_data q) > vd_fifo_batch (elevator_data q) then do {
            let q = on_vr (\<lambda>vd. vd\<lparr>vd_nbatched := 0\<rparr>) q;
            rq \<leftarrow> vr_check_fifo q;
            Some (rq, q) }
          else Some (NULL, q));
     rq \<leftarrow> (if rq = NULL then vr_choose_request q else Some rq);
     if rq = NULL then Some (False, q)
     else do {
       q \<leftarrow> vr_move_request rq q;
       Some (True, q) } }"

definition vr_queue_empty :: "vr_queue \<Rightarrow> bool option" where
  "vr_queue_empty q = Some (RB_EMPTY_ROOT (vd_sort_list (elevator_data q)))"

definition vr_exit_queue :: "vr_queue \<Rightarrow> unit option" where
  "vr_exit_queue q = BUG_ON (\<not> RB_EMPTY_ROOT (vd_sort_list (elevator_data q)))"

text \<open>
  \<open>vd\<close> is what the allocator returns, zeroed; the array \<open>fifo_list\<close> comes after the root of the tree.
\<close>

definition vr_init_queue ::
  "addr \<Rightarrow> 'd request_queue \<Rightarrow> (vr_data option \<times> 'd request_queue) option" where
  "vr_init_queue vd q =
     (if vd = NULL then Some (None, q)
      else do {
        let fifo_list = (\<lambda>sync. if sync then vd + 12 else vd + 4);
        q \<leftarrow> on_lists (INIT_LIST_HEAD (fifo_list SYNC)) q;
        q \<leftarrow> on_lists (INIT_LIST_HEAD (fifo_list ASYNC)) q;
        Some (Some \<lparr>vd_sort_list = RB_ROOT, vd_fifo_list = fifo_list, vd_next_rq = NULL,
                vd_prev_rq = NULL, vd_nbatched = 0, vd_last_sector = 0, vd_head_dir = FORWARD,
                vd_fifo_expire = (\<lambda>sync. if sync then vr_sync_expire else vr_async_expire),
                vd_fifo_batch = vr_fifo_batch, vd_rev_penalty = vr_rev_penalty\<rparr>, q) })"

definition vr_merge :: "addr \<Rightarrow> vr_queue \<Rightarrow> (elv_merge_ret \<times> addr) option" where
  "vr_merge bio' q = do {
     b \<leftarrow> q_bios q bio';
     let sec = bi_sector b + ucast (bio_sectors b);
     rq \<leftarrow> elv_rb_find (q_reqs q) (q_nodes q) (vd_sort_list (elevator_data q)) sec;
     merge_ok \<leftarrow> (if rq \<noteq> NULL then elv_rq_merge_ok None rq bio' q else Some False);
     Some (if merge_ok then (ELEVATOR_FRONT_MERGE, rq) else (ELEVATOR_NO_MERGE, NULL)) }"

definition iosched_vr :: "vr_data elevator_ops" where
  "iosched_vr = \<lparr>elevator_merge_fn = Some vr_merge, elevator_merged_fn = Some vr_merged_request,
     elevator_merge_req_fn = Some vr_merged_requests, elevator_allow_merge_fn = None,
     elevator_dispatch_fn = vr_dispatch_requests, elevator_add_req_fn = vr_add_request,
     elevator_deactivate_req_fn = None, elevator_queue_empty_fn = Some vr_queue_empty,
     elevator_former_req_fn = Some elv_rb_former_request,
     elevator_latter_req_fn = Some elv_rb_latter_request,
     elevator_exit_fn = Some vr_exit_queue\<rparr>"

section \<open>The invariant\<close>

text \<open>
  Of the requests \<open>T\<close> in the tree, the cached next request is the first one at or after the head position
  and the cached previous request is the last one before it; \<open>NULL\<close> stands for no such request.
\<close>

definition next_ok :: "(addr \<Rightarrow> 'p::linorder) \<Rightarrow> addr set \<Rightarrow> 'p \<Rightarrow> addr \<Rightarrow> bool" where
  "next_ok f T s x \<longleftrightarrow> (if x = NULL then \<forall>y\<in>T. f y < s
     else x \<in> T \<and> s \<le> f x \<and> (\<forall>y\<in>T. s \<le> f y \<longrightarrow> f x \<le> f y))"

definition prev_ok :: "(addr \<Rightarrow> 'p::linorder) \<Rightarrow> addr set \<Rightarrow> 'p \<Rightarrow> addr \<Rightarrow> bool" where
  "prev_ok f T s x \<longleftrightarrow> (if x = NULL then \<forall>y\<in>T. s \<le> f y
     else x \<in> T \<and> f x < s \<and> (\<forall>y\<in>T. f y < s \<longrightarrow> f y \<le> f x))"

definition vr_near :: "vr_data \<Rightarrow> (addr \<rightharpoonup> request) \<Rightarrow> addr set \<Rightarrow> bool" where
  "vr_near d m T \<longleftrightarrow> next_ok (pos_of m) T (vd_last_sector d) (vd_next_rq d) \<and> prev_ok (pos_of m) T (vd_last_sector d) (vd_prev_rq d)"

definition vr_lists :: "vr_data \<Rightarrow> addr set \<Rightarrow> (addr \<Rightarrow> addr list) \<Rightarrow> addr set \<Rightarrow> bool" where
  "vr_lists d S w R \<longleftrightarrow> S = range (vd_fifo_list d) \<and> vd_fifo_list d SYNC \<noteq> vd_fifo_list d ASYNC \<and> (\<forall>a\<in>S. set (w a) \<subseteq> R)"

definition vr_tree :: "vr_data \<Rightarrow> rb_heap \<Rightarrow> (addr \<rightharpoonup> request) \<Rightarrow> addr list \<Rightarrow> bool" where
  "vr_tree d ns m t \<longleftrightarrow> tree_rep ns (vd_sort_list d) t \<and> pos_sorted m t"

definition vr_inv :: "vr_data sched_inv" where
  "vr_inv d ns m S w R \<longleftrightarrow> vr_lists d S w R \<and> (\<exists>t. vr_tree d ns m t \<and> set t = R) \<and> vr_near d m R"

lemma vr_near_cong:
  "vr_near d m T \<Longrightarrow> (\<And>x. x \<in> T \<Longrightarrow> pos_of m' x = pos_of m x) \<Longrightarrow> vr_near d m' T"
  unfolding vr_near_def next_ok_def prev_ok_def by (auto split: if_splits)

lemma vr_tree_keys: "vr_tree d ns m t \<Longrightarrow> same_keys (set t) m m' \<Longrightarrow> vr_tree d ns m' t"
  unfolding vr_tree_def using pos_sorted_keys by blast

lemma vr_frame:
  assumes i: "vr_inv d ns m S w R" and w: "\<And>a. a \<in> S \<Longrightarrow> w' a = w a" and k: "same_keys R m m'"
    and n: "\<And>x. x \<in> R \<Longrightarrow> ns' x = ns x"
  shows "vr_inv d ns' m' S w' R"
proof -
  from i obtain t where t: "tree_rep ns (vd_sort_list d) t" "pos_sorted m t" "set t = R" by (auto simp: vr_inv_def vr_tree_def)
  have "tree_rep ns' (vd_sort_list d) t" by (rule tree_rep_cong [OF t(1)]) (use n t(3) in auto)
  moreover have "pos_sorted m' t" by (rule pos_sorted_keys [OF t(2) k]) (simp add: t(3))
  moreover have "vr_near d m' R" using i vr_near_cong [of d m R m'] same_keys_pos [OF k] by (auto simp: vr_inv_def)
  ultimately show ?thesis using i w t(3) by (auto simp: vr_inv_def vr_tree_def vr_lists_def)
qed

lemma vr_listed: "vr_inv d ns m S w R \<Longrightarrow> a \<in> S \<Longrightarrow> set (w a) \<subseteq> R"
  by (auto simp: vr_inv_def vr_lists_def)

lemma vr_lists_wo: "vr_lists d S w R \<Longrightarrow> vr_lists d S (wo n w) (R - {n})"
  by (auto simp: vr_lists_def)

section \<open>The neighbours of the head\<close>

text \<open>
  How the neighbours change when a request leaves the tree, when the head moves to a request
  that leaves the tree, and when a request comes in.
\<close>

lemma next_ok_remove:
  assumes "next_ok f (set (xs @ n # ys)) s x" "sorted_wrt (\<lambda>x y. f x < f y) (xs @ n # ys)" "NULL \<notin> set (xs @ n # ys)"
  shows "next_ok f (set (xs @ ys)) s (if x = n then hd_ptr ys else x)"
proof (cases "x = n")
  case True
  have lt: "\<forall>x\<in>set xs. f x < f n" "\<forall>y\<in>set ys. f n < f y" using assms(2) by (auto simp: sorted_wrt_append)
  have n: "s \<le> f n" "\<forall>y\<in>set xs. s \<le> f y \<longrightarrow> f n \<le> f y" using assms(1,3) True by (auto simp: next_ok_def)
  with lt(1) have xs: "\<forall>x\<in>set xs. f x < s" by (meson leD leI)
  show ?thesis
  proof (cases ys)
    case (Cons y zs)
    have "s \<le> f y" using n(1) lt(2) Cons by auto
    moreover have "\<forall>z\<in>set zs. f y \<le> f z" using assms(2) Cons by (auto simp: sorted_wrt_append)
    ultimately show ?thesis using True Cons xs assms(3) by (auto simp: next_ok_def dest: leD)
  qed (use True xs in \<open>simp add: next_ok_def\<close>)
next
  case False
  then show ?thesis using assms(1) by (auto simp: next_ok_def split: if_splits)
qed

lemma prev_ok_remove:
  assumes "prev_ok f (set (xs @ n # ys)) s x" "sorted_wrt (\<lambda>x y. f x < f y) (xs @ n # ys)" "NULL \<notin> set (xs @ n # ys)"
  shows "prev_ok f (set (xs @ ys)) s (if x = n then hd_ptr (rev xs) else x)"
proof (cases "x = n")
  case True
  have lt: "\<forall>x\<in>set xs. f x < f n" "\<forall>y\<in>set ys. f n < f y" using assms(2) by (auto simp: sorted_wrt_append)
  have n: "f n < s" "\<forall>y\<in>set ys. f y < s \<longrightarrow> f y \<le> f n" using assms(1,3) True by (auto simp: prev_ok_def)
  with lt(2) have ys: "\<forall>y\<in>set ys. s \<le> f y" by (meson leD leI)
  show ?thesis
  proof (cases xs rule: rev_cases)
    case (snoc zs y)
    have "f y < s" using n(1) lt(1) snoc by auto
    moreover have "\<forall>z\<in>set zs. f z \<le> f y" using assms(2) snoc by (auto simp: sorted_wrt_append)
    ultimately show ?thesis using True snoc ys assms(3) by (auto simp: prev_ok_def dest: leD)
  qed (use True ys in \<open>simp add: prev_ok_def\<close>)
next
  case False
  then show ?thesis using assms(1) by (auto simp: prev_ok_def split: if_splits)
qed

lemma near_at:
  assumes "sorted_wrt (\<lambda>x y. f x < f y) (xs @ n # ys)" "NULL \<notin> set (xs @ n # ys)"
  shows "next_ok f (set (xs @ ys)) (f n) (hd_ptr ys)" "prev_ok f (set (xs @ ys)) (f n) (hd_ptr (rev xs))"
proof -
  show "next_ok f (set (xs @ ys)) (f n) (hd_ptr ys)"
    using assms by (cases ys) (auto simp: next_ok_def sorted_wrt_append less_imp_le dest: leD)
  show "prev_ok f (set (xs @ ys)) (f n) (hd_ptr (rev xs))"
    using assms by (cases xs rule: rev_cases) (auto simp: prev_ok_def sorted_wrt_append less_imp_le dest: leD)
qed

lemma next_ok_insert:
  assumes "next_ok f T s x" "n \<noteq> NULL"
  shows "next_ok f (insert n T) s (if s \<le> f n \<and> (x = NULL \<or> f n < f x) then n else x)"
  using assms by (auto simp: next_ok_def split: if_splits)

lemma prev_ok_insert:
  assumes "prev_ok f T s x" "n \<noteq> NULL"
  shows "prev_ok f (insert n T) s (if \<not> s \<le> f n \<and> (x = NULL \<or> f x < f n) then n else x)"
  using assms by (auto simp: prev_ok_def not_le split: if_splits)

lemma near_checks:
  assumes "next_ok f T s x" "prev_ok f T s y" "x \<noteq> NULL"
  shows "x \<noteq> y" "y \<noteq> NULL \<Longrightarrow> f y < f x"
  using assms by (auto simp: next_ok_def prev_ok_def split: if_splits)

section \<open>Removing and dispatching a request\<close>

definition vr_same :: "vr_queue \<Rightarrow> vr_queue \<Rightarrow> bool" where
  "vr_same q q' \<longleftrightarrow> vd_fifo_list (elevator_data q') = vd_fifo_list (elevator_data q) \<and> q_lists q' = q_lists q \<and>
     q_reqs q' = q_reqs q \<and> nr_sorted q' = nr_sorted q \<and> same_queue q q'"

lemma vr_checks_rep:
  assumes near: "vr_near (elevator_data q) m T"
    and pos: "\<forall>x\<in>T. \<exists>r. q_reqs q x = Some r \<and> blk_rq_pos r = pos_of m x"
  shows "vr_check_distinct q = Some ()" "vr_check_order q = Some ()"
proof -
  let ?d = "elevator_data q"
  have nx: "next_ok (pos_of m) T (vd_last_sector ?d) (vd_next_rq ?d)"
    and pv: "prev_ok (pos_of m) T (vd_last_sector ?d) (vd_prev_rq ?d)" using near by (auto simp: vr_near_def)
  show "vr_check_distinct q = Some ()"
    using near_checks(1) [OF nx pv] by (auto simp: vr_check_distinct_def BUG_ON_def Let_def)
  have "vd_next_rq ?d \<noteq> NULL \<Longrightarrow> vd_next_rq ?d \<in> T" "vd_prev_rq ?d \<noteq> NULL \<Longrightarrow> vd_prev_rq ?d \<in> T"
    using nx pv by (auto simp: next_ok_def prev_ok_def)
  note mem = this
  show "vr_check_order q = Some ()"
  proof (cases "vd_next_rq ?d \<noteq> NULL \<and> vd_prev_rq ?d \<noteq> NULL")
    case True
    with mem pos obtain n p where "q_reqs q (vd_next_rq ?d) = Some n" "q_reqs q (vd_prev_rq ?d) = Some p"
      "blk_rq_pos p < blk_rq_pos n" using near_checks(2) [OF nx pv] by metis
    then show ?thesis by (auto simp: vr_check_order_def BUG_ON_def Let_def)
  qed (auto simp: vr_check_order_def Let_def)
qed

definition vr_skip :: "addr \<Rightarrow> addr list \<Rightarrow> addr list \<Rightarrow> vr_data \<Rightarrow> vr_data" where
  "vr_skip n xs ys d = (if vd_next_rq d = n then d\<lparr>vd_next_rq := hd_ptr ys\<rparr>
     else if vd_prev_rq d = n then d\<lparr>vd_prev_rq := hd_ptr (rev xs)\<rparr> else d)"

lemma vr_near_skip:
  assumes near: "vr_near d m (set (xs @ n # ys))" and s: "pos_sorted m (xs @ n # ys)" and N: "NULL \<notin> set (xs @ n # ys)"
  shows "vr_near (vr_skip n xs ys d) m (set (xs @ ys))"
proof -
  have s': "sorted_wrt (\<lambda>x y. pos_of m x < pos_of m y) (xs @ n # ys)" using s by (simp add: pos_sorted_def)
  have nx: "next_ok (pos_of m) (set (xs @ n # ys)) (vd_last_sector d) (vd_next_rq d)"
    and pv: "prev_ok (pos_of m) (set (xs @ n # ys)) (vd_last_sector d) (vd_prev_rq d)" using near by (auto simp: vr_near_def)
  have "vd_next_rq d = n \<Longrightarrow> vd_prev_rq d \<noteq> n" using near_checks(1) [OF nx pv] N by auto
  with next_ok_remove [OF nx s' N] prev_ok_remove [OF pv s' N] show ?thesis
    by (auto simp: vr_near_def vr_skip_def split: if_splits)
qed

lemma vr_del_rq_rb_rep:
  assumes q: "queue_rep q X S w R" and tr: "tree_rep (q_nodes q) (vd_sort_list (elevator_data q)) (xs @ n # ys)"
    and near: "vr_near (vr_skip n xs ys (elevator_data q)) m (set (xs @ ys))"
    and pos: "\<forall>x\<in>set (xs @ ys). \<exists>r. q_reqs q x = Some r \<and> blk_rq_pos r = pos_of m x"
  shows "\<exists>q'. vr_del_rq_rb n q = Some q' \<and> queue_rep q' X S w R \<and>
    tree_rep (q_nodes q') (vd_sort_list (elevator_data q')) (xs @ ys) \<and>
    vr_near (elevator_data q') m (set (xs @ ys)) \<and> vr_same q q'"
proof -
  let ?d = "vr_skip n xs ys (elevator_data q)"
  let ?q = "q\<lparr>elevator_data := ?d\<rparr>"
  from elv_rb_del_rep [OF tr] obtain ns root where
    e: "elv_rb_del n (q_nodes q) (vd_sort_list (elevator_data q)) = Some (ns, root)" "tree_rep ns root (xs @ ys)"
      "unchanged (set (xs @ n # ys)) (q_nodes q) ns" "n \<in> dom ns" by blast
  let ?q' = "?q\<lparr>q_nodes := ns, elevator_data := ?d\<lparr>vd_sort_list := root\<rparr>\<rparr>"
  have sd: "vd_sort_list ?d = vd_sort_list (elevator_data q)" "vd_fifo_list ?d = vd_fifo_list (elevator_data q)"
    by (simp_all add: vr_skip_def)
  have c: "vr_check_distinct ?q = Some ()" "vr_check_order ?q = Some ()"
    using vr_checks_rep [of ?q m "set (xs @ ys)"] near pos by simp_all
  have step: "(if vd_next_rq (elevator_data q) = n then do {
            x \<leftarrow> elv_rb_latter_request n q; Some (on_vr (\<lambda>vd. vd\<lparr>vd_next_rq := x\<rparr>) q) }
          else if vd_prev_rq (elevator_data q) = n then do {
            x \<leftarrow> elv_rb_former_request n q; Some (on_vr (\<lambda>vd. vd\<lparr>vd_prev_rq := x\<rparr>) q) }
          else Some q) = Some ?q"
    using tree_rep_next [OF tr] tree_rep_prev [OF tr]
    by (simp add: vr_skip_def on_vr_def elv_rb_latter_request_def elv_rb_former_request_def)
  have "vr_del_rq_rb n q = Some ?q'"
    using c e(1) sd unfolding vr_del_rq_rb_def Let_def step by (simp add: on_vr_def)
  moreover have "x \<in> dom ns" if "x \<in> X" for x
    using that e(3,4) tree_rep_node [OF e(2), of x] queue_repD(3) [OF q]
    by (cases "x \<in> set (xs @ n # ys)") (auto simp: unchanged_def)
  then have "X \<subseteq> dom ns" by blast
  then have "queue_rep ?q' X S w R" using q unfolding queue_rep_def by simp
  ultimately show ?thesis using e(2) near sd by (intro exI [of _ ?q']) (simp add: vr_near_def vr_same_def)
qed

lemma vr_remove_rep:
  assumes q: "queue_rep q X S w R" and l: "vr_lists (elevator_data q) S w L"
    and t: "vr_tree (elevator_data q) (q_nodes q) (q_reqs q) (xs @ n # ys)" and nX: "n \<in> X"
    and near: "vr_near (vr_skip n xs ys (elevator_data q)) (q_reqs q) (set (xs @ ys))"
  shows "\<exists>q'. vr_remove_request n q = Some q' \<and> queue_rep q' X S (wo n w) R \<and>
    vr_lists (elevator_data q') S (wo n w) (L - {n}) \<and> vr_tree (elevator_data q') (q_nodes q') (q_reqs q') (xs @ ys) \<and>
    vr_near (elevator_data q') (q_reqs q') (set (xs @ ys)) \<and>
    nr_sorted q' = nr_sorted q \<and> same_queue q q' \<and> same_reqs (q_reqs q) (q_reqs q')"
proof -
  obtain r where r: "q_reqs q n = Some r" by (rule queue_rep_req [OF q nX])
  let ?m = "(q_reqs q)(n \<mapsto> r\<lparr>fifo_time := n + 8\<rparr>)"
  let ?q = "\<lambda>ml. q\<lparr>q_lists := ml, q_reqs := ?m\<rparr>"
  from rq_fifo_clear_rep [OF q nX r] obtain ml where
    ml: "rq_fifo_clear n q = Some (?q ml)" "queue_rep (?q ml) X S (wo n w) R" by blast
  have s: "same_reqs (q_reqs q) ?m" by (rule same_reqs_fifo_time) (rule r)
  have tr: "tree_rep (q_nodes (?q ml)) (vd_sort_list (elevator_data (?q ml))) (xs @ n # ys)"
    and ps: "pos_sorted (q_reqs q) (xs @ n # ys)" using t by (simp_all add: vr_tree_def)
  have near1: "vr_near (vr_skip n xs ys (elevator_data (?q ml))) ?m (set (xs @ ys))"
    using near unfolding vr_near_def same_reqs_pos [OF s] by simp
  have "set (xs @ ys) \<subseteq> dom ?m" using ps by (auto simp: pos_sorted_def)
  then have pos: "\<forall>x\<in>set (xs @ ys). \<exists>r. q_reqs (?q ml) x = Some r \<and> blk_rq_pos r = pos_of ?m x"
    by (fastforce simp: pos_of_def)
  from vr_del_rq_rb_rep [OF ml(2) tr near1 pos] obtain q' where
    q': "vr_del_rq_rb n (?q ml) = Some q'" "queue_rep q' X S (wo n w) R"
      "tree_rep (q_nodes q') (vd_sort_list (elevator_data q')) (xs @ ys)"
      "vr_near (elevator_data q') ?m (set (xs @ ys))" "vr_same (?q ml) q'" by blast
  from q'(5) have e: "q_reqs q' = ?m" "vd_fifo_list (elevator_data q') = vd_fifo_list (elevator_data q)"
    "nr_sorted q' = nr_sorted q" "same_queue q q'" by (simp_all add: vr_same_def)
  have "vr_remove_request n q = Some q'" using ml(1) q'(1) by (simp add: vr_remove_request_def)
  moreover have "pos_sorted ?m (xs @ ys)" using ps by (simp only: same_reqs_sorted [OF s]) simp
  moreover have "vr_lists (elevator_data q') S (wo n w) (L - {n})" using vr_lists_wo [OF l, of n] e(2) by (simp add: vr_lists_def)
  ultimately show ?thesis using q' e s by (intro exI [of _ q']) (simp add: vr_tree_def)
qed

lemma vr_move_rep:
  assumes q: "queue_rep q X S w R" and l: "vr_lists (elevator_data q) S w L"
    and t: "vr_tree (elevator_data q) (q_nodes q) (q_reqs q) t"
    and n: "n \<in> set t" "n \<in> X" "n \<notin> set (w (queue_head q))"
  shows "\<exists>q' w' t'. vr_move_request n q = Some q' \<and> queue_rep q' X S w' (R - {n}) \<and>
    vr_lists (elevator_data q') S w' (L - {n}) \<and> vr_tree (elevator_data q') (q_nodes q') (q_reqs q') t' \<and>
    set t' = set t - {n} \<and> vr_near (elevator_data q') (q_reqs q') (set t') \<and> moves q w {n} q' w'"
proof -
  let ?d = "elevator_data q"
  obtain xs ys where w: "t = xs @ n # ys" using n(1) by (meson split_list)
  obtain r where r: "q_reqs q n = Some r" by (rule queue_rep_req [OF q n(2)])
  have tr: "tree_rep (q_nodes q) (vd_sort_list ?d) (xs @ n # ys)" and ps: "pos_sorted (q_reqs q) (xs @ n # ys)"
    using t w by (simp_all add: vr_tree_def)
  have N: "NULL \<notin> set (xs @ n # ys)" "n \<notin> set xs" "n \<notin> set ys"
    using tree_rep_node [OF tr] tree_rep_distinct [OF tr] by auto
  let ?d1 = "?d\<lparr>vd_head_dir := if blk_rq_pos r > vd_last_sector ?d then FORWARD else BACKWARD,
    vd_last_sector := blk_rq_pos r, vd_next_rq := hd_ptr ys, vd_prev_rq := hd_ptr (rev xs)\<rparr>"
  let ?q = "q\<lparr>elevator_data := ?d1\<rparr>"
  have "pos_of (q_reqs q) n = blk_rq_pos r" using r by (simp add: pos_of_def)
  with near_at [of "pos_of (q_reqs q)" xs n ys] ps N(1)
  have near: "vr_near ?d1 (q_reqs q) (set (xs @ ys))" by (simp add: vr_near_def pos_sorted_def)
  have "hd_ptr ys \<noteq> n" using N by (cases ys) auto
  moreover have "hd_ptr (rev xs) \<noteq> n" using N by (cases xs rule: rev_cases) auto
  ultimately have skip: "vr_skip n xs ys ?d1 = ?d1" by (simp add: vr_skip_def)
  have q0: "queue_rep ?q X S w R" using q by simp
  have c: "vr_check_distinct ?q = Some ()"
    using near ps by (intro vr_checks_rep(1) [where m = "q_reqs q" and T = "set (xs @ ys)"])
      (auto simp: pos_sorted_def pos_of_def dom_def)
  have l0: "vr_lists (elevator_data ?q) S w L" using l by (simp add: vr_lists_def)
  have t0: "vr_tree (elevator_data ?q) (q_nodes ?q) (q_reqs ?q) (xs @ n # ys)" using tr ps by (simp add: vr_tree_def)
  have near0: "vr_near (vr_skip n xs ys (elevator_data ?q)) (q_reqs ?q) (set (xs @ ys))" using near skip by simp
  from vr_remove_rep [OF q0 l0 t0 n(2) near0] obtain q1 where
    q1: "vr_remove_request n ?q = Some q1" "queue_rep q1 X S (wo n w) R"
      "vr_lists (elevator_data q1) S (wo n w) (L - {n})" "vr_tree (elevator_data q1) (q_nodes q1) (q_reqs q1) (xs @ ys)"
      "vr_near (elevator_data q1) (q_reqs q1) (set (xs @ ys))"
      "nr_sorted q1 = nr_sorted q" "same_queue q q1" "same_reqs (q_reqs q) (q_reqs q1)" by auto
  have qh: "queue_head q1 = queue_head q" using q1(7) by (simp add: same_queue_def)
  have "n \<notin> listed (queue_head q1) S (wo n w)" by (simp add: listed_wo)
  from elv_dispatch_add_tail_rep [OF q1(2) n(2) this] obtain q2 where
    q2: "elv_dispatch_add_tail n q1 = Some q2"
      "queue_rep q2 X S ((wo n w)(queue_head q := wo n w (queue_head q) @ [n])) (R - {n})"
      "nr_sorted q2 = nr_sorted q1 - 1" "elevator_data q2 = elevator_data q1" "q_nodes q2 = q_nodes q1"
      "q_reqs q2 = q_reqs q1" "same_queue q1 q2" unfolding qh by blast
  let ?w = "(wo n w)(queue_head q := wo n w (queue_head q) @ [n])"
  let ?q' = "on_vr (\<lambda>vd. vd\<lparr>vd_nbatched := vd_nbatched vd + 1\<rparr>) q2"
  have "?w a = wo n w a" if "a \<in> S" for a using that lists_repD(2) [OF queue_repD(1) [OF q]] by auto
  then have "vr_lists (elevator_data ?q') S ?w (L - {n})" using q1(3) q2(4) by (simp add: vr_lists_def on_vr_def)
  moreover have "vr_move_request n q = Some ?q'"
    using r tree_rep_next [OF tr] tree_rep_prev [OF tr] c q1(1) q2(1)
    by (simp add: vr_move_request_def elv_rb_latter_request_def elv_rb_former_request_def on_vr_def Let_def)
  moreover have "moves q w {n} ?q' ?w"
    using q2 q1(6-8) n(3) same_queue_trans [OF q1(7) q2(7)] by (simp add: moves_def on_vr_def)
  moreover have "set (xs @ ys) = set t - {n}" using w N by auto
  ultimately show ?thesis using q2 q1(4,5)
    by (intro exI [of _ ?q'] exI [of _ ?w] exI [of _ "xs @ ys"]) (simp add: on_vr_def vr_tree_def vr_near_def)
qed

section \<open>Adding a request\<close>

lemma vr_rb_add_new:
  assumes q: "queue_rep q X S w R" and t: "vr_tree (elevator_data q) (q_nodes q) (q_reqs q) t"
    and near: "vr_near (elevator_data q) (q_reqs q) (set t)"
    and n: "n \<in> X" "q_reqs q n = Some r" and new: "\<forall>x\<in>set t. pos_of (q_reqs q) x \<noteq> blk_rq_pos r"
  shows "\<exists>q1 q' t'. vr_rb_add n q = Some (NULL, q1) \<and> vr_update_neighbours n q1 = Some q' \<and>
    vr_check_distinct q' = Some () \<and> vr_check_order q' = Some () \<and> queue_rep q' X S w R \<and>
    vr_tree (elevator_data q') (q_nodes q') (q_reqs q') t' \<and> set t' = insert n (set t) \<and>
    vr_near (elevator_data q') (q_reqs q') (set t') \<and> vr_same q q'"
proof -
  let ?d = "elevator_data q" and ?pos = "pos_of (q_reqs q)"
  have tr: "tree_rep (q_nodes q) (vd_sort_list ?d) t" "pos_sorted (q_reqs q) t" using t by (simp_all add: vr_tree_def)
  have nn: "n \<noteq> NULL" "aligned4 n" "n \<in> dom (q_nodes q)" using queue_repD(3,4,5) [OF q] n(1) by auto
  let ?xs = "filter (\<lambda>x. ?pos x < blk_rq_pos r) t @ n # filter (\<lambda>x. blk_rq_pos r < ?pos x) t"
  from elv_rb_add_new [OF tr n(2) new nn] obtain ns root where
    e: "elv_rb_add (q_reqs q) n (q_nodes q) (vd_sort_list ?d) = Some (NULL, ns, root)" "tree_rep ns root ?xs"
      "pos_sorted (q_reqs q) ?xs" "set ?xs = insert n (set t)" "unchanged (set ?xs) (q_nodes q) ns" by blast
  let ?q1 = "q\<lparr>q_nodes := ns, elevator_data := ?d\<lparr>vd_sort_list := root\<rparr>\<rparr>"
  have "vr_rb_add n q = Some (NULL, ?q1)" using e(1) by (simp add: vr_rb_add_def on_vr_def)
  moreover have pn: "?pos n = blk_rq_pos r" using n(2) by (simp add: pos_of_def)
  let ?s = "vd_last_sector ?d"
  let ?nx = "if ?s \<le> ?pos n \<and> (vd_next_rq ?d = NULL \<or> ?pos n < ?pos (vd_next_rq ?d)) then n else vd_next_rq ?d"
  let ?pv = "if \<not> ?s \<le> ?pos n \<and> (vd_prev_rq ?d = NULL \<or> ?pos (vd_prev_rq ?d) < ?pos n) then n else vd_prev_rq ?d"
  let ?q' = "?q1\<lparr>elevator_data := ?d\<lparr>vd_sort_list := root, vd_next_rq := ?nx, vd_prev_rq := ?pv\<rparr>\<rparr>"
  have nx: "next_ok ?pos (set t) ?s (vd_next_rq ?d)" and pv: "prev_ok ?pos (set t) ?s (vd_prev_rq ?d)"
    using near by (auto simp: vr_near_def)
  have rd: "x \<in> set t \<Longrightarrow> \<exists>r. q_reqs q x = Some r \<and> blk_rq_pos r = ?pos x" for x
    using tr(2) by (force simp: pos_sorted_def pos_of_def)
  have "vd_next_rq ?d \<noteq> NULL \<Longrightarrow> vd_next_rq ?d \<in> set t" "vd_prev_rq ?d \<noteq> NULL \<Longrightarrow> vd_prev_rq ?d \<in> set t"
    using nx pv by (auto simp: next_ok_def prev_ok_def)
  then have rn: "vd_next_rq ?d \<noteq> NULL \<Longrightarrow> \<exists>r. q_reqs q (vd_next_rq ?d) = Some r \<and> blk_rq_pos r = ?pos (vd_next_rq ?d)"
    and rp: "vd_prev_rq ?d \<noteq> NULL \<Longrightarrow> \<exists>r. q_reqs q (vd_prev_rq ?d) = Some r \<and> blk_rq_pos r = ?pos (vd_prev_rq ?d)"
    using rd by blast+
  have "vr_update_neighbours n ?q1 = Some ?q'"
  proof (cases "?s \<le> ?pos n")
    case True
    with rn n(2) pn show ?thesis
      by (cases "vd_next_rq ?d = NULL") (auto simp: vr_update_neighbours_def on_vr_def)
  next
    case False
    with rp n(2) pn show ?thesis
      by (cases "vd_prev_rq ?d = NULL") (auto simp: vr_update_neighbours_def on_vr_def)
  qed
  moreover have near': "vr_near (elevator_data ?q') (q_reqs ?q') (set ?xs)"
    using next_ok_insert [OF nx nn(1)] prev_ok_insert [OF pv nn(1)] unfolding e(4) by (simp add: vr_near_def)
  moreover have "\<forall>x\<in>set ?xs. \<exists>r. q_reqs ?q' x = Some r \<and> blk_rq_pos r = pos_of (q_reqs ?q') x"
    unfolding e(4) using n(2) rd pn by simp
  note vr_checks_rep [OF near' this]
  moreover have "x \<in> dom ns" if "x \<in> X" for x
    using that e(5) tree_rep_node [OF e(2), of x] queue_repD(3) [OF q]
    by (cases "x \<in> set ?xs") (auto simp: unchanged_def)
  then have "X \<subseteq> dom ns" by blast
  then have "queue_rep ?q' X S w R" using q unfolding queue_rep_def by simp
  moreover have "vr_tree (elevator_data ?q') (q_nodes ?q') (q_reqs ?q') ?xs" using e(2,3) by (simp add: vr_tree_def)
  moreover have "vr_same q ?q'" by (simp add: vr_same_def)
  ultimately show ?thesis using e(4) by (intro exI [of _ ?q1] exI [of _ ?q'] exI [of _ ?xs]) blast
qed

lemma vr_add_rq_rb_rep:
  assumes q: "queue_rep q X S w R" and l: "vr_lists (elevator_data q) S w L"
    and t: "vr_tree (elevator_data q) (q_nodes q) (q_reqs q) t" "set t \<subseteq> R - {n}"
    and near: "vr_near (elevator_data q) (q_reqs q) (set t)" and n: "n \<in> X"
  shows "\<exists>q' w' t' A. vr_add_rq_rb n q = Some q' \<and> A \<subseteq> set t \<and> queue_rep q' X S w' (R - A) \<and>
    vr_lists (elevator_data q') S w' (L - A) \<and> vr_tree (elevator_data q') (q_nodes q') (q_reqs q') t' \<and>
    set t' = insert n (set t - A) \<and> vr_near (elevator_data q') (q_reqs q') (set t') \<and> moves q w A q' w'"
proof -
  obtain r where r: "q_reqs q n = Some r" by (rule queue_rep_req [OF q n])
  show ?thesis
  proof (cases "\<exists>x\<in>set t. pos_of (q_reqs q) x = blk_rq_pos r")
    case False
    with vr_rb_add_new [OF q t(1) near n r] obtain q1 q' t' where
      q': "vr_rb_add n q = Some (NULL, q1)" "vr_update_neighbours n q1 = Some q'"
        "vr_check_distinct q' = Some ()" "vr_check_order q' = Some ()" "queue_rep q' X S w R"
        "vr_tree (elevator_data q') (q_nodes q') (q_reqs q') t'" "set t' = insert n (set t)"
        "vr_near (elevator_data q') (q_reqs q') (set t')" "vr_same q q'" by blast
    have "vr_add_rq_rb n q = Some q'" using q'(1-4) by (simp add: vr_add_rq_rb_def)
    moreover have "vr_lists (elevator_data q') S w L" "moves q w {} q' w"
      using l q'(9) by (simp_all add: vr_lists_def vr_same_def moves_def)
    ultimately show ?thesis using q'(5-8)
      by (intro exI [of _ q'] exI [of _ w] exI [of _ t'] exI [of _ "{}"]) simp
  next
    case True
    then obtain x where x: "x \<in> set t" "pos_of (q_reqs q) x = blk_rq_pos r" by blast
    have tr: "tree_rep (q_nodes q) (vd_sort_list (elevator_data q)) t" "pos_sorted (q_reqs q) t" using t by (simp_all add: vr_tree_def)
    have xX: "x \<in> X" "x \<notin> set (w (queue_head q))" "x \<noteq> NULL" using queue_repD(4,6,7) [OF q] x(1) t(2) by blast+
    from vr_move_rep [OF q l t(1) x(1) xX(1,2)] obtain q1 w1 t1 where
      m: "vr_move_request x q = Some q1" "queue_rep q1 X S w1 (R - {x})" "vr_lists (elevator_data q1) S w1 (L - {x})"
        "vr_tree (elevator_data q1) (q_nodes q1) (q_reqs q1) t1" "set t1 = set t - {x}"
        "vr_near (elevator_data q1) (q_reqs q1) (set t1)" "moves q w {x} q1 w1" by blast
    have s: "same_reqs (q_reqs q) (q_reqs q1)" using m(7) by (simp add: moves_def)
    obtain r1 where r1: "q_reqs q1 n = Some r1" "blk_rq_pos r1 = blk_rq_pos r" by (rule same_reqs_Some [OF s r])
    have new: "\<forall>y\<in>set t1. pos_of (q_reqs q1) y \<noteq> blk_rq_pos r1"
      using pos_sorted_inj [OF tr(2) x(1)] x(2) m(5) r1(2) same_reqs_pos [OF s] by auto
    from vr_rb_add_new [OF m(2,4,6) n r1(1) new] obtain q2 q' t' where
      q': "vr_rb_add n q1 = Some (NULL, q2)" "vr_update_neighbours n q2 = Some q'"
        "vr_check_distinct q' = Some ()" "vr_check_order q' = Some ()" "queue_rep q' X S w1 (R - {x})"
        "vr_tree (elevator_data q') (q_nodes q') (q_reqs q') t'" "set t' = insert n (set t1)"
        "vr_near (elevator_data q') (q_reqs q') (set t')" "vr_same q1 q'" by blast
    have "vr_rb_add n q = Some (x, q)"
      using elv_rb_add_alias [OF tr r x] by (simp add: vr_rb_add_def on_vr_def)
    then have "vr_add_rq_rb n q = Some q'" using m(1) q'(1-4) xX(3) by (simp add: vr_add_rq_rb_def)
    moreover have "vr_lists (elevator_data q') S w1 (L - {x})" using m(3) q'(9) by (simp add: vr_lists_def vr_same_def)
    moreover have "moves q w {x} q' w1" using m(7) q'(9) same_queue_trans by (auto simp: moves_def vr_same_def)
    ultimately show ?thesis using q'(5-8) x(1) m(5)
      by (intro exI [of _ q'] exI [of _ w1] exI [of _ t'] exI [of _ "{x}"]) simp
  qed
qed

lemma vr_add:
  assumes q: "queue_rep q X S w (insert n R)" and R: "finite R" "n \<notin> R"
    and i: "vr_inv (elevator_data q) (q_nodes q) (q_reqs q) S w R"
  shows "\<exists>q' w' A. elevator_add_req_fn iosched_vr n q = Some q' \<and> A \<subseteq> R \<and>
    held vr_inv q' X S w' (insert n (R - A)) \<and> moves q w A q' w'"
proof -
  from i obtain t where t: "vr_tree (elevator_data q) (q_nodes q) (q_reqs q) t" "set t = R"
    "vr_near (elevator_data q) (q_reqs q) (set t)" and l: "vr_lists (elevator_data q) S w R" by (auto simp: vr_inv_def)
  have nX: "n \<in> X" using queue_repD(6) [OF q] by auto
  obtain r where r: "q_reqs q n = Some r" by (rule queue_rep_req [OF q nX])
  have "set t \<subseteq> insert n R - {n}" using t(2) R(2) by auto
  from vr_add_rq_rb_rep [OF q l t(1) this t(3) nX, unfolded t(2)] obtain q1 w1 t1 A where
    q1: "vr_add_rq_rb n q = Some q1" "A \<subseteq> R" "queue_rep q1 X S w1 (insert n R - A)"
      "vr_lists (elevator_data q1) S w1 (R - A)" "vr_tree (elevator_data q1) (q_nodes q1) (q_reqs q1) t1"
      "set t1 = insert n (R - A)" "vr_near (elevator_data q1) (q_reqs q1) (set t1)" "moves q w A q1 w1" by blast
  have RA: "insert n R - A = insert n (R - A)" using q1(2) R(2) by auto
  have s: "same_reqs (q_reqs q) (q_reqs q1)" using q1(8) by (simp add: moves_def)
  obtain r1 where r1: "q_reqs q1 n = Some r1" by (rule same_reqs_Some [OF s r])
  let ?b = "rq_is_sync r" and ?d = "elevator_data q1"
  show ?thesis
  proof (cases "vd_fifo_expire ?d ?b = 0")
    case True
    then have "elevator_add_req_fn iosched_vr n q = Some q1"
      using r q1(1) by (simp add: iosched_vr_def vr_add_request_def Let_def)
    moreover have "vr_lists ?d S w1 (insert n (R - A))" using q1(4) by (auto simp: vr_lists_def)
    ultimately show ?thesis using q1 R(1) unfolding RA
      by (intro exI [of _ q1] exI [of _ w1] exI [of _ A]) (auto simp: held_def vr_inv_def)
  next
    case False
    let ?m = "(q_reqs q1)(n \<mapsto> r1\<lparr>fifo_time := jiffies q1 + vd_fifo_expire ?d ?b\<rparr>)"
    let ?a = "vd_fifo_list ?d ?b"
    have a: "?a \<in> S" using q1(4) by (auto simp: vr_lists_def)
    have "queue_head q1 = queue_head q" using q1(8) by (simp add: moves_def same_queue_def)
    then have aq: "?a \<noteq> queue_head q" using a lists_repD(2) [OF queue_repD(1) [OF q1(3)]] by auto
    have q2: "queue_rep (q1\<lparr>q_reqs := ?m\<rparr>) X S w1 (insert n (R - A))"
      using q1(3) r1(1) unfolding RA by (subst queue_rep_simps) auto
    have "n \<notin> listed (queue_head q1) S w1"
      using q1(4) queue_repD(7) [OF q2] R(2) by (auto simp: listed_def vr_lists_def)
    with queue_rep_add_tail [OF q2 a nX(1)] obtain ml where
      ml: "list_add_tail n ?a (q_lists q1) = Some ml"
        "queue_rep (q1\<lparr>q_reqs := ?m, q_lists := ml\<rparr>) X S (w1(?a := w1 ?a @ [n])) (insert n (R - A))" by auto
    have s1: "same_reqs (q_reqs q1) ?m" by (rule same_reqs_fifo_time) (rule r1)
    have "vr_inv ?d (q_nodes q1) ?m S (w1(?a := w1 ?a @ [n])) (insert n (R - A))"
      using q1(4-7) unfolding vr_inv_def vr_tree_def vr_near_def same_reqs_sorted [OF s1] same_reqs_pos [OF s1] q1(6)
      by (intro conjI exI [of _ t1]) (auto simp: vr_lists_def q1(6))
    moreover have "elevator_add_req_fn iosched_vr n q = Some (q1\<lparr>q_reqs := ?m, q_lists := ml\<rparr>)"
      using q1(1) r r1(1) ml(1) False
      by (simp add: iosched_vr_def vr_add_request_def rq_set_fifo_time_rep on_lists_def Let_def)
    moreover have "moves q w A (q1\<lparr>q_reqs := ?m, q_lists := ml\<rparr>) (w1(?a := w1 ?a @ [n]))"
      using q1(8) same_reqs_trans [OF s s1] aq by (simp add: moves_def)
    ultimately show ?thesis using ml(2) R(1) q1(2)
      by (intro exI [of _ "q1\<lparr>q_reqs := ?m, q_lists := ml\<rparr>"] exI [of _ "w1(?a := w1 ?a @ [n])"] exI [of _ A])
        (simp add: held_def)
  qed
qed

section \<open>Merging\<close>

lemma vr_heldD:
  assumes "held vr_inv q X S w R"
  obtains t where "queue_rep q X S w R" "finite R" "vr_tree (elevator_data q) (q_nodes q) (q_reqs q) t" "set t = R"
    "vr_near (elevator_data q) (q_reqs q) R" "vr_lists (elevator_data q) S w R" "NULL \<notin> R"
  using assms queue_repD(4,6) unfolding held_def vr_inv_def by blast

lemma vr_merged:
  assumes q: "queue_rep q X S w R" "finite R" and i: "vr_inv (elevator_data q) (q_nodes q) m S w R"
    and n: "n \<in> R" "m n = Some r" and k: "same_keys R (m(n \<mapsto> r\<lparr>sector := s\<rparr>)) (q_reqs q)"
    and ty: "type' = ELEVATOR_FRONT_MERGE \<or> s = sector r"
  shows "\<exists>q' w' A. (case elevator_merged_fn iosched_vr of Some f \<Rightarrow> f n type' q | None \<Rightarrow> Some q) = Some q' \<and>
    A \<subseteq> R - {n} \<and> held vr_inv q' X S w' (R - A) \<and> moves q w A q' w'"
proof (cases "type' = ELEVATOR_FRONT_MERGE")
  case False
  with ty n(2) have "m(n \<mapsto> r\<lparr>sector := s\<rparr>) = m" by (simp add: fun_upd_idem)
  with k have "same_keys R m (q_reqs q)" by simp
  from vr_frame [OF i _ this, of w "q_nodes q"] have "held vr_inv q X S w R" using q by (simp add: held_def)
  then show ?thesis using False
    by (intro exI [of _ q] exI [of _ w] exI [of _ "{}"]) (simp add: iosched_vr_def vr_merged_request_def moves_def)
next
  case True
  from i obtain t where t: "tree_rep (q_nodes q) (vd_sort_list (elevator_data q)) t" "pos_sorted m t" "set t = R"
    "vr_near (elevator_data q) m (set t)" and l: "vr_lists (elevator_data q) S w R" by (auto simp: vr_inv_def vr_tree_def)
  obtain xs ys where w: "t = xs @ n # ys" using n(1) t(3) by (meson split_list)
  have nX: "n \<in> X" using n(1) queue_repD(6) [OF q(1)] by auto
  have N: "NULL \<notin> set t" "set (xs @ ys) = R - {n}" using tree_rep_node [OF t(1)] tree_rep_distinct [OF t(1)] t(3) w by auto
  note k' = same_keys_upd [OF k]
  have pos: "\<forall>x\<in>set (xs @ ys). \<exists>r. q_reqs q x = Some r \<and> blk_rq_pos r = pos_of m x"
    unfolding N(2) using k' by (fastforce simp: same_keys_def same_key_def pos_of_def blk_rq_pos_def)
  from vr_del_rq_rb_rep [OF q(1) t(1) [unfolded w] vr_near_skip [OF t(4,2) [unfolded w] N(1) [unfolded w]] pos]
  obtain q1 where q1: "vr_del_rq_rb n q = Some q1" "queue_rep q1 X S w R"
      "tree_rep (q_nodes q1) (vd_sort_list (elevator_data q1)) (xs @ ys)"
      "vr_near (elevator_data q1) m (set (xs @ ys))" "vr_same q q1" by blast
  have e: "q_reqs q1 = q_reqs q" "vd_fifo_list (elevator_data q1) = vd_fifo_list (elevator_data q)"
    using q1(5) by (simp_all add: vr_same_def)
  have ps: "pos_sorted m (xs @ ys)" using t(2) w by simp
  have "pos_sorted (q_reqs q1) (xs @ ys)" unfolding e(1) by (rule pos_sorted_keys [OF ps k']) (simp only: N(2) subset_refl)
  then have t1: "vr_tree (elevator_data q1) (q_nodes q1) (q_reqs q1) (xs @ ys)" using q1(3) by (simp add: vr_tree_def)
  have near1: "vr_near (elevator_data q1) (q_reqs q1) (set (xs @ ys))"
    by (rule vr_near_cong [OF q1(4)]) (use same_keys_pos [OF k'] e(1) N(2) in auto)
  have l1: "vr_lists (elevator_data q1) S w R" using l e by (simp add: vr_lists_def)
  from vr_add_rq_rb_rep [OF q1(2) l1 t1 equalityD1 [OF N(2)] near1 nX, unfolded N(2)] obtain q' w' t' A where
    q': "vr_add_rq_rb n q1 = Some q'" "A \<subseteq> R - {n}" "queue_rep q' X S w' (R - A)"
      "vr_lists (elevator_data q') S w' (R - A)" "vr_tree (elevator_data q') (q_nodes q') (q_reqs q') t'"
      "set t' = insert n (R - {n} - A)" "vr_near (elevator_data q') (q_reqs q') (set t')" "moves q1 w A q' w'"
    by auto
  have "insert n (R - {n} - A) = R - A" using n(1) q'(2) by auto
  then have "held vr_inv q' X S w' (R - A)" using q' q(2) by (auto simp: held_def vr_inv_def)
  moreover have "moves q w A q' w'" using q'(8) q1(5) by (auto simp: moves_def vr_same_def same_queue_def)
  ultimately show ?thesis using True q1(1) q'(1,2)
    by (intro exI [of _ q'] exI [of _ w'] exI [of _ A]) (simp add: iosched_vr_def vr_merged_request_def)
qed

lemma vr_latter:
  assumes h: "held vr_inv q X S w R" and n: "n \<in> R"
  shows "\<exists>x. elv_latter_request iosched_vr n q = Some x \<and> (x = NULL \<or> x \<in> R \<and> x \<noteq> n)"
proof -
  obtain t where t: "vr_tree (elevator_data q) (q_nodes q) (q_reqs q) t" "set t = R" by (rule vr_heldD [OF h])
  then obtain xs ys where w: "t = xs @ n # ys" using n by (meson split_list)
  have tr: "tree_rep (q_nodes q) (vd_sort_list (elevator_data q)) (xs @ n # ys)" using t(1) w by (simp add: vr_tree_def)
  have "hd_ptr ys = NULL \<or> hd_ptr ys \<in> R \<and> hd_ptr ys \<noteq> n"
    using w t(2) tree_rep_distinct [OF tr] by (cases ys) auto
  then show ?thesis
    using tree_rep_next [OF tr] by (simp add: elv_latter_request_def iosched_vr_def elv_rb_latter_request_def)
qed

lemma vr_merge_req:
  assumes h: "held vr_inv q X S w R" and n: "n \<in> R" "n' \<in> R" "elv_latter_request iosched_vr n q = Some n'"
  shows "\<exists>q' w'. (case elevator_merge_req_fn iosched_vr of Some f \<Rightarrow> f n n' q | None \<Rightarrow> Some q) = Some q' \<and>
    queue_rep q' X S w' R \<and> vr_inv (elevator_data q') (q_nodes q') (q_reqs q') S w' (R - {n'}) \<and>
    w' (queue_head q) = w (queue_head q) \<and> moves q w {} q' w'"
proof -
  obtain t where q: "queue_rep q X S w R" and t: "vr_tree (elevator_data q) (q_nodes q) (q_reqs q) t" "set t = R"
    "vr_near (elevator_data q) (q_reqs q) R" and l: "vr_lists (elevator_data q) S w R" and N: "NULL \<notin> R" by (rule vr_heldD [OF h])
  note D = queue_repD [OF q]
  have nX: "n' \<in> X" using n D(6) by auto
  have ne: "n \<noteq> n'" using vr_latter [OF h n(1)] n(2,3) N by auto
  from fifo_inherit_rep [OF q n(1,2) ne] obtain q1 w1 where
    q1: "fifo_inherit n n' q = Some q1" "queue_rep q1 X S w1 R" "w1 = w \<or> w1 = inherit n n' w"
      "elevator_data q1 = elevator_data q" "q_nodes q1 = q_nodes q" "same_reqs (q_reqs q) (q_reqs q1)"
      "nr_sorted q1 = nr_sorted q" "same_queue q q1"
    by blast
  have l1: "vr_lists (elevator_data q1) S w1 R"
    using l q1(3,4) n(1) unfolding vr_lists_def by (fastforce simp: set_inherit [OF ne] split: if_splits)
  obtain xs ys where w: "t = xs @ n' # ys" using n(2) t(2) by (meson split_list)
  have t1: "vr_tree (elevator_data q1) (q_nodes q1) (q_reqs q1) (xs @ n' # ys)"
    using t(1) unfolding vr_tree_def w q1(4,5) same_reqs_sorted [OF q1(6)] .
  have near: "vr_near (elevator_data q1) (q_reqs q1) (set (xs @ n' # ys))"
    using t(2,3) unfolding vr_near_def same_reqs_pos [OF q1(6)] q1(4) w by simp
  have "vr_near (vr_skip n' xs ys (elevator_data q1)) (q_reqs q1) (set (xs @ ys))"
    by (rule vr_near_skip [OF near]) (use t1 N t(2) w in \<open>auto simp: vr_tree_def\<close>)
  from vr_remove_rep [OF q1(2) l1 t1 nX this] obtain q' where
    q': "vr_remove_request n' q1 = Some q'" "queue_rep q' X S (wo n' w1) R"
      "vr_lists (elevator_data q') S (wo n' w1) (R - {n'})" "vr_tree (elevator_data q') (q_nodes q') (q_reqs q') (xs @ ys)"
      "vr_near (elevator_data q') (q_reqs q') (set (xs @ ys))"
      "nr_sorted q' = nr_sorted q1" "same_queue q1 q'" "same_reqs (q_reqs q1) (q_reqs q')" by blast
  have "distinct t" using t(1) tree_rep_distinct by (auto simp: vr_tree_def)
  then have un: "set (xs @ ys) = R - {n'}" using t(2) w by auto
  have "n \<notin> set (w (queue_head q))" "n' \<notin> set (w (queue_head q))" using n D(7) by auto
  then have "wo n' w1 (queue_head q) = w (queue_head q)" using q1(3) by (auto simp: inherit_def)
  moreover have "same_queue q q'" "same_reqs (q_reqs q) (q_reqs q')"
    using same_queue_trans [OF q1(8) q'(7)] same_reqs_trans [OF q1(6) q'(8)] by auto
  moreover have "vr_inv (elevator_data q') (q_nodes q') (q_reqs q') S (wo n' w1) (R - {n'})"
    using q'(3-5) un unfolding vr_inv_def by auto
  ultimately show ?thesis using q' q1(1,7)
    by (intro exI [of _ q'] exI [of _ "wo n' w1"]) (simp add: iosched_vr_def vr_merged_requests_def moves_def)
qed

section \<open>Dispatching\<close>

lemma vr_like_held:
  assumes "held vr_inv q X S w R"
  shows "held vr_inv (on_vr (\<lambda>vd. vd\<lparr>vd_nbatched := k\<rparr>) q) X S w R"
  using assms unfolding held_def on_vr_def vr_inv_def vr_lists_def vr_tree_def vr_near_def by auto

lemma vr_expired_rep:
  assumes h: "held vr_inv q X S w R"
  shows "\<exists>x. vr_expired_request b q = Some x \<and> (x = NULL \<or> x \<in> R)"
proof -
  let ?a = "vd_fifo_list (elevator_data q) b"
  obtain t where q: "queue_rep q X S w R" and l: "vr_lists (elevator_data q) S w R" and N: "NULL \<notin> R"
    by (rule vr_heldD [OF h])
  note D = queue_repD [OF q]
  have a: "?a \<in> S" and sub: "set (w ?a) \<subseteq> R" using l by (auto simp: vr_lists_def)
  note e = lists_empty [OF D(1) insertI2 [OF a]] lists_first [OF D(1) insertI2 [OF a]]
  show ?thesis
  proof (cases "w ?a")
    case Nil
    then show ?thesis using e by (simp add: vr_expired_request_def)
  next
    case (Cons x xs)
    then have x: "x \<in> R" "x \<in> X" using sub D(6) by auto
    obtain r where "q_reqs q x = Some r" by (rule queue_rep_req [OF q x(2)])
    then show ?thesis using e Cons x(1) by (simp add: vr_expired_request_def)
  qed
qed

lemma vr_check_fifo_rep:
  assumes h: "held vr_inv q X S w R"
  shows "\<exists>x. vr_check_fifo q = Some x \<and> (x = NULL \<or> x \<in> R)"
proof -
  obtain t where q: "queue_rep q X S w R" by (rule vr_heldD [OF h])
  obtain s a where x: "vr_expired_request SYNC q = Some s" "s = NULL \<or> s \<in> R"
    "vr_expired_request ASYNC q = Some a" "a = NULL \<or> a \<in> R"
    using vr_expired_rep [OF h] by blast
  have "\<exists>r. q_reqs q y = Some r" if "y \<in> R" for y
    using that queue_repD(6) [OF q] queue_rep_req [OF q] by blast
  then obtain ra rs where "a \<in> R \<longrightarrow> q_reqs q a = Some ra" "s \<in> R \<longrightarrow> q_reqs q s = Some rs" by metis
  then show ?thesis using x by (auto simp: vr_check_fifo_def)
qed

lemma vr_choose_rep:
  assumes h: "held vr_inv q X S w R"
  shows "\<exists>x. vr_choose_request q = Some x \<and> (if R = {} then x = NULL else x \<in> R)"
proof -
  let ?d = "elevator_data q"
  obtain t where q: "queue_rep q X S w R" and near: "vr_near ?d (q_reqs q) R" and N: "NULL \<notin> R"
    by (rule vr_heldD [OF h])
  have req: "\<exists>r. q_reqs q y = Some r" if "y \<in> R" for y
    using that queue_repD(6) [OF q] queue_rep_req [OF q] by blast
  have nx: "vd_next_rq ?d = NULL \<or> vd_next_rq ?d \<in> R" and pv: "vd_prev_rq ?d = NULL \<or> vd_prev_rq ?d \<in> R"
    using near by (auto simp: vr_near_def next_ok_def prev_ok_def split: if_splits)
  have both: "vd_prev_rq ?d \<noteq> NULL \<longrightarrow> vd_prev_rq ?d \<noteq> vd_next_rq ?d"
    using near by (auto simp: vr_near_def next_ok_def prev_ok_def split: if_splits)
  have "R = {}" if "vd_next_rq ?d = NULL" "vd_prev_rq ?d = NULL"
  proof -
    have "\<forall>y\<in>R. False" using near that by (auto simp: vr_near_def next_ok_def prev_ok_def dest: leD)
    then show ?thesis by blast
  qed
  then consider (none) "R = {}" "vd_next_rq ?d = NULL" "vd_prev_rq ?d = NULL" | (one) "R \<noteq> {}" "vd_next_rq ?d = NULL \<or> vd_prev_rq ?d = NULL"
      "vd_next_rq ?d \<in> R \<or> vd_prev_rq ?d \<in> R"
    | (two) "vd_next_rq ?d \<in> R" "vd_prev_rq ?d \<in> R" using nx pv by blast
  then show ?thesis
  proof cases
    case two
    obtain rn rp where "q_reqs q (vd_next_rq ?d) = Some rn" "q_reqs q (vd_prev_rq ?d) = Some rp" using req two by meson
    then show ?thesis using two both N by (auto simp: vr_choose_request_def Let_def BUG_ON_def)
  qed (use N in \<open>auto simp: vr_choose_request_def Let_def BUG_ON_def\<close>)
qed

lemma vr_dispatch_none:
  assumes h: "held vr_inv q X S w {}"
  shows "\<exists>d'. elevator_dispatch_fn iosched_vr force q = Some (False, q\<lparr>elevator_data := d'\<rparr>) \<and>
    vr_inv d' (q_nodes q) (q_reqs q) S w {}"
proof -
  let ?q = "on_vr (\<lambda>vd. vd\<lparr>vd_nbatched := 0\<rparr>) q"
  note h' = vr_like_held [OF h, of 0]
  have c: "vr_check_fifo ?q = Some NULL" "vr_choose_request ?q = Some NULL" "vr_choose_request q = Some NULL"
    using vr_check_fifo_rep [OF h'] vr_choose_rep [OF h'] vr_choose_rep [OF h] by auto
  show ?thesis
  proof (cases "vd_nbatched (elevator_data q) > vd_fifo_batch (elevator_data q)")
    case True
    then show ?thesis using c h'
      by (intro exI [of _ "elevator_data ?q"])
        (simp add: iosched_vr_def vr_dispatch_requests_def held_def Let_def, simp add: on_vr_def)
  next
    case False
    then show ?thesis using c h
      by (intro exI [of _ "elevator_data q"]) (simp add: iosched_vr_def vr_dispatch_requests_def held_def Let_def)
  qed
qed

lemma vr_move_held:
  assumes h: "held vr_inv q X S w R" and n: "n \<in> R"
  shows "\<exists>q' w'. vr_move_request n q = Some q' \<and> held vr_inv q' X S w' (R - {n}) \<and> moves q w {n} q' w'"
proof -
  obtain t where q: "queue_rep q X S w R" "finite R" and t: "vr_tree (elevator_data q) (q_nodes q) (q_reqs q) t" "set t = R"
    and l: "vr_lists (elevator_data q) S w R" by (rule vr_heldD [OF h])
  have "n \<in> set t" "n \<in> X" "n \<notin> set (w (queue_head q))" using n t(2) queue_repD(6,7) [OF q(1)] by auto
  from vr_move_rep [OF q(1) l t(1) this] t(2) q(2) show ?thesis
    unfolding held_def vr_inv_def by (metis finite_Diff)
qed

lemma vr_dispatch_one:
  assumes h: "held vr_inv q X S w R" and R: "R \<noteq> {}"
  shows "\<exists>q' n w'. elevator_dispatch_fn iosched_vr force q = Some (True, q') \<and> n \<in> R \<and>
    held vr_inv q' X S w' (R - {n}) \<and> moves q w {n} q' w'"
proof -
  define q1 where "q1 = (if vd_nbatched (elevator_data q) > vd_fifo_batch (elevator_data q)
    then on_vr (\<lambda>vd. vd\<lparr>vd_nbatched := 0\<rparr>) q else q)"
  have h1: "held vr_inv q1 X S w R" using h vr_like_held [OF h] by (simp add: q1_def)
  have N: "NULL \<notin> R" by (rule vr_heldD [OF h])
  obtain x where x: "vr_check_fifo q1 = Some x" "x = NULL \<or> x \<in> R" using vr_check_fifo_rep [OF h1] by blast
  obtain y where y: "vr_choose_request q1 = Some y" "y \<in> R" using vr_choose_rep [OF h1] R by auto
  define n where "n = (if vd_nbatched (elevator_data q) > vd_fifo_batch (elevator_data q) \<and> x \<noteq> NULL then x else y)"
  have n: "n \<in> R" "n \<noteq> NULL" using x(2) y(2) N by (auto simp: n_def)
  obtain q' w' where m: "vr_move_request n q1 = Some q'" "held vr_inv q' X S w' (R - {n})" "moves q1 w {n} q' w'"
    using vr_move_held [OF h1 n(1)] by blast
  have "elevator_dispatch_fn iosched_vr force q = Some (True, q')"
    using x(1) y m(1) n N
    by (auto simp: iosched_vr_def vr_dispatch_requests_def q1_def n_def Let_def split: if_splits)
  moreover have "moves q w {n} q' w'" using m(3) by (simp add: q1_def moves_def same_queue_def on_vr_def split: if_splits)
  ultimately show ?thesis using n(1) m(2) by blast
qed

lemmas vr_hooks = iosched_vr_def elv_iosched_allow_merge_def elv_deactivate_rq_def

lemma vr_allow:
  "held vr_inv q X S w R \<Longrightarrow> n \<in> R \<Longrightarrow> \<exists>b. elv_iosched_allow_merge (elevator_allow_merge_fn iosched_vr) n bio' q = Some b"
  by (auto simp: vr_hooks)

lemma vr_merge_fn:
  assumes h: "held vr_inv q X S w R" and b: "bios_ok q R" "q_bios q bio' = Some b"
  shows "\<exists>ret x. (case elevator_merge_fn iosched_vr of Some f \<Rightarrow> f bio' q | None \<Rightarrow> Some (ELEVATOR_NO_MERGE, NULL)) = Some (ret, x) \<and>
    (ret = ELEVATOR_NO_MERGE \<or> ret = ELEVATOR_FRONT_MERGE \<and> x \<in> R \<and>
      elv_rq_merge_ok (elevator_allow_merge_fn iosched_vr) x bio' q = Some True \<and>
      pos_of (q_reqs q) x = bi_sector b + ucast (bio_sectors b))"
proof -
  let ?sec = "bi_sector b + ucast (bio_sectors b)"
  obtain t where t: "vr_tree (elevator_data q) (q_nodes q) (q_reqs q) t" "set t = R" by (rule vr_heldD [OF h])
  then have tr: "tree_rep (q_nodes q) (vd_sort_list (elevator_data q)) t" "pos_sorted (q_reqs q) t" "set t \<subseteq> R"
    by (simp_all add: vr_tree_def)
  have dom: "bio' \<in> dom (q_bios q)" using b(2) by blast
  from rb_find_merge [OF tr b(1) dom, of ?sec] obtain x where
    x: "elv_rb_find (q_reqs q) (q_nodes q) (vd_sort_list (elevator_data q)) ?sec = Some x"
      "x = NULL \<or> x \<in> R \<and> pos_of (q_reqs q) x = ?sec \<and> (\<exists>ok. elv_rq_merge_ok None x bio' q = Some ok)" by blast
  then show ?thesis using b(2) by (cases "x = NULL") (auto simp: iosched_vr_def vr_merge_def Let_def)
qed

lemma vr_deactivate:
  "held vr_inv q X S w R \<Longrightarrow> n \<in> X - R \<Longrightarrow> \<exists>q'. elv_deactivate_rq iosched_vr n q = Some q' \<and> held vr_inv q' X S w R \<and>
    nr_sorted q' = nr_sorted q \<and> same_queue q q' \<and> same_reqs (q_reqs q) (q_reqs q')"
  by (simp add: vr_hooks)

interpretation vr: elevator iosched_vr vr_inv
proof
  fix q X S w R
  assume h: "held vr_inv q X S w R"
  obtain t where "vr_tree (elevator_data q) (q_nodes q) (q_reqs q) t" "set t = R" by (rule vr_heldD [OF h])
  then show "(case elevator_queue_empty_fn iosched_vr of Some f \<Rightarrow> f q | None \<Rightarrow> Some True) = Some (R = {})"
    using tree_rep_root by (auto simp: iosched_vr_def vr_queue_empty_def vr_tree_def RB_EMPTY_ROOT_def)
next
  fix q X S w
  assume h: "held vr_inv q X S w {}"
  obtain t where "vr_tree (elevator_data q) (q_nodes q) (q_reqs q) t" "set t = {}" by (rule vr_heldD [OF h])
  then show "(case elevator_exit_fn iosched_vr of Some f \<Rightarrow> f q | None \<Rightarrow> Some ()) = Some ()"
    using tree_rep_root by (auto simp: iosched_vr_def vr_exit_queue_def vr_tree_def RB_EMPTY_ROOT_def BUG_ON_def)
qed (fact vr_allow vr_merge_fn vr_deactivate vr_frame vr_listed vr_dispatch_none vr_dispatch_one vr_latter |
    (erule vr_add vr_merged vr_merge_req; assumption))+

end
