(* ===== verification/Elevator_Init.thy ===== *)
theory Elevator_Init
  imports Iosched_Noop Iosched_Sio Iosched_Deadline Iosched_Vr
begin

text \<open>
  How a queue gets its scheduler: \<open>elevator_init\<close>, \<open>elevator_alloc\<close> and \<open>elevator_attach\<close> of \<open>block/elevator.c\<close>, over the
  initialisation routines of the schedulers.  The interface \<open>elevator_type\<close> adds to the interface of a scheduler what its
  initialisation promises.
\<close>

section \<open>Setting up a queue\<close>

definition ELV_HASH_ENTRIES :: u32 where
  "ELV_HASH_ENTRIES = push_bit elv_hash_shift 1"

text \<open>
  \<open>eq\<close> is what the first allocation returns and \<open>hash\<close> what the table of the second one happens to hold, \<open>None\<close> when there
  is no memory for it.
\<close>

partial_function (option) elevator_alloc_loop :: "u32 \<Rightarrow> hlist_mem \<Rightarrow> hlist_mem option" where
  "elevator_alloc_loop i m =
     (if i < ELV_HASH_ENTRIES then do {
        m \<leftarrow> INIT_HLIST_HEAD i m;
        elevator_alloc_loop (i + 1) m }
      else Some m)"

definition elevator_alloc :: "addr \<Rightarrow> (u32 \<Rightarrow> addr) option \<Rightarrow> hlist_mem \<Rightarrow> hlist_mem option option" where
  "elevator_alloc eq hash m =
     (if eq = NULL then Some None
      else case hash of
        None \<Rightarrow> Some None
      | Some table \<Rightarrow> do {
          m \<leftarrow> elevator_alloc_loop 0 (m\<lparr>firsts := \<lambda>i. if i < ELV_HASH_ENTRIES then table i else NULL\<rparr>);
          Some (Some m) })"

definition elevator_attach :: "hlist_mem \<Rightarrow> 'e \<Rightarrow> 'd request_queue \<Rightarrow> 'e request_queue" where
  "elevator_attach hash data q = \<lparr>q_lists = q_lists q, q_nodes = q_nodes q, q_hash = hash, q_reqs = q_reqs q,
     q_bios = q_bios q, jiffies = jiffies q, queue_head = queue_head q, last_merge = last_merge q,
     end_sector = end_sector q, boundary_rq = boundary_rq q, queue_flags = queue_flags q, nr_sorted = nr_sorted q,
     in_flight = in_flight q, rq_count = rq_count q, unplug_thresh = unplug_thresh q, ordcolor = ordcolor q,
     ordseq = ordseq q, pre_flush_rq = pre_flush_rq q, bar_rq = bar_rq q, post_flush_rq = post_flush_rq q,
     orig_bar_rq = orig_bar_rq q, elevator_data = data\<rparr>"

datatype elv_errno = EINVAL | ENOMEM

text \<open>
  Which scheduler \<open>elevator_init\<close> takes: the one the caller names, else the one of the boot command line, else the default
  of the configuration, else \<open>noop\<close>.  \<open>get\<close> is \<open>elevator_get\<close>, which may load a module.
\<close>

definition CONFIG_DEFAULT_IOSCHED :: string where "CONFIG_DEFAULT_IOSCHED = ''sio''"

definition elevator_choose :: "(string \<Rightarrow> 'e option) \<Rightarrow> string option \<Rightarrow> string \<Rightarrow> elv_errno + 'e option" where
  "elevator_choose get name chosen = (case name of
       Some n \<Rightarrow> (case get n of None \<Rightarrow> Inl EINVAL | Some e \<Rightarrow> Inr (Some e))
     | None \<Rightarrow>
        (let e = (if chosen \<noteq> [] then get chosen else None);
             e = (if e = None then get CONFIG_DEFAULT_IOSCHED else e);
             e = (if e = None then get ''noop'' else e)
         in Inr e))"

text \<open>A queue without a scheduler gets one; with an error it keeps what has been done to it until then.\<close>

definition elevator_init ::
  "(string \<Rightarrow> 'e option) \<Rightarrow> ('e \<Rightarrow> 'd request_queue \<Rightarrow> ('s option \<times> 'd request_queue) option) \<Rightarrow> addr \<Rightarrow> (u32 \<Rightarrow> addr) option \<Rightarrow>
     string option \<Rightarrow> string \<Rightarrow> 'd request_queue \<Rightarrow> ((elv_errno \<times> 'd request_queue) + 's request_queue) option" where
  "elevator_init get elevator_init_fn eq hash name chosen q = do {
     q \<leftarrow> on_lists (INIT_LIST_HEAD (queue_head q)) q;
     let q = q\<lparr>last_merge := NULL, end_sector := 0, boundary_rq := NULL\<rparr>;
     case elevator_choose get name chosen of
       Inl err \<Rightarrow> Some (Inl (err, q))
     | Inr None \<Rightarrow> None
     | Inr (Some e) \<Rightarrow> do {
         table \<leftarrow> elevator_alloc eq hash (q_hash q);
         case table of
           None \<Rightarrow> Some (Inl (ENOMEM, q))
         | Some table \<Rightarrow> do {
             (data, q) \<leftarrow> elevator_init_fn e q;
             case data of
               None \<Rightarrow> Some (Inl (ENOMEM, q))
             | Some d \<Rightarrow> Some (Inr (elevator_attach table d q)) } } }"

definition elevator_exit :: "'d elevator_ops \<Rightarrow> 'd request_queue \<Rightarrow> unit option" where
  "elevator_exit ops q = (case elevator_exit_fn ops of Some f \<Rightarrow> f q | None \<Rightarrow> Some ())"

section \<open>Empty queues\<close>

lemma elevator_alloc_loop_clears:
  "i \<le> 64 \<Longrightarrow> elevator_alloc_loop i m = Some (m\<lparr>firsts := \<lambda>j. if i \<le> j \<and> j < 64 then NULL else firsts m j\<rparr>)"
proof (induction "64 - unat i" arbitrary: i m)
  case 0
  then have "i = 64" by (simp add: word_le_nat_alt word_unat_eq_iff)
  moreover have "(\<lambda>j :: u32. if 64 \<le> j \<and> j < 64 then NULL else firsts m j) = firsts m" by (rule ext) auto
  ultimately show ?case by (subst elevator_alloc_loop.simps) (simp add: ELV_HASH_ENTRIES_def elv_hash_shift_def)
next
  case (Suc k)
  then have i: "i < 64" "unat i < 64" by (auto simp: word_le_nat_alt word_less_nat_alt word_unat_eq_iff)
  then have u: "unat (i + 1) = Suc (unat i)" by (simp add: unat_word_ariths)
  then have le: "i + 1 \<le> 64" "k = 64 - unat (i + 1)" using i Suc.hyps(2) by (simp_all add: word_le_nat_alt)
  have "(\<lambda>j. if i + 1 \<le> j \<and> j < 64 then NULL else ((firsts m)(i := NULL)) j) = (\<lambda>j. if i \<le> j \<and> j < 64 then NULL else firsts m j)"
    using i u by (auto simp: fun_eq_iff word_le_nat_alt word_less_nat_alt word_unat_eq_iff)
  then show ?case using Suc.hyps(1) [OF le(2,1)] i(1)
    by (subst elevator_alloc_loop.simps)
      (simp add: ELV_HASH_ENTRIES_def elv_hash_shift_def INIT_HLIST_HEAD_def write_ref_def del: fun_upd_apply cong: if_cong)
qed

lemma elevator_alloc_empty:
  "eq \<noteq> NULL \<Longrightarrow> elevator_alloc eq (Some table) m = Some (Some (m\<lparr>firsts := \<lambda>_. NULL\<rparr>))"
  by (simp add: elevator_alloc_def elevator_alloc_loop_clears ELV_HASH_ENTRIES_def elv_hash_shift_def cong: if_cong)

lemma rings_init:
  assumes r: "rings h H (\<lambda>_. [])" and n: "n \<in> dom h" "n \<notin> H"
  shows "\<exists>h'. INIT_LIST_HEAD n h = Some h' \<and> rings h' (insert n H) (\<lambda>_. []) \<and> dom h' = dom h"
proof -
  from INIT_LIST_HEAD_gives [OF n(1)] obtain h' where
    h': "INIT_LIST_HEAD n h = Some h'" "nexts h' = (nexts h)(n \<mapsto> n)" "prevs h' = (prevs h)(n \<mapsto> n)" by (auto simp: gives_def)
  have "n \<notin> nodes_of H (\<lambda>_. [])" using n(2) by (simp add: nodes_of_def)
  from rings_insert_head [OF r this h'(2,3)] have "rings h' (insert n H) (\<lambda>_. [])" by (simp add: fun_upd_def)
  moreover have "dom h' = dom h" using dom_nexts [of h'] dom_nexts [of h] h'(2) n(1) by auto
  ultimately show ?thesis using h'(1) by blast
qed

text \<open>
  A scheduler with its initialisation: \<open>heads d\<close> are the list heads in its private data \<open>d\<close>, and \<open>heads_at p\<close> those of the
  data allocated at \<open>p\<close>.
\<close>

locale elevator_type = elevator ops sinv for ops :: "'d elevator_ops" and sinv :: "'d sched_inv" +
  fixes init_fn :: "addr \<Rightarrow> 'x request_queue \<Rightarrow> ('d option \<times> 'x request_queue) option"
    and heads :: "'d \<Rightarrow> addr set" and heads_at :: "addr \<Rightarrow> addr set"
  assumes sinv_heads: "sinv d ns m S w R \<Longrightarrow> S = heads d"
    and init_none: "init_fn NULL q = Some (None, q)"
    and init_some: "p \<noteq> NULL \<Longrightarrow> rings (q_lists q) {queue_head q} (\<lambda>_. []) \<Longrightarrow> heads_at p \<subseteq> dom (q_lists q) \<Longrightarrow>
      queue_head q \<notin> heads_at p \<Longrightarrow>
      \<exists>d m. init_fn p q = Some (Some d, q\<lparr>q_lists := m\<rparr>) \<and> rings m (insert (queue_head q) (heads_at p)) (\<lambda>_. []) \<and>
        dom m = dom (q_lists q) \<and> sinv d ns reqs (heads_at p) (\<lambda>_. []) {}"
begin

lemma init_rep:
  assumes p: "p \<noteq> NULL" "heads_at p \<subseteq> dom (q_lists q)" "queue_head q \<notin> heads_at p" "queue_head q \<in> dom (q_lists q)"
    and q: "nr_sorted q = 0" and e: "elevator_choose get name chosen = Inr (Some e)" and eq: "eq \<noteq> NULL"
  shows "\<exists>q'. elevator_init get (\<lambda>_. init_fn p) eq (Some table) name chosen q = Some (Inr q') \<and> sched_rep sinv q' {} [] {} \<and>
    heads (elevator_data q') = heads_at p \<and> queue_head q' = queue_head q \<and> q_reqs q' = q_reqs q \<and> q_nodes q' = q_nodes q \<and>
    dom (hnodes (q_hash q')) = dom (hnodes (q_hash q)) \<and> dom (q_lists q') = dom (q_lists q) \<and> jiffies q' = jiffies q"
proof -
  have "rings (q_lists q) {} (\<lambda>_. [])" by (simp add: rings_def)
  from rings_init [OF this p(4)] obtain m where
    m: "INIT_LIST_HEAD (queue_head q) (q_lists q) = Some m" "rings m {queue_head q} (\<lambda>_. [])" "dom m = dom (q_lists q)" by auto
  let ?q = "q\<lparr>q_lists := m, last_merge := NULL, end_sector := 0, boundary_rq := NULL\<rparr>"
  from init_some [of p ?q "q_nodes q" "q_reqs q"] p m obtain d m' where
    d: "init_fn p ?q = Some (Some d, ?q\<lparr>q_lists := m'\<rparr>)" "rings m' (insert (queue_head q) (heads_at p)) (\<lambda>_. [])"
      "dom m' = dom (q_lists q)" "sinv d (q_nodes q) (q_reqs q) (heads_at p) (\<lambda>_. []) {}" by auto
  let ?q' = "elevator_attach (q_hash q\<lparr>firsts := \<lambda>_. NULL\<rparr>) d (?q\<lparr>q_lists := m'\<rparr>)"
  have "elevator_init get (\<lambda>_. init_fn p) eq (Some table) name chosen q = Some (Inr ?q')"
    using m(1) d(1) e eq by (simp add: elevator_init_def on_lists_def elevator_alloc_empty Let_def)
  moreover have "hash_rep (q_hash q\<lparr>firsts := \<lambda>_. NULL\<rparr>) (\<lambda>_. []) {}" by (simp add: hash_rep_def refs_simps)
  then have "held sinv ?q' {} (heads_at p) (\<lambda>_. []) {}"
    using d(2,4) p(3) by (auto simp: held_def queue_rep_def elevator_attach_def lists_rep_def listed_def)
  then have "sched_rep sinv ?q' {} [] {}" using q unfolding sched_rep_def by (auto simp: elevator_attach_def)
  ultimately show ?thesis using d(3) sinv_heads [OF d(4)]
    by (intro exI [of _ ?q']) (simp add: elevator_attach_def)
qed

lemma init_nomem:
  assumes q: "queue_head q \<in> dom (q_lists q)" and e: "elevator_choose get name chosen = Inr (Some e)"
    and p: "eq = NULL \<or> hash = None \<or> p = NULL"
  shows "\<exists>m. elevator_init get (\<lambda>_. init_fn p) eq hash name chosen q =
    Some (Inl (ENOMEM, q\<lparr>q_lists := m, last_merge := NULL, end_sector := 0, boundary_rq := NULL\<rparr>))"
proof (cases "eq = NULL \<or> hash = None")
  case True
  then show ?thesis using INIT_LIST_HEAD_gives [OF q] e
    by (auto simp: elevator_init_def on_lists_def gives_def elevator_alloc_def Let_def)
next
  case False
  then obtain table where "hash = Some table" "eq \<noteq> NULL" "p = NULL" using p by auto
  then show ?thesis using INIT_LIST_HEAD_gives [OF q] e init_none
    by (auto simp: elevator_init_def on_lists_def gives_def elevator_alloc_empty Let_def)
qed

end

lemma noop_init_some:
  assumes "p \<noteq> NULL" "rings (q_lists q) {queue_head q} (\<lambda>_. [])" "{p} \<subseteq> dom (q_lists q)" "queue_head q \<notin> {p}"
  shows "\<exists>d m. noop_init_queue p q = Some (Some d, q\<lparr>q_lists := m\<rparr>) \<and> rings m (insert (queue_head q) {p}) (\<lambda>_. []) \<and>
    dom m = dom (q_lists q) \<and> noop_inv d ns reqs {p} (\<lambda>_. []) {}"
  using rings_init [OF assms(2), of p] assms
  by (auto simp: noop_init_queue_def on_lists_def noop_inv_def insert_commute)

interpretation noop_type: elevator_type elevator_noop noop_inv noop_init_queue "\<lambda>d. {noop_queue d}" "\<lambda>p. {p}"
proof
  show "S = {noop_queue d}" if "noop_inv d ns m S w R" for d ns m S w R using that by (simp add: noop_inv_def)
  show "noop_init_queue NULL q = Some (None, q)" for q :: "'x request_queue" by (simp add: noop_init_queue_def)
qed (rule noop_init_some)

text \<open>Two list heads, one after the other.\<close>

lemma rings_init_two:
  assumes "rings h {qh} (\<lambda>_. [])" "{a, b} \<subseteq> dom h" "qh \<notin> {a, b}" "a \<noteq> b"
  shows "\<exists>h1 h2. INIT_LIST_HEAD a h = Some h1 \<and> INIT_LIST_HEAD b h1 = Some h2 \<and> rings h2 {qh, a, b} (\<lambda>_. []) \<and> dom h2 = dom h"
proof -
  from rings_init [OF assms(1), of a] assms obtain h1 where
    h1: "INIT_LIST_HEAD a h = Some h1" "rings h1 (insert a {qh}) (\<lambda>_. [])" "dom h1 = dom h" by auto
  from rings_init [OF h1(2), of b] assms h1(3) obtain h2 where
    h2: "INIT_LIST_HEAD b h1 = Some h2" "rings h2 (insert b (insert a {qh})) (\<lambda>_. [])" "dom h2 = dom h" by auto
  have "insert b (insert a {qh}) = {qh, a, b}" by auto
  then show ?thesis using h1(1) h2 by auto
qed

lemma sio_init_some:
  assumes "p \<noteq> NULL" "rings (q_lists q) {queue_head q} (\<lambda>_. [])" "{p, p + 8} \<subseteq> dom (q_lists q)" "queue_head q \<notin> {p, p + 8}"
  shows "\<exists>d m. sio_init_queue p q = Some (Some d, q\<lparr>q_lists := m\<rparr>) \<and> rings m (insert (queue_head q) {p, p + 8}) (\<lambda>_. []) \<and>
    dom m = dom (q_lists q) \<and> sio_inv d ns reqs {p, p + 8} (\<lambda>_. []) {}"
proof -
  from rings_init_two [OF assms(2), of "p + 8" p] assms(3,4) obtain h1 h2 where
    "INIT_LIST_HEAD (p + 8) (q_lists q) = Some h1" "INIT_LIST_HEAD p h1 = Some h2" "rings h2 {queue_head q, p + 8, p} (\<lambda>_. [])" "dom h2 = dom (q_lists q)" by auto
  then show ?thesis using assms(1)
    by (auto simp: sio_init_queue_def on_lists_def sio_inv_def insert_commute Let_def UNIV_bool)
qed

lemma deadline_init_some:
  assumes "p \<noteq> NULL" "rings (q_lists q) {queue_head q} (\<lambda>_. [])" "{p + 8, p + 16} \<subseteq> dom (q_lists q)" "queue_head q \<notin> {p + 8, p + 16}"
  shows "\<exists>d m. deadline_init_queue p q = Some (Some d, q\<lparr>q_lists := m\<rparr>) \<and> rings m (insert (queue_head q) {p + 8, p + 16}) (\<lambda>_. []) \<and>
    dom m = dom (q_lists q) \<and> deadline_inv d ns reqs {p + 8, p + 16} (\<lambda>_. []) {}"
proof -
  from rings_init_two [OF assms(2), of "p + 8" "p + 16"] assms(3,4) obtain h1 h2 where
    "INIT_LIST_HEAD (p + 8) (q_lists q) = Some h1" "INIT_LIST_HEAD (p + 16) h1 = Some h2" "rings h2 {queue_head q, p + 8, p + 16} (\<lambda>_. [])" "dom h2 = dom (q_lists q)" by auto
  then show ?thesis using assms(1)
    by (auto simp: deadline_init_queue_def on_lists_def deadline_inv_def deadline_lists_def deadline_trees_def pos_sorted_def
        insert_commute Let_def UNIV_bool RB_ROOT_def tree_rep_empty intro!: exI [of _ "\<lambda>_. []"])
qed

lemma vr_init_some:
  assumes "p \<noteq> NULL" "rings (q_lists q) {queue_head q} (\<lambda>_. [])" "{p + 4, p + 12} \<subseteq> dom (q_lists q)" "queue_head q \<notin> {p + 4, p + 12}"
  shows "\<exists>d m. vr_init_queue p q = Some (Some d, q\<lparr>q_lists := m\<rparr>) \<and> rings m (insert (queue_head q) {p + 4, p + 12}) (\<lambda>_. []) \<and>
    dom m = dom (q_lists q) \<and> vr_inv d ns reqs {p + 4, p + 12} (\<lambda>_. []) {}"
proof -
  from rings_init_two [OF assms(2), of "p + 12" "p + 4"] assms(3,4) obtain h1 h2 where
    "INIT_LIST_HEAD (p + 12) (q_lists q) = Some h1" "INIT_LIST_HEAD (p + 4) h1 = Some h2" "rings h2 {queue_head q, p + 12, p + 4} (\<lambda>_. [])" "dom h2 = dom (q_lists q)" by auto
  then show ?thesis using assms(1)
    by (auto simp: vr_init_queue_def on_lists_def vr_inv_def vr_lists_def vr_tree_def vr_near_def next_ok_def prev_ok_def
        pos_sorted_def insert_commute Let_def UNIV_bool RB_ROOT_def tree_rep_empty)
qed

interpretation sio_type: elevator_type iosched_sio sio_inv sio_init_queue "\<lambda>d. range (sd_fifo_list d)" "\<lambda>p. {p, p + 8}"
proof
  show "S = range (sd_fifo_list d)" if "sio_inv d ns m S w R" for d ns m S w R using that by (simp add: sio_inv_def)
  show "sio_init_queue NULL q = Some (None, q)" for q :: "'x request_queue" by (simp add: sio_init_queue_def)
qed (rule sio_init_some)

interpretation deadline_type: elevator_type iosched_deadline deadline_inv deadline_init_queue "\<lambda>d. range (dd_fifo_list d)" "\<lambda>p. {p + 8, p + 16}"
proof
  show "S = range (dd_fifo_list d)" if "deadline_inv d ns m S w R" for d ns m S w R
    using that by (simp add: deadline_inv_def deadline_lists_def)
  show "deadline_init_queue NULL q = Some (None, q)" for q :: "'x request_queue" by (simp add: deadline_init_queue_def)
qed (rule deadline_init_some)

interpretation vr_type: elevator_type iosched_vr vr_inv vr_init_queue "\<lambda>d. range (vd_fifo_list d)" "\<lambda>p. {p + 4, p + 12}"
proof
  show "S = range (vd_fifo_list d)" if "vr_inv d ns m S w R" for d ns m S w R using that by (simp add: vr_inv_def vr_lists_def)
  show "vr_init_queue NULL q = Some (None, q)" for q :: "'x request_queue" by (simp add: vr_init_queue_def)
qed (rule vr_init_some)

end
