(* ===== verification/Elevator_Life.thy ===== *)
theory Elevator_Life
  imports Elevator_Init
begin

text \<open>
  The life of the requests of a queue: every sequence of operations of the block layer on a queue that
  \<open>elevator_init\<close> has set up keeps the queue well formed and faults nowhere, with each of the four schedulers.
\<close>

section \<open>A new request\<close>

lemma lists_rep_new:
  assumes l: "lists_rep m qh X S w" and n: "n \<notin> X" "n \<notin> S" "n \<noteq> qh" "n \<in> dom m"
  shows "\<exists>m'. INIT_LIST_HEAD n m = Some m' \<and> lists_rep m' qh (insert n X) S (w(n := []))"
proof -
  let ?H = "insert qh (S \<union> (X - listed qh S w))"
  from l have L: "rings m ?H w" "listed qh S w \<subseteq> X" "\<forall>x\<in>X. w x = []" "qh \<notin> S \<union> X" "S \<inter> X = {}" by (auto simp: lists_rep_def)
  from INIT_LIST_HEAD_gives [OF n(4)] obtain m' where
    m': "INIT_LIST_HEAD n m = Some m'" "nexts m' = (nexts m)(n \<mapsto> n)" "prevs m' = (prevs m)(n \<mapsto> n)" by (auto simp: gives_def)
  have "nodes_of ?H w \<subseteq> insert qh (S \<union> X)" using L(2,3) unfolding nodes_of_def listed_def by auto
  then have "n \<notin> nodes_of ?H w" using n by auto
  from rings_insert_head [OF L(1) this m'(2,3)] have r: "rings m' (insert n ?H) (w(n := []))" .
  have "listed qh S (w(n := [])) = listed qh S w" using n(2,3) by (auto simp: listed_def split: if_splits)
  moreover have "insert qh (S \<union> (insert n X - listed qh S w)) = insert n ?H" using L(2) n(1) by auto
  ultimately have "lists_rep m' qh (insert n X) S (w(n := []))" using r L n unfolding lists_rep_def by auto
  with m'(1) show ?thesis by blast
qed

lemma hash_rep_new:
  assumes h: "hash_rep m B X" and n: "n \<notin> X" "n \<noteq> NULL" "n \<in> dom (hnodes m)"
  shows "\<exists>m'. INIT_HLIST_NODE n m = Some m' \<and> hash_rep m' B (insert n X)"
proof -
  from INIT_HLIST_NODE_gives [OF n(3)] obtain m' where
    m': "INIT_HLIST_NODE n m = Some m'" "refs m' = (refs m)(HNext n \<mapsto> NULL)" "pprevs m' = (pprevs m)(n \<mapsto> HNull)"
      "dom (hnodes m') = dom (hnodes m)" by (auto simp: hgives_def)
  have c: "hchain (refs m') (pprevs m') (HFirst i) (B i)" for i
  proof -
    have "n \<notin> set (B i)" using h n(1) by (auto simp: hash_rep_def)
    then have "hchain (refs m') (pprevs m') (HFirst i) (B i) = hchain (refs m) (pprevs m) (HFirst i) (B i)"
      by (intro hchain_cong) (auto simp: m')
    then show ?thesis using h by (simp add: hash_rep_def)
  qed
  have p: "x \<noteq> NULL \<and> x \<in> dom (hnodes m') \<and> ((\<exists>i. x \<in> set (B i)) \<or> pprevs m' x = Some HNull)" if "x \<in> insert n X" for x
  proof (cases "x = n")
    case True
    then show ?thesis using n m' by simp
  next
    case False
    then have "x \<in> X" "pprevs m' x = pprevs m x" using that m'(3) by auto
    then show ?thesis using h m'(4) unfolding hash_rep_def by simp
  qed
  have "hash_rep m' B (insert n X)"
    unfolding hash_rep_def
  proof (intro conjI)
    show "\<forall>i. hchain (refs m') (pprevs m') (HFirst i) (B i) \<and> distinct (B i)" using c hash_repD(2) [OF h] by simp
    show "\<forall>i j. i \<noteq> j \<longrightarrow> set (B i) \<inter> set (B j) = {}" using h by (simp add: hash_rep_def)
    show "\<forall>i. set (B i) \<subseteq> insert n X" using hash_repD(3) [OF h] by blast
    show "\<forall>x\<in>insert n X. x \<noteq> NULL \<and> x \<in> dom (hnodes m') \<and> ((\<exists>i. x \<in> set (B i)) \<or> pprevs m' x = Some HNull)"
      using p by (rule ballI)
  qed
  with m'(1) show ?thesis by blast
qed

text \<open>A place for a request: memory that is neither a known request nor a list head.\<close>

definition new_place :: "'d request_queue \<Rightarrow> addr set \<Rightarrow> addr set \<Rightarrow> addr \<Rightarrow> bool" where
  "new_place q X S n \<longleftrightarrow> n \<notin> X \<and> n \<notin> S \<and> n \<noteq> queue_head q \<and> n \<noteq> NULL \<and> aligned4 n \<and> n \<in> dom (q_lists q) \<and>
     n \<in> dom (q_reqs q) \<and> n \<in> dom (q_nodes q) \<and> n \<in> dom (hnodes (q_hash q))"

lemma blk_rq_init_rep:
  assumes q: "queue_rep q X S w R" and n: "new_place q X S n"
  shows "\<exists>m r h nd. blk_rq_init n q = Some (q\<lparr>q_lists := m, q_reqs := (q_reqs q)(n \<mapsto> r), q_hash := h, q_nodes := (q_nodes q)(n \<mapsto> nd)\<rparr>) \<and>
    queue_rep (q\<lparr>q_lists := m, q_reqs := (q_reqs q)(n \<mapsto> r), q_hash := h, q_nodes := (q_nodes q)(n \<mapsto> nd)\<rparr>) (insert n X) S (w(n := [])) R"
proof -
  note Q = q [unfolded queue_rep_def] and N = n [unfolded new_place_def]
  from lists_rep_new [of "q_lists q" "queue_head q" X S w n] Q N obtain m where
    m: "INIT_LIST_HEAD n (q_lists q) = Some m" "lists_rep m (queue_head q) (insert n X) S (w(n := []))" by auto
  from Q obtain B where B: "hash_rep (q_hash q) B X" "\<forall>i. set (B i) \<subseteq> R" by blast
  from hash_rep_new [OF B(1), of n] N obtain h where h: "INIT_HLIST_NODE n (q_hash q) = Some h" "hash_rep h B (insert n X)" by auto
  from N obtain nd0 where nd: "q_nodes q n = Some nd0" by auto
  from N obtain r0 where r0: "q_reqs q n = Some r0" by auto
  let ?r = "\<lparr>cmd_flags = 0, cmd_type = 0, data_len = 0, sector = - 1, rq_bio = NULL, rq_disk = NULL, special = NULL, fifo_time = 0\<rparr>"
  let ?q = "q\<lparr>q_lists := m, q_reqs := (q_reqs q)(n \<mapsto> ?r), q_hash := h, q_nodes := (q_nodes q)(n \<mapsto> rb_set_parent n nd0)\<rparr>"
  have "blk_rq_init n q = Some ?q"
    using m(1) h(1) nd r0 by (simp add: blk_rq_init_def on_req_def on_lists_def on_hash_def RB_CLEAR_NODE_def write_at_Some)
  moreover have "queue_rep ?q (insert n X) S (w(n := [])) R"
    unfolding queue_rep_def
  proof (intro conjI)
    show "R \<subseteq> insert n X - set ((w(n := [])) (queue_head ?q))" using Q N by auto
    show "\<exists>B. hash_rep (q_hash ?q) B (insert n X) \<and> (\<forall>i. set (B i) \<subseteq> R)" using h(2) B(2) by auto
  qed (use m(2) Q N in auto)
  ultimately show ?thesis by blast
qed

context elevator_type
begin

lemma alloc_request:
  assumes s: "sched_rep sinv q X D R" and n: "new_place q X (heads (elevator_data q)) n"
  shows "\<exists>q'. blk_rq_init n q = Some q' \<and> sched_rep sinv q' (insert n X) D R"
proof -
  obtain S w where h: "held sinv q X S w R" "w (queue_head q) = D" "nr_sorted q = of_nat (card R)" "queue_rep q X S w R"
    "R \<subseteq> X" by (rule sched_repE [OF s])
  have i: "sinv (elevator_data q) (q_nodes q) (q_reqs q) S w R" "finite R" using h(1) by (simp_all add: held_def)
  then have S: "S = heads (elevator_data q)" using sinv_heads by blast
  have N: "n \<notin> R" "n \<notin> S" "n \<noteq> queue_head q" using n h(5) S by (auto simp: new_place_def)
  from blk_rq_init_rep [OF h(4) n [folded S]] obtain m r hs nd where
    r: "blk_rq_init n q = Some (q\<lparr>q_lists := m, q_reqs := (q_reqs q)(n \<mapsto> r), q_hash := hs, q_nodes := (q_nodes q)(n \<mapsto> nd)\<rparr>)"
      "queue_rep (q\<lparr>q_lists := m, q_reqs := (q_reqs q)(n \<mapsto> r), q_hash := hs, q_nodes := (q_nodes q)(n \<mapsto> nd)\<rparr>) (insert n X) S (w(n := [])) R"
    by blast
  have "R \<subseteq> dom (q_reqs q)" using h(4,5) queue_repD(2) by blast
  then have "same_keys R (q_reqs q) ((q_reqs q)(n \<mapsto> r))" using N(1) by (intro same_keys_eq) auto
  then have "sinv (elevator_data q) ((q_nodes q)(n \<mapsto> nd)) ((q_reqs q)(n \<mapsto> r)) S (w(n := [])) R"
    using N by (intro sinv_frame [OF i(1)]) auto
  then have "held sinv (q\<lparr>q_lists := m, q_reqs := (q_reqs q)(n \<mapsto> r), q_hash := hs, q_nodes := (q_nodes q)(n \<mapsto> nd)\<rparr>) (insert n X) S (w(n := [])) R"
    using r(2) i(2) by (simp add: held_def)
  then show ?thesis using r(1) h(2,3) N(3) unfolding sched_rep_def
    by (intro exI [of _ "q\<lparr>q_lists := m, q_reqs := (q_reqs q)(n \<mapsto> r), q_hash := hs, q_nodes := (q_nodes q)(n \<mapsto> nd)\<rparr>"] conjI exI [of _ S] exI [of _ "w(n := [])"])
      simp_all
qed

end

section \<open>The life of a request\<close>

text \<open>
  What the block layer does with its requests, one operation at a time: a request is taken from the pool and set up, comes
  into the queue, is moved to the dispatch queue by the scheduler, fetched by the driver, and is given back or completed.
  Besides the queue, a state has the known requests, those that are set up but not queued, and those the driver has.
  The driver's strategy routine wakes a thread, which fetches the requests later.
\<close>

record 'd life =
  lq :: "'d request_queue"
  known :: "addr set"
  free :: "addr set"
  flying :: "addr set"

inductive elv_step :: "'d elevator_ops \<Rightarrow> ('d \<Rightarrow> addr set) \<Rightarrow> 'd life \<Rightarrow> 'd life \<Rightarrow> bool"
  for ops :: "'d elevator_ops" and heads :: "'d \<Rightarrow> addr set" where
  Alloc: "new_place (lq s) (known s) (heads (elevator_data (lq s))) n \<Longrightarrow> blk_rq_init n (lq s) = Some q \<Longrightarrow>
    elv_step ops heads s (s\<lparr>lq := q, known := insert n (known s), free := insert n (free s)\<rparr>)"
| Fill: "n \<in> free s \<Longrightarrow> elv_step ops heads s (s\<lparr>lq := (lq s)\<lparr>q_reqs := (q_reqs (lq s))(n \<mapsto> r)\<rparr>\<rparr>)"
| Add: "n \<in> free s \<Longrightarrow> q_reqs (lq s) n = Some r \<Longrightarrow>
    where' \<in> {ELEVATOR_INSERT_FRONT, ELEVATOR_INSERT_BACK, ELEVATOR_INSERT_SORT} \<Longrightarrow>
    (where' = ELEVATOR_INSERT_SORT \<Longrightarrow> blk_fs_request r \<or> blk_discard_rq r \<noteq> 0) \<Longrightarrow>
    elv_add_request ops Some n where' plug' (lq s) = Some q \<Longrightarrow>
    elv_step ops heads s (s\<lparr>lq := q, free := free s - {n}\<rparr>)"
| Dispatch: "elevator_dispatch_fn ops force (lq s) = Some (b, q) \<Longrightarrow> elv_step ops heads s (s\<lparr>lq := q\<rparr>)"
| Drain: "elv_drain_elevator ops (lq s) = Some (b, q) \<Longrightarrow> elv_step ops heads s (s\<lparr>lq := q\<rparr>)"
| Fetch: "get_next (queue_head (lq s)) (q_lists (lq s)) = Some n \<Longrightarrow> n \<noteq> queue_head (lq s) \<Longrightarrow>
    blk_dequeue_request n (lq s) = Some q \<Longrightarrow>
    elv_step ops heads s (s\<lparr>lq := q, flying := insert n (flying s)\<rparr>)"
| Requeue: "n \<in> flying s \<Longrightarrow> ordseq (lq s) = 0 \<Longrightarrow> elv_requeue_request ops Some n (lq s) = Some q \<Longrightarrow>
    elv_step ops heads s (s\<lparr>lq := q, flying := flying s - {n}\<rparr>)"
| Complete: "n \<in> flying s \<Longrightarrow> elv_step ops heads s (s\<lparr>flying := flying s - {n}, free := insert n (free s)\<rparr>)"
| Tick: "elv_step ops heads s (s\<lparr>lq := (lq s)\<lparr>jiffies := t\<rparr>\<rparr>)"

text \<open>Where every known request is: in exactly one of the four places.\<close>

definition placed :: "'d sched_inv \<Rightarrow> 'd life \<Rightarrow> addr list \<Rightarrow> addr set \<Rightarrow> bool" where
  "placed sinv s D R \<longleftrightarrow> sched_rep sinv (lq s) (known s) D R \<and> known s = free s \<union> flying s \<union> set D \<union> R \<and>
     free s \<inter> flying s = {} \<and> (free s \<union> flying s) \<inter> (set D \<union> R) = {}"

definition start :: "'d request_queue \<Rightarrow> 'd life" where
  "start q = \<lparr>lq = q, known = {}, free = {}, flying = {}\<rparr>"

text \<open>No operation that may come next faults.\<close>

definition no_fault :: "'d elevator_ops \<Rightarrow> 'd life \<Rightarrow> bool" where
  "no_fault ops s \<longleftrightarrow>
     (\<forall>n\<in>free s. \<forall>r where' plug'. q_reqs (lq s) n = Some r \<longrightarrow>
        where' \<in> {ELEVATOR_INSERT_FRONT, ELEVATOR_INSERT_BACK, ELEVATOR_INSERT_SORT} \<longrightarrow>
        (where' = ELEVATOR_INSERT_SORT \<longrightarrow> blk_fs_request r \<or> blk_discard_rq r \<noteq> 0) \<longrightarrow>
        elv_add_request ops Some n where' plug' (lq s) \<noteq> None) \<and>
     (\<forall>force. elevator_dispatch_fn ops force (lq s) \<noteq> None) \<and>
     elv_drain_elevator ops (lq s) \<noteq> None \<and>
     elv_queue_empty ops (lq s) \<noteq> None \<and>
     (\<exists>n. get_next (queue_head (lq s)) (q_lists (lq s)) = Some n \<and>
        (n \<noteq> queue_head (lq s) \<longrightarrow> blk_dequeue_request n (lq s) \<noteq> None)) \<and>
     (\<forall>n\<in>flying s. ordseq (lq s) = 0 \<longrightarrow> elv_requeue_request ops Some n (lq s) \<noteq> None)"

lemma placedD:
  assumes "placed sinv s D R"
  shows "sched_rep sinv (lq s) (known s) D R" "x \<in> free s \<or> x \<in> flying s \<Longrightarrow> x \<in> known s \<and> x \<notin> R \<and> x \<notin> set D"
  using assms unfolding placed_def by blast+

lemma mset_sets:
  assumes "mset D' + mset_set R' = mset D + mset_set R" "finite R" "finite R'"
  shows "set D' \<union> R' = set D \<union> R"
  using arg_cong [OF assms(1), of set_mset] assms(2,3) by simp

context elevator_type
begin

lemma sched_rep_known:
  assumes "sched_rep sinv q X D R" "n \<in> X"
  obtains r where "q_reqs q n = Some r"
proof -
  obtain S w where "queue_rep q X S w R" by (rule sched_repE [OF assms(1)])
  then show thesis using queue_repD(2) assms(2) that by blast
qed

lemma placed_keep:
  assumes p: "placed sinv s D R" and q: "sched_rep sinv q (known s) D' R'" "mset D' + mset_set R' = mset D + mset_set R"
  shows "placed sinv (s\<lparr>lq := q\<rparr>) D' R'"
proof -
  have "finite R" "finite R'" using p q(1) by (auto simp: placed_def elim: sched_repE)
  from mset_sets [OF q(2) this] show ?thesis using p q(1) by (auto simp: placed_def)
qed

lemma step_placed:
  assumes "elv_step ops heads s s'" "placed sinv s D R"
  shows "\<exists>D' R'. placed sinv s' D' R'"
  using assms(1)
proof cases
  case (Alloc n q)
  have "sched_rep sinv (lq s) (known s) D R" by (rule placedD(1) [OF assms(2)])
  from alloc_request [OF this Alloc(2)] Alloc(3) have q: "sched_rep sinv q (insert n (known s)) D R" by simp
  have "n \<notin> known s" using Alloc(2) by (simp add: new_place_def)
  then have "placed sinv s' D R" using q Alloc(1) assms(2) by (auto simp: placed_def)
  then show ?thesis by blast
next
  case (Fill n r)
  then have s: "sched_rep sinv (lq s) (known s) D R" "n \<notin> R" "n \<in> known s" using placedD [OF assms(2)] by blast+
  obtain r0 where "q_reqs (lq s) n = Some r0" by (rule sched_rep_known [OF s(1,3)])
  from sched_rep_req [OF s(1) this] s(2) have "sched_rep sinv ((lq s)\<lparr>q_reqs := (q_reqs (lq s))(n \<mapsto> r)\<rparr>) (known s) D R" by blast
  then show ?thesis using Fill(1) assms(2) by (auto simp: placed_def)
next
  case (Add n r where' plug' q)
  then have s: "sched_rep sinv (lq s) (known s) D R" "n \<in> known s" "n \<notin> R" "n \<notin> set D" using placedD [OF assms(2)] by blast+
  from add_request [OF driver_idle s Add(3,4,5), of plug'] Add(6) obtain D' R' where
    q: "sched_rep sinv q (known s) D' R'" "mset D' + mset_set R' = add_mset n (mset D + mset_set R)" by auto
  have "finite R" "finite R'" using s(1) q(1) by (auto elim: sched_repE)
  then have "set D' \<union> R' = insert n (set D \<union> R)" using arg_cong [OF q(2), of set_mset] by simp
  then have "placed sinv s' D' R'" using q(1) Add(1,2) assms(2) by (auto simp: placed_def)
  then show ?thesis by blast
next
  case (Dispatch force b q)
  have s: "sched_rep sinv (lq s) (known s) D R" by (rule placedD(1) [OF assms(2)])
  from dispatch [OF s, of force] Dispatch(2) obtain D' R' where
    "sched_rep sinv q (known s) D' R'" "mset D' + mset_set R' = mset D + mset_set R" by auto
  with placed_keep [OF assms(2) this] Dispatch(1) show ?thesis by blast
next
  case (Drain b q)
  have s: "sched_rep sinv (lq s) (known s) D R" by (rule placedD(1) [OF assms(2)])
  from drain [OF s] Drain(2) obtain D' where
    "sched_rep sinv q (known s) D' {}" "mset D' + mset_set {} = mset D + mset_set R" by auto
  with placed_keep [OF assms(2) this] Drain(1) show ?thesis by blast
next
  case (Fetch n q)
  have s: "sched_rep sinv (lq s) (known s) D R" by (rule placedD(1) [OF assms(2)])
  obtain S w where h: "w (queue_head (lq s)) = D" "queue_rep (lq s) (known s) S w R" "set D \<subseteq> known s" "R \<inter> set D = {}"
    by (rule sched_repE [OF s])
  have "get_next (queue_head (lq s)) (q_lists (lq s)) = Some (hd (D @ [queue_head (lq s)]))"
    using lists_first [OF queue_repD(1) [OF h(2)], of "queue_head (lq s)"] h(1) by simp
  with Fetch(2,3) obtain zs where D: "D = n # zs" by (cases D) auto
  then have "n \<in> known s" using h(3) by auto
  then obtain r where r: "q_reqs (lq s) n = Some r" by (rule sched_rep_known [OF s])
  from dequeue [of "lq s" "known s" "[]" n zs R] s D r Fetch(4) have q: "sched_rep sinv q (known s) zs R" by auto
  have "distinct D" using lists_distinct [OF queue_repD(1) [OF h(2)], of "queue_head (lq s)"] h(1) by simp
  then have "placed sinv s' zs R" using q D h(4) Fetch(1) assms(2) by (auto simp: placed_def)
  then show ?thesis by blast
next
  case (Requeue n q)
  then have s: "sched_rep sinv (lq s) (known s) D R" "n \<in> known s" "n \<notin> R" "n \<notin> set D" using placedD [OF assms(2)] by blast+
  obtain r where r: "q_reqs (lq s) n = Some r" by (rule sched_rep_known [OF s(1,2)])
  from requeue_request [OF s r, of Some] Requeue(3,4) have q: "sched_rep sinv q (known s) (n # D) R"
    by (auto simp: requeue_in_def)
  then have "placed sinv s' (n # D) R" using Requeue(1,2) assms(2) by (auto simp: placed_def)
  then show ?thesis by blast
next
  case (Complete n)
  then have "placed sinv s' D R" using assms(2) unfolding placed_def by auto
  then show ?thesis by blast
next
  case (Tick t)
  then have "placed sinv s' D R" using assms(2) by (auto simp: placed_def sched_rep_simps)
  then show ?thesis by blast
qed

lemma steps_placed:
  assumes "(elv_step ops heads)\<^sup>*\<^sup>* s s'" "placed sinv s D R"
  shows "\<exists>D' R'. placed sinv s' D' R'"
  using assms by (induction rule: rtranclp_induct) (use step_placed in blast)+

text \<open>In such a state no operation faults.\<close>

lemma placed_safe:
  assumes p: "placed sinv s D R"
  shows "n \<in> free s \<Longrightarrow> q_reqs (lq s) n = Some r \<Longrightarrow>
      where' \<in> {ELEVATOR_INSERT_FRONT, ELEVATOR_INSERT_BACK, ELEVATOR_INSERT_SORT} \<Longrightarrow>
      (where' = ELEVATOR_INSERT_SORT \<Longrightarrow> blk_fs_request r \<or> blk_discard_rq r \<noteq> 0) \<Longrightarrow>
      \<exists>q. elv_add_request ops Some n where' plug' (lq s) = Some q"
    and "\<exists>q. elevator_dispatch_fn ops force (lq s) = Some (R \<noteq> {}, q)"
    and "\<exists>q. elv_drain_elevator ops (lq s) = Some (False, q)"
    and "elv_queue_empty ops (lq s) = Some (D = [] \<and> R = {})"
    and "D = n # zs \<Longrightarrow> \<exists>q. blk_dequeue_request n (lq s) = Some q"
    and "n \<in> flying s \<Longrightarrow> ordseq (lq s) = 0 \<Longrightarrow> \<exists>q. elv_requeue_request ops Some n (lq s) = Some q"
proof -
  note s = placedD(1) [OF p]
  show "\<exists>q. elv_add_request ops Some n where' plug' (lq s) = Some q"
    if "n \<in> free s" "q_reqs (lq s) n = Some r" "where' \<in> {ELEVATOR_INSERT_FRONT, ELEVATOR_INSERT_BACK, ELEVATOR_INSERT_SORT}"
      "where' = ELEVATOR_INSERT_SORT \<Longrightarrow> blk_fs_request r \<or> blk_discard_rq r \<noteq> 0"
    using add_request [OF driver_idle s _ _ _ that(2-4), of plug'] placedD(2) [OF p, of n] that(1) by auto
  show "\<exists>q. elevator_dispatch_fn ops force (lq s) = Some (R \<noteq> {}, q)"
    using dispatch [OF s, of force] by (cases "R = {}") auto
  show "\<exists>q. elv_drain_elevator ops (lq s) = Some (False, q)" using drain [OF s] by blast
  show "elv_queue_empty ops (lq s) = Some (D = [] \<and> R = {})" by (rule queue_empty_rep [OF s])
  show "\<exists>q. blk_dequeue_request n (lq s) = Some q" if "D = n # zs"
  proof -
    have "n \<in> known s" using that p by (auto simp: placed_def)
    then obtain r where "q_reqs (lq s) n = Some r" by (rule sched_rep_known [OF s])
    then show ?thesis using dequeue [of "lq s" "known s" "[]" n zs R r] s that by auto
  qed
  show "\<exists>q. elv_requeue_request ops Some n (lq s) = Some q" if "n \<in> flying s" "ordseq (lq s) = 0"
  proof -
    have n: "n \<in> known s" "n \<notin> R" "n \<notin> set D" using placedD(2) [OF p, of n] that(1) by auto
    obtain r where "q_reqs (lq s) n = Some r" by (rule sched_rep_known [OF s n(1)])
    then show ?thesis using requeue_request [OF s n, of r Some] that(2) by auto
  qed
qed

lemma placed_no_fault:
  assumes p: "placed sinv s D R"
  shows "no_fault ops s"
proof -
  note safe = placed_safe [OF p]
  obtain S w where h: "w (queue_head (lq s)) = D" "queue_rep (lq s) (known s) S w R"
    by (rule sched_repE [OF placedD(1) [OF p]])
  let ?n = "hd (D @ [queue_head (lq s)])"
  have first: "get_next (queue_head (lq s)) (q_lists (lq s)) = Some ?n"
    using lists_first [OF queue_repD(1) [OF h(2)], of "queue_head (lq s)"] h(1) by simp
  have fetch: "?n \<noteq> queue_head (lq s) \<longrightarrow> blk_dequeue_request ?n (lq s) \<noteq> None"
    using safe(5) by (cases D) auto
  show ?thesis
    unfolding no_fault_def
  proof (intro conjI)
    show "\<forall>n\<in>free s. \<forall>r where' plug'. q_reqs (lq s) n = Some r \<longrightarrow>
        where' \<in> {ELEVATOR_INSERT_FRONT, ELEVATOR_INSERT_BACK, ELEVATOR_INSERT_SORT} \<longrightarrow>
        (where' = ELEVATOR_INSERT_SORT \<longrightarrow> blk_fs_request r \<or> blk_discard_rq r \<noteq> 0) \<longrightarrow>
        elv_add_request ops Some n where' plug' (lq s) \<noteq> None"
      using safe(1) by (metis option.distinct(1))
    show "\<forall>force. elevator_dispatch_fn ops force (lq s) \<noteq> None" using safe(2) by (metis option.distinct(1))
    show "elv_drain_elevator ops (lq s) \<noteq> None" using safe(3) by auto
    show "elv_queue_empty ops (lq s) \<noteq> None" using safe(4) by simp
    show "\<exists>n. get_next (queue_head (lq s)) (q_lists (lq s)) = Some n \<and> (n \<noteq> queue_head (lq s) \<longrightarrow> blk_dequeue_request n (lq s) \<noteq> None)"
      using first fetch by blast
    show "\<forall>n\<in>flying s. ordseq (lq s) = 0 \<longrightarrow> elv_requeue_request ops Some n (lq s) \<noteq> None"
      using safe(6) by (metis option.distinct(1))
  qed
qed

lemma life:
  assumes "p \<noteq> NULL" "heads_at p \<subseteq> dom (q_lists q0)" "queue_head q0 \<notin> heads_at p" "queue_head q0 \<in> dom (q_lists q0)"
    "nr_sorted q0 = 0" "elevator_choose get name chosen = Inr (Some e)" "eq \<noteq> NULL"
  shows "\<exists>q. elevator_init get (\<lambda>_. init_fn p) eq (Some table) name chosen q0 = Some (Inr q) \<and>
    (\<forall>s. (elv_step ops heads)\<^sup>*\<^sup>* (start q) s \<longrightarrow> no_fault ops s \<and> (\<exists>D R. placed sinv s D R))"
proof -
  from init_rep [OF assms] obtain q where
    q: "elevator_init get (\<lambda>_. init_fn p) eq (Some table) name chosen q0 = Some (Inr q)" "sched_rep sinv q {} [] {}" by blast
  then have "placed sinv (start q) [] {}" by (simp add: placed_def start_def)
  then have "\<exists>D R. placed sinv s D R" if "(elv_step ops heads)\<^sup>*\<^sup>* (start q) s" for s using steps_placed [OF that] by blast
  with placed_no_fault q(1) show ?thesis by blast
qed

end

section \<open>The four schedulers\<close>

text \<open>A queue as the block layer allocates it, with memory for all that may be linked.\<close>

definition blank_queue :: "unit request_queue" where
  "blank_queue = \<lparr>q_lists = \<lambda>_. Some \<lparr>list_next = NULL, list_prev = NULL\<rparr>,
     q_nodes = \<lambda>_. Some \<lparr>rb_parent_color = 0, rb_right = NULL, rb_left = NULL\<rparr>,
     q_hash = \<lparr>firsts = \<lambda>_. 7, hnodes = \<lambda>_. Some \<lparr>hl_next = NULL, hl_pprev = HNull\<rparr>\<rparr>,
     q_reqs = \<lambda>_. Some \<lparr>cmd_flags = 0, cmd_type = 1, data_len = 4096, sector = 8, rq_bio = NULL, rq_disk = NULL, special = NULL, fifo_time = 0\<rparr>,
     q_bios = Map.empty, jiffies = 0, queue_head = 0x1000, last_merge = 7, end_sector = 7, boundary_rq = 7, queue_flags = 0,
     nr_sorted = 0, in_flight = \<lambda>_. 0, rq_count = \<lambda>_. 0, unplug_thresh = 4, ordcolor = False, ordseq = 0,
     pre_flush_rq = NULL, bar_rq = NULL, post_flush_rq = NULL, orig_bar_rq = NULL, elevator_data = ()\<rparr>"

lemma blank_queue_simps [simp]:
  "dom (q_lists blank_queue) = UNIV" "queue_head blank_queue = 0x1000" "nr_sorted blank_queue = 0"
  by (auto simp: blank_queue_def)

text \<open>Only the noop scheduler is registered.\<close>

definition only_noop :: "string \<Rightarrow> unit option" where
  "only_noop n = (if n = ''noop'' then Some () else None)"

lemma choose_noop: "elevator_choose only_noop None [] = Inr (Some ())"
  by (simp add: elevator_choose_def CONFIG_DEFAULT_IOSCHED_def only_noop_def)









end
