(* ===== verification/Klist_Splice.thy ===== *)
theory Klist_Splice
  imports Klist
begin

text \<open>
  The operations of \<open>include/linux/list.h\<close> that move whole lists: splicing one list into
  another, cutting a list in two and replacing the head of a list.
\<close>

section \<open>Splicing, cutting and replacing whole lists\<close>

lemma links_join: "links N P (A @ [u]) \<Longrightarrow> N u = Some v \<Longrightarrow> P v = Some u \<Longrightarrow> links N P (v # B) \<Longrightarrow>
   links N P (A @ u # v # B)"
  using links_append [of N P A u "v # B"] by simp

lemma links_inner:
  assumes "pring N P l (x # xs)"
  shows "links N P (x # xs)" "N l = Some x" "P x = Some l" "N (last (x # xs)) = Some l" "P l = Some (last (x # xs))"
proof -
  obtain A z where A: "x # xs = A @ [z]" by (cases "x # xs" rule: rev_cases) auto
  have z: "last (x # xs) = z" unfolding A by simp
  have "links N P ((l # A) @ z # [l])" using assms A unfolding pring_def by (metis append.assoc append_Cons append_Nil)
  then have "links N P (l # A @ [z]) \<and> N z = Some l \<and> P l = Some z"
    using links_append [of N P "l # A" z "[l]"] by simp
  then show "links N P (x # xs)" "N l = Some x" "P x = Some l" "N (last (x # xs)) = Some l" "P l = Some (last (x # xs))"
    unfolding z A [symmetric] by auto
qed

lemma pring_splice_head:
  assumes a: "pring N P a vs" and l: "pring N P l (x # xs)" and d: "set (a # vs) \<inter> set (l # x # xs) = {}"
    and v: "v = hd (vs @ [a])" and z: "z = last (x # xs)"
  shows "pring (N(a \<mapsto> x, z \<mapsto> v)) (P(x \<mapsto> a, v \<mapsto> z)) a ((x # xs) @ vs)"
proof -
  let ?N = "N(a \<mapsto> x, z \<mapsto> v)" and ?P = "P(x \<mapsto> a, v \<mapsto> z)"
  obtain A where A: "x # xs = A @ [z]" unfolding z by (metis append_butlast_last_id list.discI)
  obtain B where B: "vs @ [a] = v # B" unfolding v by (cases "vs @ [a]") auto
  have zx: "z \<in> set (x # xs)" unfolding z by simp
  have va: "v \<in> set (a # vs)" unfolding v by (rule hd_mem)
  have dx: "distinct (A @ [z])" "distinct (v # B)" "distinct (x # xs)"
    using a l unfolding A [symmetric] B [symmetric] by (auto simp: pring_def)
  have "links ?N ?P (x # xs) = links N P (x # xs)"
  proof (rule links_cong)
    fix y assume "y \<in> set (butlast (x # xs))"
    then have "y \<noteq> z" "y \<in> set (x # xs)" using dx(1) unfolding A by auto
    then show "?N y = N y" using d by auto
  next
    fix y assume "y \<in> set (tl (x # xs))"
    then show "?P y = P y" using dx(3) d va by auto
  qed
  then have "links ?N ?P (a # x # xs)" using links_inner(1) [OF l] d zx va by auto
  then have lx: "links ?N ?P ((a # A) @ [z])" by (simp add: A)
  have "links ?N ?P (v # B) = links N P (v # B)"
  proof (rule links_cong)
    fix y assume "y \<in> set (butlast (v # B))"
    then have "y \<in> set vs" unfolding B [symmetric] by simp
    then show "?N y = N y" using d zx a by (auto simp: pring_def)
  next
    fix y assume y: "y \<in> set (tl (v # B))"
    then have "y \<in> set (a # vs)" unfolding B [symmetric] by (cases vs) auto
    then show "?P y = P y" using y dx(2) d by auto
  qed
  moreover have "links N P (v # B)"
    using a links_append [of N P "[a]" v B] unfolding pring_def B by (cases B) auto
  ultimately have "links ?N ?P ((a # A) @ z # v # B)"
    using links_join [OF lx, of v B] d zx va by auto
  then have "links ?N ?P (a # (x # xs) @ vs @ [a])" unfolding B A by simp
  moreover have "distinct (a # (x # xs) @ vs)" using a l d by (auto simp: pring_def)
  ultimately show ?thesis by (simp add: pring_def)
qed

lemma pring_splice:
  assumes a: "pring N P a (us @ vs)" and l: "pring N P l (x # xs)" and d: "set (a # us @ vs) \<inter> set (l # x # xs) = {}"
    and u: "u = last (a # us)" and v: "v = hd (vs @ [a])" and z: "z = last (x # xs)"
  shows "pring (N(u \<mapsto> x, z \<mapsto> v)) (P(x \<mapsto> u, v \<mapsto> z)) a (us @ (x # xs) @ vs)"
proof (cases us rule: rev_cases)
  case Nil
  then show ?thesis using pring_splice_head [of N P a vs l x xs] a l d u v z by simp
next
  case (snoc ws w)
  have "pring N P w (vs @ a # ws)" using a pring_rotate [of N P a ws w vs] by (simp add: snoc)
  from pring_splice_head [OF this l _ _ z, of v] d v have
    "pring (N(w \<mapsto> x, z \<mapsto> v)) (P(x \<mapsto> w, v \<mapsto> z)) w ((x # xs) @ vs @ a # ws)"
    by (cases vs) (auto simp: snoc)
  then show ?thesis using pring_rotate [of _ _ a ws w "(x # xs) @ vs"] u by (simp add: snoc)
qed


lemma splice_between_gives:
  assumes "nexts h l = Some x" "prevs h l = Some z" "x \<in> dom h" "u \<in> dom h" "z \<in> dom h" "v \<in> dom h"
  shows "gives (list_splice_between l u v h) ((nexts h)(u \<mapsto> x, z \<mapsto> v)) ((prevs h)(x \<mapsto> u, v \<mapsto> z))"
  unfolding list_splice_between_def get_next_nexts get_prev_prevs assms(1,2) bind.bind_lunit
  by (intro gives_rules) (use assms in auto)

lemma rings_splice_between:
  assumes r: "rings h H w" and a: "a \<in> H" "w a = us @ vs" and l: "l \<in> H" "l \<noteq> a" "w l \<noteq> []"
  shows "\<exists>h'. list_splice_between l (last (a # us)) (hd (vs @ [a])) h = Some h' \<and>
    rings h' (H - {l}) (w(a := us @ w l @ vs)) \<and> l \<in> dom h' \<and> l \<notin> nodes_of (H - {l}) (w(a := us @ w l @ vs))"
proof -
  obtain x xs where x: "w l = x # xs" using l(3) by (cases "w l") auto
  let ?z = "last (x # xs)" and ?u = "last (a # us)" and ?v = "hd (vs @ [a])"
  have ra: "ring h a (us @ vs)" and rl: "ring h l (x # xs)"
    using rings_ring [OF r a(1)] rings_ring [OF r l(1)] a(2) x by simp_all
  have d: "set (a # us @ vs) \<inter> set (l # x # xs) = {}" using rings_disjoint [OF r a(1) l(1)] l(2) a(2) x by simp
  have m: "?u \<in> set (a # us)" "?v \<in> set (a # vs)" "?z \<in> set (x # xs)" by (rule last_mem hd_mem)+
  have dom: "x \<in> dom h" "?u \<in> dom h" "?z \<in> dom h" "?v \<in> dom h" "l \<in> dom h"
    using ring_dom [OF ra] ring_dom [OF rl] m by auto
  from splice_between_gives [OF links_inner(2,5) [OF rl] dom(1-4)] obtain h' where
    h': "list_splice_between l ?u ?v h = Some h'" "nexts h' = (nexts h)(?u \<mapsto> x, ?z \<mapsto> ?v)"
      "prevs h' = (prevs h)(x \<mapsto> ?u, ?v \<mapsto> ?z)" by (auto simp: gives_def)
  have "rings h' (H - {l}) (w(a := us @ w l @ vs))"
  proof (rule rings_update [OF rings_mono [OF r], of "H - {l}" a h' _ "set (x # xs)"])
    show "ring h' a (us @ w l @ vs)"
      using pring_splice [OF ra rl d refl refl refl] h'(2,3) x by simp
    show "set (x # xs) \<inter> nodes_of (H - {l} - {a}) w = {}"
      using rings_disjoint [OF r l(1)] x by (fastforce simp: nodes_of_def)
    fix y assume "y \<notin> set (x # xs) \<union> set (a # w a)"
    then have "y \<noteq> x" "y \<noteq> ?u" "y \<noteq> ?v" "y \<noteq> ?z" using m a(2) by (auto simp del: last.simps)
    then show "nexts h' y = nexts h y \<and> prevs h' y = prevs h y" unfolding h'(2,3) by simp
  qed (use a l(2) x in auto)
  moreover have "l \<in> dom h'" using h'(2) dom(5) dom_nexts [of h'] dom_nexts [of h] by (auto simp del: last.simps dom_nexts)
  moreover have "l \<notin> nodes_of (H - {l}) (w(a := us @ w l @ vs))"
  proof -
    have "l \<notin> set (b # w b)" if "b \<in> H - {l}" for b
      using rings_disjoint [OF r l(1), of b] that by auto
    moreover from this [of a] have "l \<notin> set us" "l \<notin> set vs" using a l(2) by auto
    ultimately show ?thesis using rings_distinct [OF r l(1)] by (auto simp: nodes_of_def)
  qed
  ultimately show ?thesis using h'(1) by blast
qed

lemma rings_splice:
  assumes r: "rings h H w" and a: "a \<in> H" and l: "l \<in> H" "l \<noteq> a"
  shows "\<exists>h'. list_splice_init l a h = Some h' \<and> rings h' H (w(a := w l @ w a, l := []))"
    and "\<exists>h'. list_splice_tail_init l a h = Some h' \<and> rings h' H (w(a := w a @ w l, l := []))"
    and "\<exists>h'. list_splice l a h = Some h' \<and> rings h' (H - {l}) (w(a := w l @ w a))"
    and "\<exists>h'. list_splice_tail l a h = Some h' \<and> rings h' (H - {l}) (w(a := w a @ w l))"
proof -
  note e = rings_list_empty [OF r l(1)] and f = rings_first [OF r a] and g = rings_last [OF r a]
  have init: "\<exists>h2. INIT_LIST_HEAD l h1 = Some h2 \<and> rings h2 H (w'(l := []))"
    if "rings h1 (H - {l}) w'" "l \<in> dom h1" "l \<notin> nodes_of (H - {l}) w'" for h1 w'
    using INIT_LIST_HEAD_gives [OF that(2)] rings_insert_head [OF that(1,3)] l(1)
    by (auto simp: gives_def insert_absorb)
  have nil: "rings h H (w(a := w a, l := []))" "rings h (H - {l}) (w(a := w a))" if "w l = []"
    using r rings_mono [OF r, of "H - {l}"] that by (auto simp: fun_upd_idem)
  show "\<exists>h'. list_splice_init l a h = Some h' \<and> rings h' H (w(a := w l @ w a, l := []))"
    using rings_splice_between [OF r a _ l, of "[]" "w a"] e f nil(1) init
    by (cases "w l = []") (fastforce simp: list_splice_init_def)+
  show "\<exists>h'. list_splice_tail_init l a h = Some h' \<and> rings h' H (w(a := w a @ w l, l := []))"
    using rings_splice_between [OF r a _ l, of "w a" "[]"] e g nil(1) init
    by (cases "w l = []") (fastforce simp: list_splice_tail_init_def)+
  show "\<exists>h'. list_splice l a h = Some h' \<and> rings h' (H - {l}) (w(a := w l @ w a))"
    using rings_splice_between [OF r a _ l, of "[]" "w a"] e f nil(2)
    by (cases "w l = []") (fastforce simp: list_splice_def)+
  show "\<exists>h'. list_splice_tail l a h = Some h' \<and> rings h' (H - {l}) (w(a := w a @ w l))"
    using rings_splice_between [OF r a _ l, of "w a" "[]"] e g nil(2)
    by (cases "w l = []") (fastforce simp: list_splice_tail_def)+
qed


lemma rings_new_ring:
  assumes r: "rings h H w" and l: "ring h l xs" "set (l # xs) \<inter> nodes_of H w = {}"
  shows "rings h (insert l H) (w(l := xs))"
proof -
  have "l \<notin> H" using l(2) by (auto simp: nodes_of_def)
  moreover have "set (l # xs) \<inter> set (b # w b) = {}" if "b \<in> H" for b
    using l(2) that by (auto simp: nodes_of_def)
  ultimately show ?thesis
    using r l(1) unfolding rings_def by (auto simp: Int_commute simp del: list.set)
qed

lemma cut_gives:
  assumes "nexts h e = Some f" "nexts h a = Some x" "{l, x, e, a, f} \<subseteq> dom h" "l \<notin> {x, e, a, f}" "e \<noteq> a"
  shows "gives (list_cut_position_nonempty l a e h)
    ((nexts h)(l \<mapsto> x, e \<mapsto> l, a \<mapsto> f)) ((prevs h)(x \<mapsto> l, l \<mapsto> e, f \<mapsto> a))"
  unfolding list_cut_position_nonempty_def get_next_nexts assms(1,2) bind.bind_lunit
proof (rule gives_step_next)
  show "l \<in> dom h" using assms(3) by simp
  fix h1 assume h1: "nexts h1 = (nexts h)(l \<mapsto> x)" "prevs h1 = prevs h" "dom h1 = dom h"
  have l: "nexts h1 l = Some x" using h1(1) by simp
  have d: "{l, x, e, a, f} \<subseteq> dom h1" using assms(3) h1(3) by simp
  show "gives (nexts h1 l \<bind> (\<lambda>first. set_prev first l h1 \<bind> (\<lambda>h. set_prev l e h \<bind> (\<lambda>h. set_next e l h \<bind>
      (\<lambda>h. set_next a f h \<bind> set_prev f a)))))
    ((nexts h)(l \<mapsto> x, e \<mapsto> l, a \<mapsto> f)) ((prevs h)(x \<mapsto> l, l \<mapsto> e, f \<mapsto> a))"
    unfolding l bind.bind_lunit by (intro gives_rules) (use d h1(1,2) in simp_all)
qed

lemma pring_cut:
  assumes r: "pring N P a ((x # xs) @ ys)" and e: "e = last (x # xs)" and f: "f = hd (ys @ [a])"
    and l: "l \<notin> set (a # (x # xs) @ ys)"
    and N': "N' = N(l \<mapsto> x, e \<mapsto> l, a \<mapsto> f)" and P': "P' = P(x \<mapsto> l, l \<mapsto> e, f \<mapsto> a)"
  shows "pring N' P' l (x # xs)" "pring N' P' a ys"
proof -
  obtain A where A: "x # xs = A @ [e]" unfolding e by (metis append_butlast_last_id list.discI)
  obtain B where B: "ys @ [a] = f # B" unfolding f by (cases "ys @ [a]") auto
  have ex: "e \<in> set (x # xs)" unfolding e by simp
  have fa: "f \<in> set (a # ys)" unfolding f by (rule hd_mem)
  have d: "distinct (a # (x # xs) @ ys)" and lk: "links N P (a # (x # xs) @ ys @ [a])"
    using r by (simp_all add: pring_def)
  have dx: "distinct (A @ [e])" "distinct (f # B)" using d unfolding A [symmetric] B [symmetric] by auto
  have "links N P ((a # A) @ e # f # B)" using lk unfolding B A by simp
  then have o: "links N P (A @ [e])" "links N P (f # B)"
    using links_append [of N P "a # A" e "f # B"] by (cases A; simp)+
  have "links N' P' (x # xs) = links N P (x # xs)"
  proof (rule links_cong)
    fix y assume "y \<in> set (butlast (x # xs))"
    then have "y \<noteq> e" "y \<in> set (x # xs)" using dx(1) unfolding A by auto
    then show "N' y = N y" using d l unfolding N' by auto
  next
    fix y assume "y \<in> set (tl (x # xs))"
    then show "P' y = P y" using d l fa unfolding P' by auto
  qed
  then have "links N' P' ((l # x # xs))" using o(1) l d fa ex unfolding A [symmetric] by (auto simp: N' P')
  then have "links N' P' ((l # A) @ [e])" by (simp add: A)
  moreover have "N' e = Some l" "P' l = Some e" using l d ex fa by (auto simp: N' P')
  ultimately have "links N' P' ((l # A) @ e # l # [])" by (intro links_join) simp_all
  then have "links N' P' (l # (x # xs) @ [l])" by (simp add: A)
  with l d show "pring N' P' l (x # xs)" by (auto simp: pring_def)
  have "links N' P' (f # B) = links N P (f # B)"
  proof (rule links_cong)
    fix y assume "y \<in> set (butlast (f # B))"
    then have "y \<in> set ys" unfolding B [symmetric] by simp
    then show "N' y = N y" using d l ex unfolding N' by auto
  next
    fix y assume y: "y \<in> set (tl (f # B))"
    then have "y \<in> set (a # ys)" unfolding B [symmetric] by (cases ys) auto
    then show "P' y = P y" using y dx(2) d l unfolding P' by auto
  qed
  moreover have "N' a = Some f" "P' f = Some a" using l d fa by (auto simp: N' P')
  ultimately have "links N' P' (a # f # B)" using o(2) by simp
  with d show "pring N' P' a ys" by (simp add: pring_def B)
qed

lemma rings_cut_position:
  assumes r: "rings h H w" and a: "a \<in> H" "w a = xs @ e # ys" and l: "l \<in> H" "w l = []" "l \<noteq> a"
  shows "\<exists>h'. list_cut_position l a e h = Some h' \<and> rings h' H (w(a := ys, l := xs @ [e]))"
proof -
  obtain x zs where x: "xs @ [e] = x # zs" by (cases "xs @ [e]") auto
  have ra: "ring h a ((x # zs) @ ys)" using rings_ring [OF r a(1)] a(2) x by (metis append.assoc append_Cons append_Nil)
  have e: "e = last (x # zs)" by (metis x last_snoc)
  let ?f = "hd (ys @ [a])"
  have l1: "l \<notin> set (a # (x # zs) @ ys)"
    using rings_disjoint [OF r a(1) l(1)] l(3) a(2) unfolding x [symmetric] by auto
  have mem: "e \<in> set (x # zs)" "?f \<in> set (a # ys)" using e hd_mem [of ys a] by auto
  have next': "nexts h a = Some x" "nexts h e = Some ?f"
    using rings_first [OF r a(1)] rings_entry(1) [OF r a] a(2) x by (cases xs; simp add: get_next_nexts)+
  have dom: "{l, x, e, a, ?f} \<subseteq> dom h"
    using ring_dom [OF ra] ring_dom [OF rings_ring [OF r l(1)]] mem by auto
  have ne: "l \<notin> {x, e, a, ?f}" "e \<noteq> a" using l1 mem rings_distinct [OF r a(1)] a(2) by auto
  from cut_gives [OF next'(2,1) dom ne] obtain h' where
    h': "list_cut_position_nonempty l a e h = Some h'" "nexts h' = (nexts h)(l \<mapsto> x, e \<mapsto> l, a \<mapsto> ?f)"
      "prevs h' = (prevs h)(x \<mapsto> l, l \<mapsto> e, ?f \<mapsto> a)" by (auto simp: gives_def)
  note cut = pring_cut [OF ra e refl l1 h'(2,3)]
  have "rings h' (H - {l}) (w(a := ys))"
  proof (rule rings_update [OF rings_mono [OF r], of "H - {l}" a h' _ "{l}"])
    show "{l} \<inter> nodes_of (H - {l} - {a}) w = {}"
      using nodes_of_single(1) [OF r l(1,2)] by (auto simp: nodes_of_def)
    fix y assume "y \<notin> {l} \<union> set (a # w a)"
    then have "y \<noteq> x" "y \<noteq> e" "y \<noteq> a" "y \<noteq> ?f" "y \<noteq> l"
      using mem a(2) x by (auto simp: append_eq_Cons_conv)
    then show "nexts h' y = nexts h y \<and> prevs h' y = prevs h y" unfolding h'(2,3) by simp
  qed (use a l cut in auto)
  moreover have "set (l # x # zs) \<inter> nodes_of (H - {l}) (w(a := ys)) = {}"
  proof -
    have "set (l # x # zs) \<inter> set (b # w b) = {}" if "b \<in> H" "b \<noteq> l" "b \<noteq> a" for b
      using rings_disjoint [OF r l(1) that(1)] rings_disjoint [OF r a(1) that(1)] that a(2)
      unfolding x [symmetric] list.set by auto
    moreover have "set (l # x # zs) \<inter> set (a # ys) = {}"
      using rings_distinct [OF r a(1)] l1 a(2) unfolding x [symmetric] list.set by auto
    ultimately have "set (l # x # zs) \<inter> set (b # (w(a := ys)) b) = {}" if "b \<in> H - {l}" for b
      using that by (cases "b = a") simp_all
    then show ?thesis unfolding nodes_of_def by blast
  qed
  ultimately have "rings h' (insert l (H - {l})) (w(a := ys, l := x # zs))"
    by (rule rings_new_ring [OF _ cut(1)])
  moreover have "x = e" if "last (a # w a) = x"
  proof (cases "ys = []")
    case False
    then have "x \<in> set ys" using that a(2) last_in_set [of ys] by simp
    moreover have "x \<in> set (xs @ [e])" unfolding x by simp
    ultimately show ?thesis using rings_distinct [OF r a(1)] a(2) by auto
  qed (use that a(2) in simp)
  then have "list_cut_position l a e h = Some h'"
    using rings_list_empty [OF r a(1)] next'(1) rings_last [OF r a(1)] h'(1) ne(2) a(2)
    by (auto simp: list_cut_position_def list_is_singular_def get_next_nexts simp del: last.simps)
  ultimately show ?thesis using l(1) x by (simp add: insert_absorb)
qed


text \<open>Replacing the head of a list: \<open>n\<close> takes over the entries of \<open>a\<close>.\<close>

lemma list_replace_gives:
  assumes "nexts h a = Some x" "prevs h a = Some z" "{a, n, x, z} \<subseteq> dom h" "n \<noteq> a"
    "z' = (if x = a then n else z)"
  shows "gives (list_replace a n h) ((nexts h)(n \<mapsto> x, z' \<mapsto> n)) ((prevs h)(x \<mapsto> n, n \<mapsto> z'))"
  unfolding list_replace_def get_next_nexts get_prev_prevs assms(1) bind.bind_lunit
proof (rule gives_step_next)
  show "n \<in> dom h" using assms(3) by simp
  fix h1 assume h1: "nexts h1 = (nexts h)(n \<mapsto> x)" "prevs h1 = prevs h" "dom h1 = dom h"
  show "gives (nexts h1 n \<bind> (\<lambda>next'. set_prev next' n h1 \<bind> (\<lambda>h. prevs h a \<bind> (\<lambda>prev. set_prev n prev h \<bind>
      (\<lambda>h. prevs h n \<bind> (\<lambda>prev. set_next prev n h)))))) ((nexts h)(n \<mapsto> x, z' \<mapsto> n)) ((prevs h)(x \<mapsto> n, n \<mapsto> z'))"
    unfolding h1(1) fun_upd_same bind.bind_lunit
  proof (rule gives_step_prev)
    show "x \<in> dom h1" using assms(3) h1(3) by simp
    fix h2 assume h2: "nexts h2 = nexts h1" "prevs h2 = (prevs h1)(x \<mapsto> n)" "dom h2 = dom h1"
    have a: "prevs h2 a = Some z'" using h2(2) h1(2) assms(2,5) by auto
    show "gives (prevs h2 a \<bind> (\<lambda>prev. set_prev n prev h2 \<bind> (\<lambda>h. prevs h n \<bind> (\<lambda>prev. set_next prev n h))))
        ((nexts h)(n \<mapsto> x, z' \<mapsto> n)) ((prevs h)(x \<mapsto> n, n \<mapsto> z'))"
      unfolding a bind.bind_lunit
    proof (rule gives_step_prev)
      show "n \<in> dom h2" using assms(3) h1(3) h2(3) by simp
      fix h3 assume h3: "nexts h3 = nexts h2" "prevs h3 = (prevs h2)(n \<mapsto> z')" "dom h3 = dom h2"
      have n: "prevs h3 n = Some z'" using h3(2) by simp
      have "z' \<in> dom h3" using assms(3,5) h1(3) h2(3) h3(3) by auto
      then show "gives (prevs h3 n \<bind> (\<lambda>prev. set_next prev n h3)) ((nexts h)(n \<mapsto> x, z' \<mapsto> n)) ((prevs h)(x \<mapsto> n, n \<mapsto> z'))"
        unfolding n bind.bind_lunit by (rule gives_next) (simp_all add: h1 h2 h3)
    qed
  qed
qed

lemma rings_replace_init:
  assumes r: "rings h H w" and a: "a \<in> H" and n: "n \<in> H" "w n = []" "n \<noteq> a"
  shows "\<exists>h'. list_replace_init a n h = Some h' \<and> rings h' H (w(n := w a, a := []))"
proof -
  have ra: "ring h a (w a)" by (rule rings_ring [OF r a])
  define x z where "x = hd (w a @ [a])" and "z = last (a # w a)"
  define z' where "z' = (if x = a then n else z)"
  have xz: "nexts h a = Some x" "prevs h a = Some z" using pring_ends [OF ra] by (simp_all add: x_def z_def)
  have dom: "{a, n, x, z} \<subseteq> dom h"
    using ring_dom [OF ra] ring_dom [OF rings_ring [OF r n(1)]] last_mem [of a "w a"] hd_mem [of "w a" a]
    by (auto simp: x_def z_def)
  from list_replace_gives [OF xz dom n(3) z'_def] obtain h1 where
    h1: "list_replace a n h = Some h1" "nexts h1 = (nexts h)(n \<mapsto> x, z' \<mapsto> n)" "prevs h1 = (prevs h)(x \<mapsto> n, n \<mapsto> z')"
    by (auto simp: gives_def)
  have "a \<in> dom h1" using h1(2) dom dom_nexts [of h1] dom_nexts [of h] by (auto simp del: dom_nexts)
  from INIT_LIST_HEAD_gives [OF this] h1 obtain h2 where
    h2: "list_replace_init a n h = Some h2" "nexts h2 = (nexts h)(n \<mapsto> x, z' \<mapsto> n, a \<mapsto> a)"
      "prevs h2 = (prevs h)(x \<mapsto> n, n \<mapsto> z', a \<mapsto> a)"
    by (auto simp: gives_def list_replace_init_def)
  show ?thesis
  proof (cases "w a")
    case Nil
    then have "x = a" "z' = n" by (simp_all add: x_def z'_def)
    moreover have "nexts h n = Some n" "prevs h n = Some n" "nexts h a = Some a" "prevs h a = Some a"
      using rings_ring [OF r n(1)] ra n(2) Nil by (auto simp: pring_def)
    ultimately have "nexts h2 = nexts h" "prevs h2 = prevs h" by (auto simp: h2 fun_eq_iff)
    moreover have "w(n := w a, a := []) = w" using Nil n(2) by auto
    ultimately show ?thesis using r h2(1) by (simp add: rings_def)
  next
    case (Cons y ys)
    have l: "n \<notin> set (a # (y # ys) @ [])" using rings_disjoint [OF r n(1) a n(3)] Cons by auto
    have z: "z = last (y # ys)" "x = y" "x \<noteq> a" using rings_distinct [OF r a] by (auto simp: x_def z_def Cons)
    note cut = pring_cut [of "nexts h" "prevs h" a y ys "[]" z a n, OF _ _ _ l, of "nexts h2" "prevs h2"]
    have c: "ring h2 n (y # ys)" "ring h2 a []"
      using cut ra Cons z h2(2,3) by (simp_all add: z'_def)
    have "rings h2 (H - {n}) (w(a := []))"
    proof (rule rings_update [OF rings_mono [OF r], of "H - {n}" a h2 _ "{n}"])
      show "{n} \<inter> nodes_of (H - {n} - {a}) w = {}"
        using nodes_of_single(1) [OF r n(1,2)] by (auto simp: nodes_of_def)
      fix u assume "u \<notin> {n} \<union> set (a # w a)"
      then have "u \<noteq> x" "u \<noteq> z" "u \<noteq> a" "u \<noteq> n" using z Cons last_mem [of y ys] by (auto simp del: last.simps)
      then show "nexts h2 u = nexts h u \<and> prevs h2 u = prevs h u" unfolding h2(2,3) by (simp add: z'_def)
    qed (use a n c in auto)
    moreover have "set (n # y # ys) \<inter> nodes_of (H - {n}) (w(a := [])) = {}"
    proof -
      have "set (n # y # ys) \<inter> set (b # (w(a := [])) b) = {}" if "b \<in> H - {n}" for b
      proof (cases "b = a")
        case True
        then show ?thesis using l rings_distinct [OF r a] Cons by auto
      next
        case False
        then show ?thesis
          using rings_disjoint [OF r n(1), of b] rings_disjoint [OF r a, of b] that Cons by auto
      qed
      then show ?thesis unfolding nodes_of_def by blast
    qed
    ultimately have "rings h2 (insert n (H - {n})) (w(a := [], n := y # ys))"
      by (rule rings_new_ring [OF _ c(1)])
    then show ?thesis using h2(1) n Cons by (auto simp: insert_absorb fun_upd_twist)
  qed
qed

end
