(* ===== verification/Elevator_Spec.thy ===== *)
theory Elevator_Spec
  imports Elevator_Life Klist_Splice
begin

text \<open>
  The properties of the block layer that rest on the interfaces of the schedulers: the abstract life of a request and that the
  queues implement it, draining, merging, requeueing, the error paths of the set-up, the merge hash, and that the simple I/O
  scheduler starves no request.  Each property is an instance of a lemma of the interface for one of the schedulers.
\<close>

section \<open>A queue with a request\<close>

text \<open>Memory for all that may be linked, and a scheduler that holds one request: the example of the properties below.\<close>

definition blank :: "'d request_queue \<Rightarrow> bool" where
  "blank q \<longleftrightarrow> dom (q_lists q) = UNIV \<and> dom (q_nodes q) = UNIV \<and> dom (q_reqs q) = UNIV \<and>
     dom (hnodes (q_hash q)) = UNIV \<and> nr_sorted q = 0"

lemma blank_blank_queue: "blank blank_queue"
  by (auto simp: blank_def blank_queue_def)

lemma sched_rep_bios [simp]: "sched_rep sinv (q\<lparr>q_bios := b\<rparr>) X D R = sched_rep sinv q X D R"
  by (simp add: sched_rep_def held_def queue_rep_def)

context elevator_type
begin

lemma stocked:
  assumes b: "blank (q0 :: 'x request_queue)" and p: "p \<noteq> NULL" "queue_head q0 \<notin> heads_at p"
    and n: "n \<notin> heads_at p" "n \<noteq> queue_head q0" "n \<noteq> NULL" "aligned4 n" and r: "blk_fs_request r"
  shows "\<exists>q r'. sched_rep sinv q {n} [] {n} \<and> q_reqs q n = Some r' \<and> untimed (Some r') = untimed (Some (set_flag REQ_SORTED r))"
proof -
  from init_rep [OF p(1) _ p(2) _ _ choose_noop, of "0x3000" "\<lambda>_. 7"] b obtain q1 where
    q1: "sched_rep sinv q1 {} [] {}" "heads (elevator_data q1) = heads_at p" "queue_head q1 = queue_head q0" "q_reqs q1 = q_reqs q0"
      "q_nodes q1 = q_nodes q0" "dom (hnodes (q_hash q1)) = UNIV" "dom (q_lists q1) = UNIV"
    by (auto simp: blank_def)
  have "new_place q1 {} (heads (elevator_data q1)) n" using q1 n b by (auto simp: new_place_def blank_def)
  from alloc_request [OF q1(1) this] obtain q2 where q2: "sched_rep sinv q2 {n} [] {}" by auto
  obtain r2 where "q_reqs q2 n = Some r2" by (rule sched_rep_known [OF q2]) auto
  from sched_rep_req [OF q2 this] have q3: "sched_rep sinv (q2\<lparr>q_reqs := (q_reqs q2)(n \<mapsto> r)\<rparr>) {n} [] {}" by simp
  from insert_sort [OF q3, of n r] r obtain q' D' where
    q': "sched_rep sinv q' {n} D' {n}" "mset D' = {#}" "same_reqs ((q_reqs q2)(n \<mapsto> set_flag REQ_SORTED r)) (q_reqs q')"
    by auto
  then have "untimed (q_reqs q' n) = untimed (Some (set_flag REQ_SORTED r))" by (simp add: same_reqs_def)
  then show ?thesis using q'(1,2) by (cases "q_reqs q' n") (auto simp: untimed_def)
qed

lemma exit_drained:
  assumes "sched_rep sinv q X D R"
  shows "\<exists>q' D'. elv_drain_elevator ops q = Some (False, q') \<and> elevator_exit ops q' = Some () \<and>
    elv_queue_empty ops q' = Some (D' = []) \<and> sched_rep sinv q' X D' {} \<and> mset D' = mset D + mset_set R"
proof -
  from drain [OF assms] obtain q' D' where q': "elv_drain_elevator ops q = Some (False, q')" "sched_rep sinv q' X D' {}" "mset D' = mset D + mset_set R"
    by blast
  then obtain S w where "held sinv q' X S w {}" by (auto simp: sched_rep_def)
  then have "elevator_exit ops q' = Some ()" using exit_queue by (simp add: elevator_exit_def)
  then show ?thesis using q' queue_empty_rep [OF q'(2)] by auto
qed

lemma fetch_requeue:
  assumes s: "sched_rep sinv q X (n # D) R" and o: "ordseq q = 0"
  shows "\<exists>q1 q2. blk_dequeue_request n q = Some q1 \<and> sched_rep sinv q1 X D R \<and> elv_requeue_request ops request_fn n q1 = Some q2 \<and>
    sched_rep sinv q2 X (n # D) R \<and> in_flight q2 = in_flight q"
proof -
  have nX: "n \<in> X" and nR: "n \<notin> R" and nD: "n \<notin> set D"
  proof -
    obtain S w where w: "w (queue_head q) = n # D" "R \<inter> set (n # D) = {}" "set (n # D) \<subseteq> X" "queue_rep q X S w R"
      by (rule sched_repE [OF s])
    then show "n \<in> X" "n \<notin> R" by auto
    have "distinct (n # D)" using w(1) lists_distinct [OF queue_repD(1) [OF w(4)], of "queue_head q"] by simp
    then show "n \<notin> set D" by simp
  qed
  obtain r where r: "q_reqs q n = Some r" by (rule sched_rep_known [OF s nX])
  from dequeue [of q X "[]" n D R r] s r obtain q1 where q1: "blk_dequeue_request n q = Some q1" "sched_rep sinv q1 X D R" "q_reqs q1 = q_reqs q"
    "in_flight q1 = (if blk_account_rq r then (in_flight q)(rq_is_sync r := in_flight q (rq_is_sync r) + 1) else in_flight q)"
    "same_queue q (q1\<lparr>in_flight := in_flight q\<rparr>)" by auto
  have o1: "ordseq q1 = 0" using q1(5) o by (simp add: same_queue_def)
  have r1: "q_reqs q1 n = Some r" using q1(3) r by simp
  from requeue_request [OF q1(2) nX nR nD r1, of request_fn] o1 obtain q2 where q2: "elv_requeue_request ops request_fn n q1 = Some q2"
    "sched_rep sinv q2 X (requeue_in q1 n D) R" "in_flight q2 = unaccounted r q1" by blast
  have "in_flight q2 = in_flight q" using q2(3) q1(4) by (auto simp: unaccounted_def fun_eq_iff)
  then show ?thesis using q1(1,2) q2(1,2) o1 by (auto simp: requeue_in_def)
qed

end

section \<open>The abstract life of a request\<close>

text \<open>
  What the block layer promises of a request, without the queues: it is set up, queued, with the driver, and back.  The
  queues and the scheduler implement it: every operation is one move of one request, or none.
\<close>

datatype place = Unknown | Setup | Queued | Driver

definition phase :: "'d life \<Rightarrow> addr \<Rightarrow> place" where
  "phase s n = (if n \<in> free s then Setup else if n \<in> flying s then Driver else if n \<in> known s then Queued else Unknown)"

lemma phase_lq [simp]: "phase (s\<lparr>lq := q\<rparr>) = phase s"
  by (simp add: phase_def fun_eq_iff)

inductive move :: "(addr \<Rightarrow> place) \<Rightarrow> (addr \<Rightarrow> place) \<Rightarrow> bool" where
  Stay: "move f f"
| Take: "f n = Unknown \<Longrightarrow> move f (f(n := Setup))"
| Submit: "f n = Setup \<Longrightarrow> move f (f(n := Queued))"
| Start: "f n = Queued \<Longrightarrow> move f (f(n := Driver))"
| Give_back: "f n = Driver \<Longrightarrow> move f (f(n := Queued))"
| Finish: "f n = Driver \<Longrightarrow> move f (f(n := Setup))"

context elevator_type
begin

lemma step_move:
  assumes "elv_step ops heads s s'" "placed sinv s D R"
  shows "move (phase s) (phase s')"
  using assms(1)
proof cases
  case (Alloc n q)
  then have n: "n \<notin> known s" by (simp add: new_place_def)
  then have "phase s n = Unknown" "phase s' = (phase s)(n := Setup)" using Alloc(1) assms(2) by (auto simp: phase_def placed_def fun_eq_iff)
  then show ?thesis using Take [of "phase s" n] by simp
next
  case (Add n r where' plug' q)
  then have "n \<in> known s" "n \<notin> flying s" using assms(2) by (auto simp: placed_def)
  then have "phase s n = Setup" "phase s' = (phase s)(n := Queued)" using Add(1,2) by (auto simp: phase_def fun_eq_iff)
  then show ?thesis using Submit [of "phase s" n] by simp
next
  case (Fetch n q)
  have s: "sched_rep sinv (lq s) (known s) D R" by (rule placedD(1) [OF assms(2)])
  obtain S w where h: "w (queue_head (lq s)) = D" "queue_rep (lq s) (known s) S w R" by (rule sched_repE [OF s])
  have "get_next (queue_head (lq s)) (q_lists (lq s)) = Some (hd (D @ [queue_head (lq s)]))"
    using lists_first [OF queue_repD(1) [OF h(2)], of "queue_head (lq s)"] h(1) by simp
  with Fetch(2,3) have "n \<in> set D" by (cases D) auto
  then have "n \<in> known s" "n \<notin> free s" "n \<notin> flying s" using assms(2) by (auto simp: placed_def)
  then have "phase s n = Queued" "phase s' = (phase s)(n := Driver)" using Fetch(1) by (auto simp: phase_def fun_eq_iff)
  then show ?thesis using Start [of "phase s" n] by simp
next
  case (Requeue n q)
  then have "n \<in> known s" "n \<notin> free s" using assms(2) by (auto simp: placed_def)
  then have "phase s n = Driver" "phase s' = (phase s)(n := Queued)" using Requeue(1,2) by (auto simp: phase_def fun_eq_iff)
  then show ?thesis using Give_back [of "phase s" n] by simp
next
  case (Complete n)
  then have "n \<notin> free s" using assms(2) by (auto simp: placed_def)
  then have "phase s n = Driver" "phase s' = (phase s)(n := Setup)" using Complete by (auto simp: phase_def fun_eq_iff)
  then show ?thesis using Finish [of "phase s" n] by simp
qed (auto intro: Stay)

lemma steps_move:
  assumes "(elv_step ops heads)\<^sup>*\<^sup>* s s'" "placed sinv s D R"
  shows "move\<^sup>*\<^sup>* (phase s) (phase s') \<and> (\<exists>D' R'. placed sinv s' D' R' \<and> (\<forall>n. phase s' n = Queued \<longleftrightarrow> n \<in> set D' \<union> R'))"
  using assms(1)
proof (induction rule: rtranclp_induct)
  case base
  have "phase s n = Queued \<longleftrightarrow> n \<in> set D \<union> R" for n using assms(2) by (auto simp: phase_def placed_def)
  then show ?case using assms(2) by blast
next
  case (step s1 s2)
  then obtain D1 R1 where p: "placed sinv s1 D1 R1" by blast
  from step_placed [OF step(2) p] obtain D2 R2 where p2: "placed sinv s2 D2 R2" by blast
  then have "phase s2 n = Queued \<longleftrightarrow> n \<in> set D2 \<union> R2" for n by (auto simp: phase_def placed_def)
  then show ?case using step(3) step_move [OF step(2) p] p2 by (meson rtranclp.rtrancl_into_rtrancl)
qed

end

section \<open>Properties\<close>


lemma mset_single: "mset xs = {#x#} \<longleftrightarrow> xs = [x]"
  by (cases xs) auto

definition example_rq :: request where
  "example_rq = \<lparr>cmd_flags = 0, cmd_type = 1, data_len = 4096, sector = 8, rq_bio = NULL, rq_disk = NULL, special = NULL, fifo_time = 0\<rparr>"

lemma example_fs: "blk_fs_request example_rq"
  by (simp add: example_rq_def blk_fs_request_def REQ_TYPE_FS_def)

lemma example_untimed: "untimed (Some r') = untimed (Some (set_flag REQ_SORTED example_rq)) \<Longrightarrow>
  \<exists>t. r' = (set_flag REQ_SORTED example_rq)\<lparr>fifo_time := t\<rparr>"
  by (cases r') (simp add: untimed_def example_rq_def set_flag_def)

lemma sio_stock: "\<exists>q r. sched_rep sio_inv q {0x4000} [] {0x4000} \<and> q_reqs q 0x4000 = Some r"
  using sio_type.stocked [OF blank_blank_queue, of "0x2000" "0x4000" example_rq] example_fs by (auto simp: aligned4_def)

lemma deadline_stock: "\<exists>q r t. sched_rep deadline_inv q {0x4000} [] {0x4000} \<and> q_reqs q 0x4000 = Some r \<and>
  r = (set_flag REQ_SORTED example_rq)\<lparr>fifo_time := t\<rparr>"
  using deadline_type.stocked [OF blank_blank_queue, of "0x2000" "0x4000" example_rq] example_fs example_untimed by (auto simp: aligned4_def)

lemma vr_stock: "\<exists>q r. sched_rep vr_inv q {0x4000} [] {0x4000} \<and> q_reqs q 0x4000 = Some r"
  using vr_type.stocked [OF blank_blank_queue, of "0x2000" "0x4000" example_rq] example_fs by (auto simp: aligned4_def)


text \<open>
  C13: draining the V(R) scheduler ends: the loop of \<open>elv_drain_elevator\<close> returns, the message that forced dispatching is broken is
  not printed, every request the scheduler held is on the dispatch queue, none is lost, and the scheduler can be torn down: none of
  the \<open>BUG_ON\<close> tests of its exit routine fails.
\<close>

theorem vr_drain_exit:
  assumes "sched_rep vr_inv q X D R"
  shows "\<exists>q' D'. elv_drain_elevator iosched_vr q = Some (False, q') \<and> elevator_exit iosched_vr q' = Some () \<and>
    elv_queue_empty iosched_vr q' = Some (D' = []) \<and> sched_rep vr_inv q' X D' {} \<and> mset D' = mset D + mset_set R"
  using assms by (rule vr_type.exit_drained)

theorem vr_drain_exit_witness:
  "\<exists>q q'. sched_rep vr_inv q {0x4000} [] {0x4000} \<and> elv_drain_elevator iosched_vr q = Some (False, q') \<and> sched_rep vr_inv q' {0x4000} [0x4000] {}"
proof -
  from vr_stock obtain q where q: "sched_rep vr_inv q {0x4000} [] {0x4000}" by blast
  from vr_drain_exit [OF q] obtain q' D' where
    q': "elv_drain_elevator iosched_vr q = Some (False, q')" "sched_rep vr_inv q' {0x4000} D' {}" "mset D' = mset [] + mset_set {0x4000}" by blast
  from q'(3) have "D' = [0x4000]" by (simp add: mset_single)
  then show ?thesis using q q'(1,2) by blast
qed



text \<open>
  C15: what \<open>elv_merge\<close> finds with the deadline scheduler is right: the search ends without a fault, loses no request, and a request
  that it returns is one of the scheduler, may be merged with the bio, and is adjacent to it: it ends where the bio begins for
  a back merge and begins where the bio ends for a front merge.
\<close>

theorem deadline_merge_adjacent:
  assumes "sched_rep deadline_inv q X D R" "bios_ok q R" "q_bios q bio' = Some b"
  shows "\<exists>ret x q'. elv_merge iosched_deadline bio' q = Some (ret, x, q') \<and> sched_rep deadline_inv q' X D R \<and> q_reqs q' = q_reqs q \<and>
    (ret \<noteq> ELEVATOR_NO_MERGE \<longrightarrow> x \<in> R \<and> adjacent q ret x b \<and> elv_rq_merge_ok (elevator_allow_merge_fn iosched_deadline) x bio' q' = Some True)"
  using deadline.merge [OF assms] by blast

theorem deadline_merge_adjacent_witness:
  "\<exists>q b ret x q'. sched_rep deadline_inv q {0x4000} [] {0x4000} \<and> elv_merge iosched_deadline 0x5000 q = Some (ret, x, q') \<and>
     (ret \<noteq> ELEVATOR_NO_MERGE \<longrightarrow> x = 0x4000 \<and> adjacent q ret x b)"
proof -
  let ?b = "\<lparr>bi_sector = 16, bi_disk = NULL, bi_rw = 0, bi_size = 4096\<rparr>"
  from deadline_stock obtain q r where q: "sched_rep deadline_inv q {0x4000} [] {0x4000}" "q_reqs q 0x4000 = Some r" by blast
  let ?q = "q\<lparr>q_bios := \<lambda>_. Some ?b\<rparr>"
  have "sched_rep deadline_inv ?q {0x4000} [] {0x4000}" "bios_ok ?q {0x4000}" "q_bios ?q 0x5000 = Some ?b"
    using q by (auto simp: bios_ok_def)
  from deadline_merge_adjacent [OF this] this(1) show ?thesis by blast
qed

text \<open>
  C16: after a front merge has moved the start of a request, \<open>elv_merged_request\<close> puts the request of a deadline queue in its new place in
  the sorted tree: the scheduler is well formed again with the new key, and the requests that had to give way are on the dispatch queue.
\<close>

theorem deadline_front_merge:
  assumes "sched_rep deadline_inv q0 X D R" "n \<in> R" "q_reqs q0 n = Some r" "same_key (r\<lparr>sector := sec\<rparr>) r'"
  shows "\<exists>q' D' A. elv_merged_request iosched_deadline n ELEVATOR_FRONT_MERGE (q0\<lparr>q_reqs := (q_reqs q0)(n \<mapsto> r')\<rparr>) = Some q' \<and>
    A \<subseteq> R - {n} \<and> sched_rep deadline_inv q' X D' (R - A) \<and> mset D' = mset D + mset_set A \<and> last_merge q' = n"
  using deadline.merged_request [OF assms, of ELEVATOR_FRONT_MERGE] by blast

theorem deadline_front_merge_witness:
  "\<exists>q0 r q' D'. elv_merged_request iosched_deadline 0x4000 ELEVATOR_FRONT_MERGE
      (q0\<lparr>q_reqs := (q_reqs q0)(0x4000 \<mapsto> r\<lparr>sector := 4\<rparr>)\<rparr>) = Some q' \<and> sched_rep deadline_inv q' {0x4000} D' {0x4000}"
proof -
  from deadline_stock obtain q r where q: "sched_rep deadline_inv q {0x4000} [] {0x4000}" "q_reqs q 0x4000 = Some r" by blast
  have k: "same_key (r\<lparr>sector := 4\<rparr>) (r\<lparr>sector := 4\<rparr>)" by (simp add: same_key_def)
  from deadline_front_merge [OF q(1) _ q(2) k] obtain q' D' A where
    "elv_merged_request iosched_deadline 0x4000 ELEVATOR_FRONT_MERGE (q\<lparr>q_reqs := (q_reqs q)(0x4000 \<mapsto> r\<lparr>sector := 4\<rparr>)\<rparr>) = Some q'"
    "A \<subseteq> {}" "sched_rep deadline_inv q' {0x4000} D' ({0x4000} - A)" by auto
  then show ?thesis by auto
qed





section \<open>No starvation\<close>

text \<open>
  A request that waits in front of its list beyond its time: the dispatch routine takes it as soon as the batch is over, and
  until then the batch goes on by one.
\<close>

definition waits :: "addr \<Rightarrow> sio_data request_queue \<Rightarrow> (addr \<Rightarrow> addr list) \<Rightarrow> bool" where
  "waits x q w \<longleftrightarrow> (\<exists>xs r. w (sd_fifo_list (elevator_data q) ASYNC) = x # xs \<and> q_reqs q x = Some r \<and> time_after (jiffies q) (fifo_time r))"

lemma sio_expired_waits:
  assumes h: "held sio_inv q X S w R" and x: "waits x q w"
  shows "sio_choose_expired_request q = Some x" "x \<in> R"
proof -
  from x obtain xs r where w: "w (sd_fifo_list (elevator_data q) ASYNC) = x # xs" "q_reqs q x = Some r" "time_after (jiffies q) (fifo_time r)"
    by (auto simp: waits_def)
  then show xR: "x \<in> R" using sio_heldD(5) [OF h, of x ASYNC] by simp
  then have "x \<noteq> NULL" using queue_repD(4,6) [OF sio_heldD(1) [OF h]] by blast
  moreover have "sio_expired_request ASYNC q = Some x"
    using w sio_heldD(3,6) [OF h, of ASYNC] by (simp add: sio_expired_request_def)
  ultimately show "sio_choose_expired_request q = Some x"
    using sio_expired_request_rep [OF h, of SYNC] by (auto simp: sio_choose_expired_request_def)
qed

lemma sio_dispatch_waits:
  assumes h: "held sio_inv q X S w R" and x: "waits x q w"
  shows "\<exists>q' w' n. sio_dispatch_requests force q = Some (True, q') \<and> held sio_inv q' X S w' (R - {n}) \<and> queue_head q' = queue_head q \<and>
    sd_fifo_batch (elevator_data q') = sd_fifo_batch (elevator_data q) \<and> last (w' (queue_head q)) = n \<and> w' (queue_head q) \<noteq> [] \<and>
    (n = x \<or> sd_batched (elevator_data q) \<le> sd_fifo_batch (elevator_data q) \<and> waits x q' w' \<and>
       sd_batched (elevator_data q') = sd_batched (elevator_data q) + 1)"
proof -
  let ?b = "sd_batched (elevator_data q) > sd_fifo_batch (elevator_data q)"
  define q0 where "q0 = (if ?b then q\<lparr>elevator_data := (elevator_data q)\<lparr>sd_batched := 0\<rparr>\<rparr> else q)"
  have h0: "held sio_inv q0 X S w R" using h by (simp add: q0_def)
  have x0: "waits x q0 w" using x by (simp add: q0_def waits_def)
  note E = sio_expired_waits [OF h0 x0]
  obtain y where y: "sio_choose_request q0 = Some y" "y \<in> R" using sio_choose_request_rep [OF h0] E(2) by (auto split: if_splits)
  define n where "n = (if ?b then x else y)"
  have n: "n \<in> R" using E(2) y(2) by (simp add: n_def)
  then have n0: "n \<noteq> NULL" using queue_repD(4,6) [OF sio_heldD(1) [OF h]] by blast
  obtain q' where q': "sio_dispatch_request n q0 = Some q'"
    "held sio_inv q' X S ((wo n w)(queue_head q0 := w (queue_head q0) @ [n])) (R - {n})" "same_queue q0 q'"
    "\<forall>z. z \<noteq> n \<longrightarrow> q_reqs q' z = q_reqs q0 z"
    "elevator_data q' = (elevator_data q0)\<lparr>sd_batched := sd_batched (elevator_data q0) + 1\<rparr>"
    using sio_dispatch_request_gives [OF h0 n] by blast
  let ?w = "(wo n w)(queue_head q := w (queue_head q) @ [n])"
  have e: "queue_head q0 = queue_head q" "jiffies q' = jiffies q" "queue_head q' = queue_head q" "q_reqs q0 = q_reqs q"
    using q'(3) by (auto simp: q0_def same_queue_def)
  have d: "sio_dispatch_requests force q = Some (True, q')"
    using E(1) y(1) q'(1) n0 by (auto simp: sio_dispatch_requests_def q0_def n_def split: if_splits)
  have l: "sd_fifo_list (elevator_data q') = sd_fifo_list (elevator_data q)" "sd_fifo_batch (elevator_data q') = sd_fifo_batch (elevator_data q)"
    using q'(5) by (auto simp: q0_def)
  have "sd_fifo_list (elevator_data q) ASYNC \<noteq> queue_head q"
    using sio_heldD(2) [OF h, of ASYNC] lists_repD(2) [OF queue_repD(1) [OF sio_heldD(1) [OF h]]] by auto
  then have "waits x q' ?w" if "n \<noteq> x" using that x q'(4) e l by (auto simp: waits_def wo_def)
  moreover have "\<not> ?b" "sd_batched (elevator_data q') = sd_batched (elevator_data q) + 1" if "n \<noteq> x"
    using that q'(5) by (auto simp: n_def q0_def split: if_splits)
  ultimately show ?thesis using d q'(2) e l by (intro exI [of _ q'] exI [of _ ?w] exI [of _ n]) auto
qed

fun sio_run :: "nat \<Rightarrow> bool \<Rightarrow> sio_data request_queue \<Rightarrow> sio_data request_queue option" where
  "sio_run 0 force q = Some q"
| "sio_run (Suc k) force q = do { (_, q) \<leftarrow> sio_dispatch_requests force q; sio_run k force q }"

text \<open>
  C12: the simple I/O scheduler starves no request: an asynchronous request at the head of its list whose time is over is on the dispatch
  queue after at most \<open>fifo_batch + 2\<close> calls of the dispatch routine, however many synchronous requests wait before it.
\<close>

theorem sio_no_starvation:
  assumes "held sio_inv q X S w R" "w (sd_fifo_list (elevator_data q) ASYNC) = x # xs" "q_reqs q x = Some r"
    "time_after (jiffies q) (fifo_time r)" "sd_fifo_batch (elevator_data q) \<noteq> - 1"
  shows "\<exists>k q' w' R'. k \<le> unat (sd_fifo_batch (elevator_data q)) + 2 \<and> sio_run k force q = Some q' \<and> held sio_inv q' X S w' R' \<and>
    x \<in> set (w' (queue_head q'))"
proof -
  have fb: "unat fb < 2 ^ 32 - 1" if "fb \<noteq> - 1" for fb :: u32
  proof -
    have "unat fb \<noteq> 2 ^ 32 - 1" using that by (simp add: word_unat_eq_iff unsigned_minus_1_eq_mask mask_eq_exp_minus_1)
    moreover have "unat fb < 2 ^ 32" using unsigned_less [of fb] by simp
    ultimately show ?thesis by linarith
  qed
  have "\<exists>k q' w' R'. k \<le> (unat (sd_fifo_batch (elevator_data q)) + 1 - unat (sd_batched (elevator_data q))) + 1 \<and>
      sio_run k force q = Some q' \<and> held sio_inv q' X S w' R' \<and> x \<in> set (w' (queue_head q'))"
    if "held sio_inv q X S w R" "waits x q w" "sd_fifo_batch (elevator_data q) \<noteq> - 1" for q w R
    using that
  proof (induction "unat (sd_fifo_batch (elevator_data q)) + 1 - unat (sd_batched (elevator_data q))" arbitrary: q w R rule: less_induct)
    case less
    let ?fb = "sd_fifo_batch (elevator_data q)" and ?b = "sd_batched (elevator_data q)"
    from sio_dispatch_waits [OF less.prems(1,2), of force] obtain q' w' n where
      q': "sio_dispatch_requests force q = Some (True, q')" "held sio_inv q' X S w' (R - {n})" "queue_head q' = queue_head q"
        "sd_fifo_batch (elevator_data q') = ?fb" "last (w' (queue_head q)) = n" "w' (queue_head q) \<noteq> []"
        "n = x \<or> ?b \<le> ?fb \<and> waits x q' w' \<and> sd_batched (elevator_data q') = ?b + 1" by blast
    show ?case
    proof (cases "n = x")
      case True
      then have "x \<in> set (w' (queue_head q'))" using q'(3,5,6) last_in_set by fastforce
      then show ?thesis using q'(1,2) by (intro exI [of _ 1] exI [of _ q'] exI [of _ w'] exI [of _ "R - {n}"]) simp
    next
      case False
      then have w: "?b \<le> ?fb" "waits x q' w'" "sd_batched (elevator_data q') = ?b + 1" using q'(7) by auto
      then have b: "unat (?b + 1) = unat ?b + 1" "unat ?b \<le> unat ?fb"
        using fb [OF less.prems(3)] by (simp_all add: word_le_nat_alt unat_word_ariths)
      have "unat (sd_fifo_batch (elevator_data q')) + 1 - unat (sd_batched (elevator_data q')) < unat ?fb + 1 - unat ?b"
        using b w(3) q'(4) by simp
      from less.hyps [OF this q'(2) w(2)] less.prems(3) q'(4) obtain k q'' w'' R'' where
        k: "k \<le> (unat ?fb + 1 - unat (?b + 1)) + 1" "sio_run k force q' = Some q''" "held sio_inv q'' X S w'' R''" "x \<in> set (w'' (queue_head q''))"
        using w(3) by auto
      then have "Suc k \<le> (unat ?fb + 1 - unat ?b) + 1" "sio_run (Suc k) force q = Some q''" using b q'(1) by auto
      then show ?thesis using k(3,4) by blast
    qed
  qed
  moreover have "waits x q w" using assms(2-4) by (simp add: waits_def)
  ultimately obtain k q' w' R' where k: "k \<le> (unat (sd_fifo_batch (elevator_data q)) + 1 - unat (sd_batched (elevator_data q))) + 1"
      "sio_run k force q = Some q'" "held sio_inv q' X S w' R'" "x \<in> set (w' (queue_head q'))" using assms(1,5) by blast
  then have "k \<le> unat (sd_fifo_batch (elevator_data q)) + 2" by simp
  then show ?thesis using k by blast
qed

lemma sio_stock_async: "\<exists>q r. sched_rep sio_inv q {0x4000} [] {0x4000} \<and> q_reqs q 0x4000 = Some r \<and> \<not> rq_is_sync r"
proof -
  let ?e = "example_rq\<lparr>cmd_flags := 1\<rparr>"
  have f: "blk_fs_request ?e" by (simp add: example_rq_def blk_fs_request_def REQ_TYPE_FS_def)
  from sio_type.stocked [OF blank_blank_queue, of "0x2000" "0x4000" ?e] f obtain q r where
    q: "sched_rep sio_inv q {0x4000} [] {0x4000}" "q_reqs q 0x4000 = Some r" "untimed (Some r) = untimed (Some (set_flag REQ_SORTED ?e))"
    by (auto simp: aligned4_def)
  then have "cmd_flags r = 1 OR REQ_SORTED" by (cases r) (simp add: untimed_def example_rq_def set_flag_def)
  then have "\<not> rq_is_sync r" by (simp add: rq_is_sync_def rw_is_sync_def REQ_SORTED_def REQ_RW_def REQ_RW_SYNC_def)
  then show ?thesis using q by blast
qed

theorem sio_no_starvation_witness:
  "\<exists>q k q' S w' R'. sd_fifo_batch (elevator_data q) = 1 \<and> k \<le> 3 \<and> sio_run k False q = Some q' \<and> held sio_inv q' {0x4000} S w' R' \<and>
     0x4000 \<in> set (w' (queue_head q'))"
proof -
  from sio_stock_async obtain q r where q: "sched_rep sio_inv q {0x4000} [] {0x4000}" "q_reqs q 0x4000 = Some r" "\<not> rq_is_sync r" by blast
  then obtain S w where h: "held sio_inv q {0x4000} S w {0x4000}" by (auto simp: sched_rep_def)
  let ?a = "sd_fifo_list (elevator_data q)"
  have sub: "set (w (?a b)) \<subseteq> {0x4000}" for b using sio_heldD(5) [OF h] by blast
  have "0x4000 \<notin> set (w (?a SYNC))" using sio_heldD(5) [OF h, of "0x4000" SYNC] q(2,3) by auto
  then have "w (?a SYNC) = []" using sub [of SYNC] by (cases "w (?a SYNC)") auto
  then have "w (?a ASYNC) \<noteq> []" using sio_heldD(4) [OF h] by (metis (full_types) insert_not_empty)
  moreover have "distinct (w (?a ASYNC))"
    using lists_distinct [OF queue_repD(1) [OF sio_heldD(1) [OF h]]] sio_heldD(2) [OF h, of ASYNC] by blast
  ultimately have w: "w (?a ASYNC) = 0x4000 # []" using sub [of ASYNC] by (cases "w (?a ASYNC)"; cases "tl (w (?a ASYNC))") auto
  let ?q = "q\<lparr>elevator_data := (elevator_data q)\<lparr>sd_fifo_batch := 1\<rparr>, jiffies := fifo_time r + 1\<rparr>"
  have "queue_rep ?q {0x4000} S w {0x4000} = queue_rep q {0x4000} S w {0x4000}" by (simp add: queue_rep_def)
  moreover have "sio_inv (elevator_data ?q) (q_nodes q) (q_reqs q) S w {0x4000} = sio_inv (elevator_data q) (q_nodes q) (q_reqs q) S w {0x4000}"
    by (simp add: sio_inv_def)
  ultimately have "held sio_inv ?q {0x4000} S w {0x4000}" using h by (simp add: held_def)
  moreover have "time_after (jiffies ?q) (fifo_time r)" by (simp add: time_after_def)
  ultimately have "\<exists>k q' w' R'. k \<le> unat (sd_fifo_batch (elevator_data ?q)) + 2 \<and> sio_run k False ?q = Some q' \<and> held sio_inv q' {0x4000} S w' R' \<and>
    0x4000 \<in> set (w' (queue_head q'))" using w q(2) by (intro sio_no_starvation [where w = w and R = "{0x4000}" and xs = "[]" and r = r]) simp_all
  then obtain k q' w' R' where k: "k \<le> unat (sd_fifo_batch (elevator_data ?q)) + 2" "sio_run k False ?q = Some q'"
    "held sio_inv q' {0x4000} S w' R'" "0x4000 \<in> set (w' (queue_head q'))" by blast
  moreover have "sd_fifo_batch (elevator_data ?q) = 1" "k \<le> 3" using k(1) by simp_all
  ultimately show ?thesis by blast
qed

text \<open>
  C39: when the head of the disk moves forward, the V(R) scheduler compares the remainder of the distance to the next request by the penalty, and
  not the distance divided by it: a next request whose distance is a multiple of the penalty is preferred to the previous one,
  however far away it is and however near the other one.
\<close>

theorem vr_penalty_remainder:
  assumes "vd_head_dir (elevator_data q) = FORWARD" "vd_rev_penalty (elevator_data q) = p" "p \<noteq> 0"
    "vd_next_rq (elevator_data q) = a" "vd_prev_rq (elevator_data q) = b" "a \<noteq> b" "a \<noteq> NULL" "b \<noteq> NULL"
    "q_reqs q a = Some n" "q_reqs q b = Some m" "(blk_rq_pos n - vd_last_sector (elevator_data q)) mod ucast p = 0"
  shows "vr_choose_request q = Some a"
  using assms by (simp add: vr_choose_request_def do_div_value_def Let_def)

theorem vr_penalty_remainder_witness:
  "vr_choose_request (elevator_attach (q_hash blank_queue) \<lparr>vd_sort_list = NULL, vd_fifo_list = \<lambda>_. 0x2000, vd_next_rq = 0x4000, vd_prev_rq = 0x5000,
      vd_nbatched = 0, vd_last_sector = 100, vd_head_dir = FORWARD, vd_fifo_expire = \<lambda>_. 5, vd_fifo_batch = 8, vd_rev_penalty = 10\<rparr>
     (blank_queue\<lparr>q_reqs := [0x4000 \<mapsto> example_rq\<lparr>sector := 1000100\<rparr>, 0x5000 \<mapsto> example_rq\<lparr>sector := 99\<rparr>]\<rparr>)) = Some 0x4000"
  by (rule vr_penalty_remainder [where b = "0x5000" and p = 10 and n = "example_rq\<lparr>sector := 1000100\<rparr>" and m = "example_rq\<lparr>sector := 99\<rparr>"])
    (simp_all add: elevator_attach_def blk_rq_pos_def)

text \<open>
  C19: a request that has been added to the merge hash is found there by the sector behind its end: the search returns a request that can be
  merged and ends at this sector, and it is the new one unless another one ends there too.  After the request has been taken
  out again, the hash holds what it held before.
\<close>

theorem rqhash_roundtrip:
  assumes "keyed q B X" "n \<in> X" "n \<notin> hashed B" "q_reqs q n = Some r" "rq_mergeable r"
  shows "\<exists>q1 B1 x q2 q3 B3. elv_rqhash_add n q = Some q1 \<and> keyed q1 B1 X \<and> elv_rqhash_find (rq_hash_key r) q1 = Some (x, q2) \<and>
    x \<in> insert n (hashed B) \<and> mergeable (q_reqs q) x \<and> key_of (q_reqs q) x = rq_hash_key r \<and>
    (x = n \<or> (\<exists>y\<in>hashed B. key_of (q_reqs q) y = rq_hash_key r)) \<and>
    elv_rqhash_del n q1 = Some q3 \<and> keyed q3 B3 X \<and> hashed B3 = hashed B"
proof -
  from elv_rqhash_add_keyed [OF assms(1-3)] obtain q1 B1 where
    q1: "elv_rqhash_add n q = Some q1" "keyed q1 B1 X" "hashed B1 = insert n (hashed B)" "q_reqs q1 = q_reqs q" by blast
  have m: "mergeable (q_reqs q1) n" "key_of (q_reqs q1) n = rq_hash_key r" using assms(4,5) q1(4) by (simp_all add: mergeable_def key_of_def)
  from elv_rqhash_find_keyed [OF q1(2), of "rq_hash_key r"] q1(3) m obtain x q2 B2 where
    x: "elv_rqhash_find (rq_hash_key r) q1 = Some (x, q2)" "hashed B2 \<subseteq> hashed B1" "x \<in> hashed B2" "mergeable (q_reqs q1) x"
      "key_of (q_reqs q1) x = rq_hash_key r" by (auto split: if_splits)
  from elv_rqhash_del_keyed [OF q1(2) assms(2)] obtain q3 B3 where
    q3: "elv_rqhash_del n q1 = Some q3" "keyed q3 B3 X" "hashed B3 = hashed B1 - {n}" by blast
  have "hashed B3 = hashed B" using q3(3) q1(3) assms(3) by auto
  moreover have "x \<in> insert n (hashed B)" using x(2,3) q1(3) by auto
  ultimately show ?thesis using q1(1,2,4) x(1,4,5) q3(1,2) by auto
qed

theorem rqhash_roundtrip_witness:
  "\<exists>(q :: unit request_queue) q1 q2. elv_rqhash_add 0x4000 q = Some q1 \<and> elv_rqhash_find 16 q1 = Some (0x4000, q2)"
proof -
  let ?q = "blank_queue\<lparr>q_hash := \<lparr>firsts = \<lambda>_. NULL, hnodes = \<lambda>_. Some \<lparr>hl_next = NULL, hl_pprev = HNull\<rparr>\<rparr>,
    q_reqs := \<lambda>_. Some example_rq\<rparr>"
  have "keyed ?q (\<lambda>_. []) {0x4000}" by (auto simp: keyed_def hash_rep_def refs_def pprevs_def read_ref_def get_pprev_def)
  moreover have "hashed (\<lambda>_. []) = {}" by (simp add: hashed_def)
  moreover have "rq_mergeable example_rq" "rq_hash_key example_rq = 16"
    by (simp_all add: rq_mergeable_def has_flag_def example_rq_def blk_fs_request_def REQ_TYPE_FS_def rq_hash_key_def
        blk_rq_pos_def blk_rq_sectors_def blk_rq_bytes_def)
  ultimately obtain q1 x q2 where "elv_rqhash_add 0x4000 ?q = Some q1" "elv_rqhash_find 16 q1 = Some (x, q2)" "x \<in> insert 0x4000 {}"
    using rqhash_roundtrip [of ?q "\<lambda>_. []" "{0x4000}" "0x4000" example_rq] by (simp del: elv_rqhash_find_loop.simps) blast
  moreover from this have "x = 0x4000" by simp
  ultimately show ?thesis by (simp only:) blast
qed

text \<open>
  C20: the sizes fit: every sector hashes to one of the 64 chains that \<open>elevator_alloc\<close> makes, and the comparison of times is right
  across the wrap-around of the clock as long as the times are less than half of its range apart.
\<close>

theorem hash_and_time_bounds:
  assumes "0 < d" "d < 2 ^ 31"
  shows "ELV_HASH_FN sec < ELV_HASH_ENTRIES \<and> time_after (t + of_nat d) t \<and> \<not> time_after t (t + of_nat d) \<and> time_before t (t + of_nat d)"
proof -
  have "ELV_HASH_FN sec < ELV_HASH_ENTRIES"
  proof -
    have "unat (drop_bit 26 v) < 64" for v :: u32
    proof -
      have "unat v < 2 ^ 32" using unsigned_less [of v] by simp
      moreover have "unat (drop_bit 26 v) = drop_bit 26 (unat v)" by (rule unat_drop_bit_eq)
      moreover have "drop_bit 26 (unat v) = unat v div 2 ^ 26" by (rule drop_bit_eq_div)
      ultimately show ?thesis by simp
    qed
    then show ?thesis by (simp add: ELV_HASH_FN_def hash_32_def elv_hash_shift_def ELV_HASH_ENTRIES_def word_less_nat_alt)
  qed
  moreover have i: "sint (word_of_int k :: u32) = k" if "- (2 ^ 31) \<le> k" "k < 2 ^ 31" for k
    using that by (simp add: signed_of_int signed_take_bit_int_eq_self)
  moreover have "sint (of_nat d :: u32) = int d" using i [of "int d"] assms by simp
  moreover have "sint (- of_nat d :: u32) = - int d" using i [of "- int d"] assms by simp
  ultimately show ?thesis using assms by (simp add: time_after_def time_before_def)
qed

theorem hash_and_time_bounds_witness: "ELV_HASH_FN 12345 < ELV_HASH_ENTRIES \<and> time_after (- 1 + of_nat 5) (- 1)"
  using hash_and_time_bounds [of 5 12345 "- 1"] by simp

text \<open>
  C21: cutting a list after one of its entries and splicing the piece in again gives back the list, and the head that held the piece
  is empty again; in between, the two heads hold the two parts in order.
\<close>

theorem list_cut_splice:
  assumes "rings h H w" "a \<in> H" "w a = xs @ e # ys" "l \<in> H" "w l = []" "l \<noteq> a"
  shows "\<exists>h1 h2. list_cut_position l a e h = Some h1 \<and> rings h1 H (w(a := ys, l := xs @ [e])) \<and>
    list_splice_init l a h1 = Some h2 \<and> rings h2 H w"
proof -
  from rings_cut_position [OF assms] obtain h1 where
    h1: "list_cut_position l a e h = Some h1" "rings h1 H (w(a := ys, l := xs @ [e]))" by blast
  from rings_splice(1) [OF h1(2) assms(2,4,6)] obtain h2 where h2: "list_splice_init l a h1 = Some h2"
    "rings h2 H ((w(a := ys, l := xs @ [e]))(a := (w(a := ys, l := xs @ [e])) l @ (w(a := ys, l := xs @ [e])) a, l := []))" by blast
  have "(w(a := ys, l := xs @ [e]))(a := (w(a := ys, l := xs @ [e])) l @ (w(a := ys, l := xs @ [e])) a, l := []) = w"
    using assms(3,5,6) by (auto simp: fun_eq_iff)
  then show ?thesis using h1 h2 by auto
qed

theorem list_cut_splice_witness:
  "\<exists>h w h1 h2. w 0x10 = [0x30] \<and> rings h {0x10, 0x20} w \<and> list_cut_position 0x20 0x10 0x30 h = Some h1 \<and>
     list_splice_init 0x20 0x10 h1 = Some h2 \<and> rings h2 {0x10, 0x20} w"
proof -
  let ?h = "(\<lambda>_. Some \<lparr>list_next = NULL, list_prev = NULL\<rparr>) :: list_heap"
  have "rings ?h {} (\<lambda>_. [])" by (simp add: rings_def)
  from rings_init [OF this, of "0x10"] obtain h1 where h1: "rings h1 {0x10} (\<lambda>_. [])" "dom h1 = UNIV" by auto
  from rings_init_two [OF h1(1), of "0x20" "0x30"] h1(2) obtain h2 where h2: "rings h2 {0x10, 0x20, 0x30} (\<lambda>_. [])" by auto
  from rings_add(1) [OF h2, of "0x10" "[]" "[]" "0x30"] obtain h3 where
    "rings h3 ({0x10, 0x20, 0x30} - {0x30}) ((\<lambda>_. [])(0x10 := [0x30]))" by auto
  moreover have "{0x10, 0x20, 0x30} - {0x30} = {0x10, 0x20 :: addr}" by auto
  ultimately have r: "rings h3 {0x10, 0x20} ((\<lambda>_. [])(0x10 := [0x30]))" by simp
  have w: "((\<lambda>_. [])(0x10 := [0x30])) 0x10 = [] @ 0x30 # ([] :: addr list)" "((\<lambda>_. [])(0x10 := [0x30 :: addr])) (0x20 :: addr) = []"
    "(0x20 :: addr) \<noteq> 0x10" by simp_all
  have "((\<lambda>_. [])(0x10 := [0x30])) 0x10 = [0x30 :: addr]" by simp
  with list_cut_splice [OF r _ w(1) _ w(2,3)] r show ?thesis by blast
qed

end
