(* ===== verification/Ctype.thy ===== *)
theory Ctype
  imports Kernel_Prelude
begin

text \<open>
  The character classes of \<open>lib/ctype.c\<close> and \<open>include/linux/ctype.h\<close>.  A \<open>char\<close> is unsigned on ARM, so it is a byte.
  The table and the tests are as in the source; the facts on them are checked for all 256 characters.
\<close>

section \<open>Classes\<close>

definition CT_U :: u8 where "CT_U = 0x01"
definition CT_L :: u8 where "CT_L = 0x02"
definition CT_D :: u8 where "CT_D = 0x04"
definition CT_C :: u8 where "CT_C = 0x08"
definition CT_P :: u8 where "CT_P = 0x10"
definition CT_S :: u8 where "CT_S = 0x20"
definition CT_X :: u8 where "CT_X = 0x40"
definition CT_SP :: u8 where "CT_SP = 0x80"

definition ctype :: "u8 list" where
  "ctype = [
     CT_C, CT_C, CT_C, CT_C, CT_C, CT_C, CT_C, CT_C,
     CT_C, CT_C OR CT_S, CT_C OR CT_S, CT_C OR CT_S, CT_C OR CT_S, CT_C OR CT_S, CT_C, CT_C,
     CT_C, CT_C, CT_C, CT_C, CT_C, CT_C, CT_C, CT_C,
     CT_C, CT_C, CT_C, CT_C, CT_C, CT_C, CT_C, CT_C,
     CT_S OR CT_SP, CT_P, CT_P, CT_P, CT_P, CT_P, CT_P, CT_P,
     CT_P, CT_P, CT_P, CT_P, CT_P, CT_P, CT_P, CT_P,
     CT_D, CT_D, CT_D, CT_D, CT_D, CT_D, CT_D, CT_D,
     CT_D, CT_D, CT_P, CT_P, CT_P, CT_P, CT_P, CT_P,
     CT_P, CT_U OR CT_X, CT_U OR CT_X, CT_U OR CT_X, CT_U OR CT_X, CT_U OR CT_X, CT_U OR CT_X, CT_U,
     CT_U, CT_U, CT_U, CT_U, CT_U, CT_U, CT_U, CT_U,
     CT_U, CT_U, CT_U, CT_U, CT_U, CT_U, CT_U, CT_U,
     CT_U, CT_U, CT_U, CT_P, CT_P, CT_P, CT_P, CT_P,
     CT_P, CT_L OR CT_X, CT_L OR CT_X, CT_L OR CT_X, CT_L OR CT_X, CT_L OR CT_X, CT_L OR CT_X, CT_L,
     CT_L, CT_L, CT_L, CT_L, CT_L, CT_L, CT_L, CT_L,
     CT_L, CT_L, CT_L, CT_L, CT_L, CT_L, CT_L, CT_L,
     CT_L, CT_L, CT_L, CT_P, CT_P, CT_P, CT_P, CT_C,
     0, 0, 0, 0, 0, 0, 0, 0, 0, 0, 0, 0, 0, 0, 0, 0,
     0, 0, 0, 0, 0, 0, 0, 0, 0, 0, 0, 0, 0, 0, 0, 0,
     CT_S OR CT_SP, CT_P, CT_P, CT_P, CT_P, CT_P, CT_P, CT_P, CT_P, CT_P, CT_P, CT_P, CT_P, CT_P, CT_P, CT_P,
     CT_P, CT_P, CT_P, CT_P, CT_P, CT_P, CT_P, CT_P, CT_P, CT_P, CT_P, CT_P, CT_P, CT_P, CT_P, CT_P,
     CT_U, CT_U, CT_U, CT_U, CT_U, CT_U, CT_U, CT_U, CT_U, CT_U, CT_U, CT_U, CT_U, CT_U, CT_U, CT_U,
     CT_U, CT_U, CT_U, CT_U, CT_U, CT_U, CT_U, CT_P, CT_U, CT_U, CT_U, CT_U, CT_U, CT_U, CT_U, CT_L,
     CT_L, CT_L, CT_L, CT_L, CT_L, CT_L, CT_L, CT_L, CT_L, CT_L, CT_L, CT_L, CT_L, CT_L, CT_L, CT_L,
     CT_L, CT_L, CT_L, CT_L, CT_L, CT_L, CT_L, CT_P, CT_L, CT_L, CT_L, CT_L, CT_L, CT_L, CT_L, CT_L]"

definition ismask :: "u8 \<Rightarrow> u8" where "ismask x = ctype ! unat x"

definition isalnum :: "u8 \<Rightarrow> bool" where "isalnum c \<longleftrightarrow> ismask c AND (CT_U OR CT_L OR CT_D) \<noteq> 0"
definition isalpha :: "u8 \<Rightarrow> bool" where "isalpha c \<longleftrightarrow> ismask c AND (CT_U OR CT_L) \<noteq> 0"
definition iscntrl :: "u8 \<Rightarrow> bool" where "iscntrl c \<longleftrightarrow> ismask c AND CT_C \<noteq> 0"
definition isdigit :: "u8 \<Rightarrow> bool" where "isdigit c \<longleftrightarrow> ismask c AND CT_D \<noteq> 0"
definition isgraph :: "u8 \<Rightarrow> bool" where "isgraph c \<longleftrightarrow> ismask c AND (CT_P OR CT_U OR CT_L OR CT_D) \<noteq> 0"
definition islower :: "u8 \<Rightarrow> bool" where "islower c \<longleftrightarrow> ismask c AND CT_L \<noteq> 0"
definition isprint :: "u8 \<Rightarrow> bool" where "isprint c \<longleftrightarrow> ismask c AND (CT_P OR CT_U OR CT_L OR CT_D OR CT_SP) \<noteq> 0"
definition ispunct :: "u8 \<Rightarrow> bool" where "ispunct c \<longleftrightarrow> ismask c AND CT_P \<noteq> 0"
definition isspace :: "u8 \<Rightarrow> bool" where "isspace c \<longleftrightarrow> ismask c AND CT_S \<noteq> 0"
definition isupper :: "u8 \<Rightarrow> bool" where "isupper c \<longleftrightarrow> ismask c AND CT_U \<noteq> 0"
definition isxdigit :: "u8 \<Rightarrow> bool" where "isxdigit c \<longleftrightarrow> ismask c AND (CT_D OR CT_X) \<noteq> 0"

definition isascii :: "u8 \<Rightarrow> bool" where "isascii c \<longleftrightarrow> c \<le> 0x7f"
definition toascii :: "u8 \<Rightarrow> u8" where "toascii c = c AND 0x7f"

definition tolower :: "u8 \<Rightarrow> u8" where
  "tolower c = (if isupper c then c - (0x41 - 0x61) else c)"

definition toupper :: "u8 \<Rightarrow> u8" where
  "toupper c = (if islower c then c - (0x61 - 0x41) else c)"

section \<open>All characters\<close>

lemmas class_defs = CT_U_def CT_L_def CT_D_def CT_C_def CT_P_def CT_S_def CT_X_def CT_SP_def
lemmas test_defs = isalnum_def isalpha_def iscntrl_def isdigit_def isgraph_def islower_def isprint_def ispunct_def isspace_def
  isupper_def isxdigit_def

lemma length_ctype: "length ctype = 256"
  by (simp add: ctype_def)

text \<open>The masks that occur, and where a capital letter has its small one.\<close>

lemma set_ctype: "set ctype = {CT_C, CT_C OR CT_S, CT_S OR CT_SP, CT_P, CT_D, CT_U OR CT_X, CT_U, CT_L OR CT_X, CT_L, 0}"
  unfolding ctype_def list.set insert_absorb2 by auto

lemma ctype_cases: "list_all2 (\<lambda>k l. k AND CT_U \<noteq> 0 \<longrightarrow> l AND CT_L \<noteq> 0) (take 224 ctype) (drop 32 ctype)"
  by (simp add: ctype_def class_defs)

lemma ctype_last: "list_all (\<lambda>k. k AND CT_U = 0) (drop 224 ctype)"
  by (simp add: ctype_def class_defs)

lemma unat_u8: "unat (c :: u8) < 256"
  using unsigned_less [of c] by simp

lemma ismask_in: "ismask c \<in> set ctype"
  using unat_u8 [of c] by (simp add: ismask_def length_ctype)

lemma ismask_cases: "ismask c \<in> {0x08, 0x28, 0xa0, 0x10, 0x04, 0x41, 0x01, 0x42, 0x02, 0}"
  using ismask_in [of c] unfolding set_ctype by (simp add: class_defs)

lemma isupper_less: "isupper c \<Longrightarrow> unat c < 224"
proof (rule ccontr)
  assume "isupper c" "\<not> unat c < 224"
  moreover have "unat c < 256" by (rule unat_u8)
  ultimately have "ismask c = drop 224 ctype ! (unat c - 224)" "unat c - 224 < length (drop 224 ctype)"
    by (simp_all add: ismask_def length_ctype)
  with ctype_last \<open>isupper c\<close> show False by (simp add: list_all_length isupper_def)
qed

lemma islower_tolower: "isupper c \<Longrightarrow> islower (tolower c)"
proof -
  assume u: "isupper c"
  have l: "unat c < 224" by (rule isupper_less [OF u])
  have "unat (c + 32) = unat c + 32" using l by (simp add: unat_word_ariths)
  moreover have "ctype ! unat c = take 224 ctype ! unat c" "ctype ! (unat c + 32) = drop 32 ctype ! unat c"
    using l by (simp_all add: length_ctype add.commute)
  ultimately show ?thesis using u list_all2_nthD [OF ctype_cases, of "unat c"] l
    by (simp add: isupper_def islower_def tolower_def ismask_def length_ctype)
qed

lemma isspace_NUL: "\<not> isspace 0"
  by (simp add: isspace_def ismask_def ctype_def class_defs)

lemma tolower_NUL [simp]: "tolower c = 0 \<longleftrightarrow> c = 0"
proof
  assume "tolower c = 0"
  then have "c = - 32" if "isupper c" using that by (simp add: tolower_def eq_neg_iff_add_eq_0)
  then show "c = 0" using isupper_less [of c] \<open>tolower c = 0\<close> by (cases "isupper c") (auto simp: tolower_def)
qed (simp add: tolower_def isupper_def ismask_def ctype_def class_defs)

lemma upper_not_lower: "isupper c \<Longrightarrow> \<not> islower c"
  using ismask_cases [of c] by (auto simp: isupper_def islower_def class_defs)

lemma isalpha_iff: "isalpha c \<longleftrightarrow> isupper c \<or> islower c"
  using ismask_cases [of c] by (auto simp: isupper_def islower_def isalpha_def class_defs)

lemma isupper_tolower: "\<not> isupper (tolower c)"
  using islower_tolower [of c] upper_not_lower [of "tolower c"] by (auto simp: tolower_def)



end
