(* ===== verification/Memcopy.thy ===== *)
theory Memcopy
  imports Kernel_Prelude
begin

text \<open>
  The block copy routines of \<open>lib/memcopy.c\<close> and \<open>include/linux/memcopy.h\<close>: byte loops, and
  unrolled word loops that are entered in the middle and keep one or two words in registers
  ahead of what they write.  Memory is a partial map of bytes; an access to a byte that is not mapped and a word
  access to an address that is not a multiple of four are faults.
\<close>

section \<open>Bytes and words\<close>

type_synonym mem = "addr \<rightharpoonup> u8"

definition OPSIZ :: u32 where "OPSIZ = 4"
definition OP_T_THRESHOLD :: u32 where "OP_T_THRESHOLD = 16"

definition store_byte :: "addr \<Rightarrow> u8 \<Rightarrow> mem \<Rightarrow> mem option" where
  "store_byte a v m = write_at a (\<lambda>_. v) m"

text \<open>The machine is little-endian: byte \<open>i\<close> of a word has the weight \<open>2 ^ (8 * i)\<close>.\<close>

definition byte_of :: "nat \<Rightarrow> u32 \<Rightarrow> u8" where
  "byte_of i w = ucast (drop_bit (8 * i) w)"

definition word_of :: "u8 \<Rightarrow> u8 \<Rightarrow> u8 \<Rightarrow> u8 \<Rightarrow> u32" where
  "word_of b0 b1 b2 b3 = ucast b0 OR push_bit 8 (ucast b1) OR push_bit 16 (ucast b2) OR push_bit 24 (ucast b3)"

definition load_op :: "addr \<Rightarrow> mem \<Rightarrow> u32 option" where
  "load_op a m = (if a mod OPSIZ = 0 then do {
       b0 \<leftarrow> m a; b1 \<leftarrow> m (a + 1); b2 \<leftarrow> m (a + 2); b3 \<leftarrow> m (a + 3);
       Some (word_of b0 b1 b2 b3) } else None)"

definition store_op :: "addr \<Rightarrow> u32 \<Rightarrow> mem \<Rightarrow> mem option" where
  "store_op a w m = (if a mod OPSIZ = 0 then do {
       m \<leftarrow> store_byte a (byte_of 0 w) m;
       m \<leftarrow> store_byte (a + 1) (byte_of 1 w) m;
       m \<leftarrow> store_byte (a + 2) (byte_of 2 w) m;
       store_byte (a + 3) (byte_of 3 w) m } else None)"

definition MERGE :: "u32 \<Rightarrow> u32 \<Rightarrow> u32 \<Rightarrow> u32 \<Rightarrow> u32" where
  "MERGE w0 sh_1 w1 sh_2 = drop_bit (unat sh_1) w0 OR push_bit (unat sh_2) w1"

section \<open>Byte loops\<close>

partial_function (option) BYTE_COPY_FWD :: "addr \<Rightarrow> addr \<Rightarrow> u32 \<Rightarrow> mem \<Rightarrow> (addr \<times> addr \<times> mem) option" where
  "BYTE_COPY_FWD dst src nbytes m =
     (if nbytes > 0 then do {
        x \<leftarrow> m src;
        m \<leftarrow> store_byte dst x m;
        BYTE_COPY_FWD (dst + 1) (src + 1) (nbytes - 1) m }
      else Some (dst, src, m))"

partial_function (option) BYTE_COPY_BWD :: "addr \<Rightarrow> addr \<Rightarrow> u32 \<Rightarrow> mem \<Rightarrow> (addr \<times> addr \<times> mem) option" where
  "BYTE_COPY_BWD dst src nbytes m =
     (if nbytes > 0 then do {
        x \<leftarrow> m (src - 1);
        m \<leftarrow> store_byte (dst - 1) x m;
        BYTE_COPY_BWD (dst - 1) (src - 1) (nbytes - 1) m }
      else Some (dst, src, m))"

section \<open>Word loops\<close>

text \<open>
  The local variables of a word loop and the memory.  The registers are not initialised in the
  source; a routine starts with arbitrary values in them.
\<close>

record copy_state =
  srcp :: addr
  dstp :: addr
  len :: u32
  a0 :: u32
  a1 :: u32
  a2 :: u32
  a3 :: u32
  cmem :: mem

text \<open>\<open>r = ((op_t *) srcp)[i]\<close> and \<open>((op_t *) dstp)[i] = v\<close>.\<close>

definition rd :: "((u32 \<Rightarrow> u32) \<Rightarrow> copy_state \<Rightarrow> copy_state) \<Rightarrow> u32 \<Rightarrow> copy_state \<Rightarrow> copy_state option" where
  "rd upd i s = do { w \<leftarrow> load_op (srcp s + OPSIZ * i) (cmem s); Some (upd (\<lambda>_. w) s) }"

definition wr :: "u32 \<Rightarrow> u32 \<Rightarrow> copy_state \<Rightarrow> copy_state option" where
  "wr i v s = do { m \<leftarrow> store_op (dstp s + OPSIZ * i) v (cmem s); Some (s\<lparr>cmem := m\<rparr>) }"

definition bump :: "u32 \<Rightarrow> u32 \<Rightarrow> u32 \<Rightarrow> copy_state \<Rightarrow> copy_state" where
  "bump ds dd dl s = s\<lparr>srcp := srcp s + ds, dstp := dstp s + dd, len := len s + dl\<rparr>"

subsection \<open>Forward, both aligned\<close>

text \<open>The labels of the unrolled loop; each falls through to the next one.\<close>

definition fwd_do1 :: "copy_state \<Rightarrow> copy_state option" where
  "fwd_do1 s = do { s \<leftarrow> rd a1_update 7 s; wr 7 (a0 s) s }"

definition fwd_do2 :: "copy_state \<Rightarrow> copy_state option" where
  "fwd_do2 s = do { s \<leftarrow> rd a0_update 6 s; s \<leftarrow> wr 6 (a1 s) s; fwd_do1 s }"

definition fwd_do3 :: "copy_state \<Rightarrow> copy_state option" where
  "fwd_do3 s = do { s \<leftarrow> rd a1_update 5 s; s \<leftarrow> wr 5 (a0 s) s; fwd_do2 s }"

definition fwd_do4 :: "copy_state \<Rightarrow> copy_state option" where
  "fwd_do4 s = do { s \<leftarrow> rd a0_update 4 s; s \<leftarrow> wr 4 (a1 s) s; fwd_do3 s }"

definition fwd_do5 :: "copy_state \<Rightarrow> copy_state option" where
  "fwd_do5 s = do { s \<leftarrow> rd a1_update 3 s; s \<leftarrow> wr 3 (a0 s) s; fwd_do4 s }"

definition fwd_do6 :: "copy_state \<Rightarrow> copy_state option" where
  "fwd_do6 s = do { s \<leftarrow> rd a0_update 2 s; s \<leftarrow> wr 2 (a1 s) s; fwd_do5 s }"

definition fwd_do7 :: "copy_state \<Rightarrow> copy_state option" where
  "fwd_do7 s = do { s \<leftarrow> rd a1_update 1 s; s \<leftarrow> wr 1 (a0 s) s; fwd_do6 s }"

definition fwd_do8 :: "copy_state \<Rightarrow> copy_state option" where
  "fwd_do8 s = do { s \<leftarrow> rd a0_update 0 s; s \<leftarrow> wr 0 (a1 s) s; fwd_do7 s }"

text \<open>The rest of a pass from the end of \<open>do1\<close>: the pointers advance and the loop goes on while \<open>len\<close> is not zero.\<close>

partial_function (option) fwd_loop :: "copy_state \<Rightarrow> copy_state option" where
  "fwd_loop s = (let s = bump (8 * OPSIZ) (8 * OPSIZ) (- 8) s in
     if len s \<noteq> 0 then do { s \<leftarrow> fwd_do8 s; fwd_loop s } else Some s)"

definition fwd_do0 :: "copy_state \<Rightarrow> copy_state option" where
  "fwd_do0 s = wr 0 (a1 s) s"

definition wordcopy_fwd_aligned :: "copy_state \<Rightarrow> copy_state option" where
  "wordcopy_fwd_aligned s = (let finish = (\<lambda>s. do { s \<leftarrow> fwd_loop s; fwd_do0 s }) in
     if len s mod 8 = 2 then do { s \<leftarrow> rd a0_update 0 s; s \<leftarrow> fwd_do1 (bump (- 6 * OPSIZ) (- 7 * OPSIZ) 6 s); finish s }
     else if len s mod 8 = 3 then do { s \<leftarrow> rd a1_update 0 s; s \<leftarrow> fwd_do2 (bump (- 5 * OPSIZ) (- 6 * OPSIZ) 5 s); finish s }
     else if len s mod 8 = 4 then do { s \<leftarrow> rd a0_update 0 s; s \<leftarrow> fwd_do3 (bump (- 4 * OPSIZ) (- 5 * OPSIZ) 4 s); finish s }
     else if len s mod 8 = 5 then do { s \<leftarrow> rd a1_update 0 s; s \<leftarrow> fwd_do4 (bump (- 3 * OPSIZ) (- 4 * OPSIZ) 3 s); finish s }
     else if len s mod 8 = 6 then do { s \<leftarrow> rd a0_update 0 s; s \<leftarrow> fwd_do5 (bump (- 2 * OPSIZ) (- 3 * OPSIZ) 2 s); finish s }
     else if len s mod 8 = 7 then do { s \<leftarrow> rd a1_update 0 s; s \<leftarrow> fwd_do6 (bump (- 1 * OPSIZ) (- 2 * OPSIZ) 1 s); finish s }
     else if len s mod 8 = 0 then
       (if OP_T_THRESHOLD \<le> 3 * OPSIZ \<and> len s = 0 then Some s
        else do { s \<leftarrow> rd a0_update 0 s; s \<leftarrow> fwd_do7 (bump 0 (- 1 * OPSIZ) 0 s); finish s })
     else do {
       s \<leftarrow> rd a1_update 0 s;
       let s = bump OPSIZ 0 (- 1) s;
       if OP_T_THRESHOLD \<le> 3 * OPSIZ \<and> len s = 0 then fwd_do0 s
       else do { s \<leftarrow> fwd_do8 s; finish s } })"

subsection \<open>Forward, destination aligned\<close>

text \<open>The shifts are computed once, from the source address before it is rounded down.\<close>

definition fwdm_do1 :: "u32 \<Rightarrow> u32 \<Rightarrow> copy_state \<Rightarrow> copy_state option" where
  "fwdm_do1 sh_1 sh_2 s = do { s \<leftarrow> rd a3_update 3 s; wr 3 (MERGE (a1 s) sh_1 (a2 s) sh_2) s }"

definition fwdm_do2 :: "u32 \<Rightarrow> u32 \<Rightarrow> copy_state \<Rightarrow> copy_state option" where
  "fwdm_do2 sh_1 sh_2 s = do { s \<leftarrow> rd a2_update 2 s; s \<leftarrow> wr 2 (MERGE (a0 s) sh_1 (a1 s) sh_2) s; fwdm_do1 sh_1 sh_2 s }"

definition fwdm_do3 :: "u32 \<Rightarrow> u32 \<Rightarrow> copy_state \<Rightarrow> copy_state option" where
  "fwdm_do3 sh_1 sh_2 s = do { s \<leftarrow> rd a1_update 1 s; s \<leftarrow> wr 1 (MERGE (a3 s) sh_1 (a0 s) sh_2) s; fwdm_do2 sh_1 sh_2 s }"

definition fwdm_do4 :: "u32 \<Rightarrow> u32 \<Rightarrow> copy_state \<Rightarrow> copy_state option" where
  "fwdm_do4 sh_1 sh_2 s = do { s \<leftarrow> rd a0_update 0 s; s \<leftarrow> wr 0 (MERGE (a2 s) sh_1 (a3 s) sh_2) s; fwdm_do3 sh_1 sh_2 s }"

partial_function (option) fwdm_loop :: "u32 \<Rightarrow> u32 \<Rightarrow> copy_state \<Rightarrow> copy_state option" where
  "fwdm_loop sh_1 sh_2 s = (let s = bump (4 * OPSIZ) (4 * OPSIZ) (- 4) s in
     if len s \<noteq> 0 then do { s \<leftarrow> fwdm_do4 sh_1 sh_2 s; fwdm_loop sh_1 sh_2 s } else Some s)"

definition fwdm_do0 :: "u32 \<Rightarrow> u32 \<Rightarrow> copy_state \<Rightarrow> copy_state option" where
  "fwdm_do0 sh_1 sh_2 s = wr 0 (MERGE (a2 s) sh_1 (a3 s) sh_2) s"

definition wordcopy_fwd_dest_aligned :: "copy_state \<Rightarrow> copy_state option" where
  "wordcopy_fwd_dest_aligned s = (
     let sh_1 = 8 * (srcp s mod OPSIZ);
         sh_2 = 8 * OPSIZ - sh_1;
         s = s\<lparr>srcp := srcp s AND - OPSIZ\<rparr>;
         finish = (\<lambda>s. do { s \<leftarrow> fwdm_loop sh_1 sh_2 s; fwdm_do0 sh_1 sh_2 s }) in
     if len s mod 4 = 2 then do {
       s \<leftarrow> rd a1_update 0 s; s \<leftarrow> rd a2_update 1 s;
       s \<leftarrow> fwdm_do1 sh_1 sh_2 (bump (- 1 * OPSIZ) (- 3 * OPSIZ) 2 s); finish s }
     else if len s mod 4 = 3 then do {
       s \<leftarrow> rd a0_update 0 s; s \<leftarrow> rd a1_update 1 s;
       s \<leftarrow> fwdm_do2 sh_1 sh_2 (bump 0 (- 2 * OPSIZ) 1 s); finish s }
     else if len s mod 4 = 0 then
       (if OP_T_THRESHOLD \<le> 3 * OPSIZ \<and> len s = 0 then Some s
        else do {
          s \<leftarrow> rd a3_update 0 s; s \<leftarrow> rd a0_update 1 s;
          s \<leftarrow> fwdm_do3 sh_1 sh_2 (bump OPSIZ (- 1 * OPSIZ) 0 s); finish s })
     else do {
       s \<leftarrow> rd a2_update 0 s; s \<leftarrow> rd a3_update 1 s;
       let s = bump (2 * OPSIZ) 0 (- 1) s;
       if OP_T_THRESHOLD \<le> 3 * OPSIZ \<and> len s = 0 then fwdm_do0 sh_1 sh_2 s
       else do { s \<leftarrow> fwdm_do4 sh_1 sh_2 s; finish s } })"

subsection \<open>Backward, both aligned\<close>

definition bwd_do1 :: "copy_state \<Rightarrow> copy_state option" where
  "bwd_do1 s = do { s \<leftarrow> rd a1_update 0 s; wr 0 (a0 s) s }"

definition bwd_do2 :: "copy_state \<Rightarrow> copy_state option" where
  "bwd_do2 s = do { s \<leftarrow> rd a0_update 1 s; s \<leftarrow> wr 1 (a1 s) s; bwd_do1 s }"

definition bwd_do3 :: "copy_state \<Rightarrow> copy_state option" where
  "bwd_do3 s = do { s \<leftarrow> rd a1_update 2 s; s \<leftarrow> wr 2 (a0 s) s; bwd_do2 s }"

definition bwd_do4 :: "copy_state \<Rightarrow> copy_state option" where
  "bwd_do4 s = do { s \<leftarrow> rd a0_update 3 s; s \<leftarrow> wr 3 (a1 s) s; bwd_do3 s }"

definition bwd_do5 :: "copy_state \<Rightarrow> copy_state option" where
  "bwd_do5 s = do { s \<leftarrow> rd a1_update 4 s; s \<leftarrow> wr 4 (a0 s) s; bwd_do4 s }"

definition bwd_do6 :: "copy_state \<Rightarrow> copy_state option" where
  "bwd_do6 s = do { s \<leftarrow> rd a0_update 5 s; s \<leftarrow> wr 5 (a1 s) s; bwd_do5 s }"

definition bwd_do7 :: "copy_state \<Rightarrow> copy_state option" where
  "bwd_do7 s = do { s \<leftarrow> rd a1_update 6 s; s \<leftarrow> wr 6 (a0 s) s; bwd_do6 s }"

definition bwd_do8 :: "copy_state \<Rightarrow> copy_state option" where
  "bwd_do8 s = do { s \<leftarrow> rd a0_update 7 s; s \<leftarrow> wr 7 (a1 s) s; bwd_do7 s }"

partial_function (option) bwd_loop :: "copy_state \<Rightarrow> copy_state option" where
  "bwd_loop s = (let s = bump (- 8 * OPSIZ) (- 8 * OPSIZ) (- 8) s in
     if len s \<noteq> 0 then do { s \<leftarrow> bwd_do8 s; bwd_loop s } else Some s)"

definition bwd_do0 :: "copy_state \<Rightarrow> copy_state option" where
  "bwd_do0 s = wr 7 (a1 s) s"

definition wordcopy_bwd_aligned :: "copy_state \<Rightarrow> copy_state option" where
  "wordcopy_bwd_aligned s = (let finish = (\<lambda>s. do { s \<leftarrow> bwd_loop s; bwd_do0 s }) in
     if len s mod 8 = 2 then do { s \<leftarrow> rd a0_update 1 (bump (- 2 * OPSIZ) (- 1 * OPSIZ) 6 s); s \<leftarrow> bwd_do1 s; finish s }
     else if len s mod 8 = 3 then do { s \<leftarrow> rd a1_update 2 (bump (- 3 * OPSIZ) (- 2 * OPSIZ) 5 s); s \<leftarrow> bwd_do2 s; finish s }
     else if len s mod 8 = 4 then do { s \<leftarrow> rd a0_update 3 (bump (- 4 * OPSIZ) (- 3 * OPSIZ) 4 s); s \<leftarrow> bwd_do3 s; finish s }
     else if len s mod 8 = 5 then do { s \<leftarrow> rd a1_update 4 (bump (- 5 * OPSIZ) (- 4 * OPSIZ) 3 s); s \<leftarrow> bwd_do4 s; finish s }
     else if len s mod 8 = 6 then do { s \<leftarrow> rd a0_update 5 (bump (- 6 * OPSIZ) (- 5 * OPSIZ) 2 s); s \<leftarrow> bwd_do5 s; finish s }
     else if len s mod 8 = 7 then do { s \<leftarrow> rd a1_update 6 (bump (- 7 * OPSIZ) (- 6 * OPSIZ) 1 s); s \<leftarrow> bwd_do6 s; finish s }
     else if len s mod 8 = 0 then
       (if OP_T_THRESHOLD \<le> 3 * OPSIZ \<and> len s = 0 then Some s
        else do { s \<leftarrow> rd a0_update 7 (bump (- 8 * OPSIZ) (- 7 * OPSIZ) 0 s); s \<leftarrow> bwd_do7 s; finish s })
     else do {
       s \<leftarrow> rd a1_update 8 (bump (- 9 * OPSIZ) (- 8 * OPSIZ) 0 s);
       let s = bump 0 0 (- 1) s;
       if OP_T_THRESHOLD \<le> 3 * OPSIZ \<and> len s = 0 then bwd_do0 s
       else do { s \<leftarrow> bwd_do8 s; finish s } })"

subsection \<open>Backward, destination aligned\<close>

definition bwdm_do1 :: "u32 \<Rightarrow> u32 \<Rightarrow> copy_state \<Rightarrow> copy_state option" where
  "bwdm_do1 sh_1 sh_2 s = do { s \<leftarrow> rd a0_update 0 s; wr 0 (MERGE (a1 s) sh_1 (a2 s) sh_2) s }"

definition bwdm_do2 :: "u32 \<Rightarrow> u32 \<Rightarrow> copy_state \<Rightarrow> copy_state option" where
  "bwdm_do2 sh_1 sh_2 s = do { s \<leftarrow> rd a1_update 1 s; s \<leftarrow> wr 1 (MERGE (a2 s) sh_1 (a3 s) sh_2) s; bwdm_do1 sh_1 sh_2 s }"

definition bwdm_do3 :: "u32 \<Rightarrow> u32 \<Rightarrow> copy_state \<Rightarrow> copy_state option" where
  "bwdm_do3 sh_1 sh_2 s = do { s \<leftarrow> rd a2_update 2 s; s \<leftarrow> wr 2 (MERGE (a3 s) sh_1 (a0 s) sh_2) s; bwdm_do2 sh_1 sh_2 s }"

definition bwdm_do4 :: "u32 \<Rightarrow> u32 \<Rightarrow> copy_state \<Rightarrow> copy_state option" where
  "bwdm_do4 sh_1 sh_2 s = do { s \<leftarrow> rd a3_update 3 s; s \<leftarrow> wr 3 (MERGE (a0 s) sh_1 (a1 s) sh_2) s; bwdm_do3 sh_1 sh_2 s }"

partial_function (option) bwdm_loop :: "u32 \<Rightarrow> u32 \<Rightarrow> copy_state \<Rightarrow> copy_state option" where
  "bwdm_loop sh_1 sh_2 s = (let s = bump (- 4 * OPSIZ) (- 4 * OPSIZ) (- 4) s in
     if len s \<noteq> 0 then do { s \<leftarrow> bwdm_do4 sh_1 sh_2 s; bwdm_loop sh_1 sh_2 s } else Some s)"

definition bwdm_do0 :: "u32 \<Rightarrow> u32 \<Rightarrow> copy_state \<Rightarrow> copy_state option" where
  "bwdm_do0 sh_1 sh_2 s = wr 3 (MERGE (a0 s) sh_1 (a1 s) sh_2) s"

definition wordcopy_bwd_dest_aligned :: "copy_state \<Rightarrow> copy_state option" where
  "wordcopy_bwd_dest_aligned s = (
     let sh_1 = 8 * (srcp s mod OPSIZ);
         sh_2 = 8 * OPSIZ - sh_1;
         s = s\<lparr>srcp := (srcp s AND - OPSIZ) + OPSIZ\<rparr>;
         finish = (\<lambda>s. do { s \<leftarrow> bwdm_loop sh_1 sh_2 s; bwdm_do0 sh_1 sh_2 s }) in
     if len s mod 4 = 2 then do {
       s \<leftarrow> rd a2_update 2 (bump (- 3 * OPSIZ) (- 1 * OPSIZ) 2 s); s \<leftarrow> rd a1_update 1 s;
       s \<leftarrow> bwdm_do1 sh_1 sh_2 s; finish s }
     else if len s mod 4 = 3 then do {
       s \<leftarrow> rd a3_update 3 (bump (- 4 * OPSIZ) (- 2 * OPSIZ) 1 s); s \<leftarrow> rd a2_update 2 s;
       s \<leftarrow> bwdm_do2 sh_1 sh_2 s; finish s }
     else if len s mod 4 = 0 then
       (if OP_T_THRESHOLD \<le> 3 * OPSIZ \<and> len s = 0 then Some s
        else do {
          s \<leftarrow> rd a0_update 4 (bump (- 5 * OPSIZ) (- 3 * OPSIZ) 0 s); s \<leftarrow> rd a3_update 3 s;
          s \<leftarrow> bwdm_do3 sh_1 sh_2 s; finish s })
     else do {
       s \<leftarrow> rd a1_update 5 (bump (- 6 * OPSIZ) (- 4 * OPSIZ) 0 s); s \<leftarrow> rd a0_update 4 s;
       let s = bump 0 0 (- 1) s;
       if OP_T_THRESHOLD \<le> 3 * OPSIZ \<and> len s = 0 then bwdm_do0 sh_1 sh_2 s
       else do { s \<leftarrow> bwdm_do4 sh_1 sh_2 s; finish s } })"

section \<open>Copying a block\<close>

text \<open>
  \<open>regs\<close> holds what happens to be in the registers; the number of bytes that are left over
  comes back with the pointers.
\<close>

definition call_wordcopy :: "(copy_state \<Rightarrow> copy_state option) \<Rightarrow> copy_state \<Rightarrow> addr \<Rightarrow> addr \<Rightarrow> u32 \<Rightarrow> mem \<Rightarrow> mem option" where
  "call_wordcopy f regs dst src n m = do {
     s \<leftarrow> f (regs\<lparr>srcp := src, dstp := dst, len := n, cmem := m\<rparr>);
     Some (cmem s) }"

definition WORD_COPY_FWD :: "copy_state \<Rightarrow> addr \<Rightarrow> addr \<Rightarrow> u32 \<Rightarrow> mem \<Rightarrow> (addr \<times> addr \<times> u32 \<times> mem) option" where
  "WORD_COPY_FWD regs dst src nbytes m = do {
     m \<leftarrow> (if src mod OPSIZ = 0 then call_wordcopy wordcopy_fwd_aligned regs dst src (nbytes div OPSIZ) m
          else call_wordcopy wordcopy_fwd_dest_aligned regs dst src (nbytes div OPSIZ) m);
     Some (dst + (nbytes AND - OPSIZ), src + (nbytes AND - OPSIZ), nbytes mod OPSIZ, m) }"

definition WORD_COPY_BWD :: "copy_state \<Rightarrow> addr \<Rightarrow> addr \<Rightarrow> u32 \<Rightarrow> mem \<Rightarrow> (addr \<times> addr \<times> u32 \<times> mem) option" where
  "WORD_COPY_BWD regs dst src nbytes m = do {
     m \<leftarrow> (if src mod OPSIZ = 0 then call_wordcopy wordcopy_bwd_aligned regs dst src (nbytes div OPSIZ) m
          else call_wordcopy wordcopy_bwd_dest_aligned regs dst src (nbytes div OPSIZ) m);
     Some (dst - (nbytes AND - OPSIZ), src - (nbytes AND - OPSIZ), nbytes mod OPSIZ, m) }"

definition mem_copy_fwd :: "copy_state \<Rightarrow> addr \<Rightarrow> addr \<Rightarrow> u32 \<Rightarrow> mem \<Rightarrow> mem option" where
  "mem_copy_fwd regs dst src cnt m = do {
     (dst, src, cnt, m) \<leftarrow> (if cnt \<ge> OP_T_THRESHOLD then do {
          let cnt = cnt - (- dst) mod OPSIZ;
          (dst, src, m) \<leftarrow> BYTE_COPY_FWD dst src ((- dst) mod OPSIZ) m;
          WORD_COPY_FWD regs dst src cnt m }
        else Some (dst, src, cnt, m));
     (dst, src, m) \<leftarrow> BYTE_COPY_FWD dst src cnt m;
     Some m }"

definition mem_copy_bwd :: "copy_state \<Rightarrow> addr \<Rightarrow> addr \<Rightarrow> u32 \<Rightarrow> mem \<Rightarrow> mem option" where
  "mem_copy_bwd regs dst src cnt m = do {
     let src = src + cnt;
     let dst = dst + cnt;
     (dst, src, cnt, m) \<leftarrow> (if cnt \<ge> OP_T_THRESHOLD then do {
          let cnt = cnt - dst mod OPSIZ;
          (dst, src, m) \<leftarrow> BYTE_COPY_BWD dst src (dst mod OPSIZ) m;
          WORD_COPY_BWD regs dst src cnt m }
        else Some (dst, src, cnt, m));
     (dst, src, m) \<leftarrow> BYTE_COPY_BWD dst src cnt m;
     Some m }"

definition memcpy :: "copy_state \<Rightarrow> addr \<Rightarrow> addr \<Rightarrow> u32 \<Rightarrow> mem \<Rightarrow> (addr \<times> mem) option" where
  "memcpy regs dest src cnt m = do { m \<leftarrow> mem_copy_fwd regs dest src cnt m; Some (dest, m) }"

definition memmove :: "copy_state \<Rightarrow> addr \<Rightarrow> addr \<Rightarrow> u32 \<Rightarrow> mem \<Rightarrow> (addr \<times> mem) option" where
  "memmove regs dest src cnt m = do {
     m \<leftarrow> (if dest - src \<ge> cnt then mem_copy_fwd regs dest src cnt m
          else mem_copy_bwd regs dest src cnt m);
     Some (dest, m) }"

end
