(* ===== verification/Memcopy_Words.thy ===== *)
theory Memcopy_Words
  imports Memcopy
begin

text \<open>
  What one step of the copy loops does: the byte loops copy a block, a word access moves the four bytes of an aligned word,
  and two neighbouring words merge to the word in between.
\<close>

section \<open>Bytes of words\<close>

lemma byte_of_word_of:
  "byte_of 0 (word_of b0 b1 b2 b3) = b0" "byte_of 1 (word_of b0 b1 b2 b3) = b1"
  "byte_of 2 (word_of b0 b1 b2 b3) = b2" "byte_of 3 (word_of b0 b1 b2 b3) = b3"
  by (rule bit_word_eqI, auto simp: byte_of_def word_of_def bit_simps dest: bit_imp_le_length)+

lemma less_4_cases: "(i::nat) < 4 \<Longrightarrow> i = 0 \<or> i = 1 \<or> i = 2 \<or> i = 3"
  by auto

lemma byte_of_MERGE:
  assumes "0 < off" "off < 4" "i < 4" "sh_1 = 8 * of_nat off" "sh_2 = 32 - sh_1"
  shows "byte_of i (MERGE w0 sh_1 w1 sh_2) = (if i + off < 4 then byte_of (i + off) w0 else byte_of (i + off - 4) w1)"
proof -
  have "unat sh_1 = 8 * off" "unat sh_2 = 32 - 8 * off"
    using assms less_4_cases [OF assms(2)] by auto
  then have "bit (byte_of i (MERGE w0 sh_1 w1 sh_2)) n =
      bit (if i + off < 4 then byte_of (i + off) w0 else byte_of (i + off - 4) w1) n" if "n < 8" for n
    using that assms(1) less_4_cases [OF assms(2)] less_4_cases [OF assms(3)]
    by (auto simp: byte_of_def MERGE_def bit_simps dest: bit_imp_le_length)
  then show ?thesis by (intro bit_word_eqI) auto
qed

section \<open>Copied blocks\<close>

text \<open>Memory in which the bytes at the offsets \<open>A\<close> of the destination have been copied from the source.\<close>

definition copied :: "mem \<Rightarrow> addr \<Rightarrow> addr \<Rightarrow> nat set \<Rightarrow> mem" where
  "copied m dst src A = (\<lambda>a. if unat (a - dst) \<in> A then m (src + (a - dst)) else m a)"

lemma copied_empty [simp]: "copied m dst src {} = m"
  by (simp add: copied_def)

lemma copied_insert:
  assumes "i < 2 ^ 32" "m (src + of_nat i) = Some v"
  shows "(copied m dst src A)(dst + of_nat i \<mapsto> v) = copied m dst src (insert i A)"
proof
  fix a
  have "unat (a - dst) = i \<longleftrightarrow> a = dst + of_nat i"
  proof
    assume "unat (a - dst) = i"
    then have "a - dst = of_nat i" by auto
    then show "a = dst + of_nat i" by (metis add.commute diff_add_cancel)
  qed (use assms(1) in \<open>simp add: unat_of_nat\<close>)
  then show "((copied m dst src A)(dst + of_nat i \<mapsto> v)) a = copied m dst src (insert i A) a"
    using assms by (auto simp: copied_def)
qed

lemma copied_read:
  assumes "\<And>j. j \<in> A \<Longrightarrow> dst + of_nat j \<noteq> a"
  shows "copied m dst src A a = m a"
proof -
  have "unat (a - dst) \<notin> A" using assms [of "unat (a - dst)"] by auto
  then show ?thesis by (simp add: copied_def)
qed

lemma dom_copied:
  assumes "\<And>i. i \<in> A \<Longrightarrow> dst + of_nat i \<in> dom m" "\<And>i. i \<in> A \<Longrightarrow> src + of_nat i \<in> dom m"
  shows "dom (copied m dst src A) = dom m"
proof -
  have "copied m dst src A a = None \<longleftrightarrow> m a = None" for a
  proof (cases "unat (a - dst) \<in> A")
    case True
    have "of_nat (unat (a - dst)) = a - dst" by simp
    with assms [OF True] have "a \<in> dom m" "src + (a - dst) \<in> dom m" by auto
    then show ?thesis using True by (auto simp: copied_def)
  qed (simp add: copied_def)
  then show ?thesis by (simp add: set_eq_iff domIff)
qed

text \<open>
  A copy that goes up may write a byte of the destination only when all source bytes at that place
  have been read, and a copy that goes down likewise.
\<close>

definition fwd_safe :: "addr \<Rightarrow> addr \<Rightarrow> nat \<Rightarrow> bool" where
  "fwd_safe dst src n \<longleftrightarrow> (\<forall>i<n. \<forall>j<i. dst + of_nat j \<noteq> src + of_nat i)"

definition bwd_safe :: "addr \<Rightarrow> addr \<Rightarrow> nat \<Rightarrow> bool" where
  "bwd_safe dst src n \<longleftrightarrow> (\<forall>j<n. \<forall>i<j. dst + of_nat j \<noteq> src + of_nat i)"

lemma store_byte_copied:
  assumes "i < 2 ^ 32" "dst + of_nat i \<in> dom (copied m dst src A)" "m (src + of_nat i) = Some v"
  shows "store_byte (dst + of_nat i) v (copied m dst src A) = Some (copied m dst src (insert i A))"
proof -
  from assms(2) obtain b where "copied m dst src A (dst + of_nat i) = Some b" by blast
  with copied_insert [of i m src v dst A] assms(1,3) show ?thesis by (simp add: store_byte_def write_at_Some)
qed

section \<open>Byte loops\<close>

lemma of_nat_Suc_diff: "k < n \<Longrightarrow> (of_nat (n - k) :: u32) - 1 = of_nat (n - Suc k)"
  by (metis Suc_diff_Suc add_diff_cancel_right' of_nat_Suc add.commute)

lemma of_nat_pos_iff: "n < 2 ^ 32 \<Longrightarrow> (of_nat n :: u32) > 0 \<longleftrightarrow> n > 0"
  by (simp add: word_less_nat_alt unat_of_nat)

lemma BYTE_COPY_FWD_copied:
  assumes safe: "fwd_safe dst src n" "n \<le> 2 ^ 31"
    and d: "\<And>i. i < n \<Longrightarrow> dst + of_nat i \<in> dom m" and s: "\<And>i. i < n \<Longrightarrow> src + of_nat i \<in> dom m"
  shows "k \<le> n' \<Longrightarrow> n' \<le> n \<Longrightarrow> BYTE_COPY_FWD (dst + of_nat k) (src + of_nat k) (of_nat (n' - k)) (copied m dst src {..<k}) =
    Some (dst + of_nat n', src + of_nat n', copied m dst src {..<n'})"
proof (induction "n' - k" arbitrary: k)
  case 0
  then show ?case by (subst BYTE_COPY_FWD.simps) simp
next
  case (Suc x)
  then have k: "k < n'" "k < n" by auto
  obtain v where v: "m (src + of_nat k) = Some v" using s k(2) by blast
  have rd: "copied m dst src {..<k} (src + of_nat k) = Some v"
    using safe(1) k(2) v by (subst copied_read) (auto simp: fwd_safe_def)
  have "dom (copied m dst src {..<k}) = dom m" by (rule dom_copied) (use d s k in auto)
  then have st: "store_byte (dst + of_nat k) v (copied m dst src {..<k}) = Some (copied m dst src (insert k {..<k}))"
    using safe(2) k d v by (intro store_byte_copied) auto
  have "BYTE_COPY_FWD (dst + of_nat (Suc k)) (src + of_nat (Suc k)) (of_nat (n' - Suc k)) (copied m dst src {..<Suc k}) =
      Some (dst + of_nat n', src + of_nat n', copied m dst src {..<n'})"
    by (rule Suc.hyps(1)) (use Suc.hyps(2) k Suc.prems in auto)
  moreover have "(of_nat (n' - k) :: u32) > 0" using k safe(2) Suc.prems by (subst of_nat_pos_iff) auto
  ultimately show ?case using rd st of_nat_Suc_diff [OF k(1)]
    by (subst BYTE_COPY_FWD.simps) (simp add: lessThan_Suc add_ac)
qed

lemma BYTE_COPY_BWD_copied:
  assumes safe: "bwd_safe dst src n" "n \<le> 2 ^ 31"
    and d: "\<And>i. i < n \<Longrightarrow> dst + of_nat i \<in> dom m" and s: "\<And>i. i < n \<Longrightarrow> src + of_nat i \<in> dom m"
  shows "l \<le> k \<Longrightarrow> k \<le> n \<Longrightarrow> BYTE_COPY_BWD (dst + of_nat k) (src + of_nat k) (of_nat (k - l)) (copied m dst src {k..<n}) =
    Some (dst + of_nat l, src + of_nat l, copied m dst src {l..<n})"
proof (induction "k - l" arbitrary: k)
  case 0
  then show ?case by (subst BYTE_COPY_BWD.simps) simp
next
  case (Suc x)
  then obtain k' where k': "k = Suc k'" "l \<le> k'" "k' < n" by (cases k) auto
  obtain v where v: "m (src + of_nat k') = Some v" using s k'(3) by blast
  have rd: "copied m dst src {k..<n} (src + of_nat k') = Some v"
    using safe(1) k' v by (subst copied_read) (auto simp: bwd_safe_def)
  have "dom (copied m dst src {k..<n}) = dom m" by (rule dom_copied) (use d s in auto)
  then have "store_byte (dst + of_nat k') v (copied m dst src {k..<n}) = Some (copied m dst src (insert k' {k..<n}))"
    using safe(2) k' d v by (intro store_byte_copied) auto
  moreover have "insert k' {k..<n} = {k'..<n}" using k' by auto
  moreover have "BYTE_COPY_BWD (dst + of_nat k') (src + of_nat k') (of_nat (k' - l)) (copied m dst src {k'..<n}) =
      Some (dst + of_nat l, src + of_nat l, copied m dst src {l..<n})"
    by (rule Suc.hyps(1)) (use Suc.hyps(2) k' in auto)
  moreover have "(of_nat (k - l) :: u32) > 0" using k' safe(2) Suc.hyps(2) by (subst of_nat_pos_iff) auto
  moreover have "(of_nat (k - l) :: u32) - 1 = of_nat (k' - l)" using k' by (simp add: Suc_diff_le)
  moreover have e: "dst + of_nat k - 1 = dst + of_nat k'" "src + of_nat k - 1 = src + of_nat k'" using k' by simp_all
  ultimately show ?case using rd unfolding BYTE_COPY_BWD.simps [of "dst + of_nat k"] e by simp
qed

section \<open>Word accesses\<close>

text \<open>
  The source block of \<open>4 * N\<close> bytes starts \<open>off\<close> bytes into the aligned word at \<open>S\<close>; the destination is aligned.
  Every aligned word that has a byte of the source block can be read.
\<close>

definition blocks :: "mem \<Rightarrow> addr \<Rightarrow> addr \<Rightarrow> nat \<Rightarrow> nat \<Rightarrow> bool" where
  "blocks m dst S off N \<longleftrightarrow> dst mod 4 = 0 \<and> S mod 4 = 0 \<and> off < 4 \<and> 4 * N \<le> 2 ^ 31 \<and>
     (\<forall>i<4 * N. dst + of_nat i \<in> dom m) \<and> (\<forall>k. 4 * k < off + 4 * N \<longrightarrow> (\<forall>j<4. S + of_nat (4 * k + j) \<in> dom m))"

text \<open>The register holds the bytes that word \<open>k\<close> has of the source block.\<close>

definition holds :: "mem \<Rightarrow> addr \<Rightarrow> nat \<Rightarrow> nat \<Rightarrow> nat \<Rightarrow> u32 \<Rightarrow> bool" where
  "holds m S off N k w \<longleftrightarrow> (\<forall>j<4. off \<le> 4 * k + j \<longrightarrow> 4 * k + j < off + 4 * N \<longrightarrow> m (S + of_nat (4 * k + j)) = Some (byte_of j w))"

lemma mod4_iff: "(a :: addr) mod 4 = 0 \<longleftrightarrow> unat a mod 4 = 0"
proof -
  have "unat (a mod 4) = unat a mod 4" by (simp add: unat_mod)
  then show ?thesis by (metis unat_eq_zero)
qed

lemma mod4_add: "(a :: addr) mod 4 = 0 \<Longrightarrow> (a + 4 * b) mod 4 = 0"
proof -
  assume a: "a mod 4 = 0"
  have sum: "(x + y) mod 4 = 0" if "x mod 4 = 0" "y mod 4 = 0" for x y :: nat using that by presburger
  have "4 * unat b mod 4294967296 mod 4 = 0" by (subst mod_mod_cancel) auto
  from sum [OF a [unfolded mod4_iff] this] show ?thesis
    unfolding mod4_iff by (simp add: unat_word_ariths mod_mod_cancel)
qed

lemma blocks_src:
  assumes "blocks m dst S off N" "i < 4 * N" shows "S + of_nat off + of_nat i \<in> dom m"
proof -
  have "4 * ((off + i) div 4) < off + 4 * N" "(off + i) mod 4 < 4" using assms(2) by auto
  then have "S + of_nat (4 * ((off + i) div 4) + (off + i) mod 4) \<in> dom m" using assms(1) unfolding blocks_def by blast
  then show ?thesis by (simp add: add.assoc)
qed

lemma load_op_holds:
  assumes b: "blocks m dst S off N" and k: "4 * k < off + 4 * N" and A: "A \<subseteq> {..<4 * N}"
    and apart: "\<And>i j. i \<in> A \<Longrightarrow> j < 4 \<Longrightarrow> off \<le> 4 * k + j \<Longrightarrow> 4 * k + j < off + 4 * N \<Longrightarrow> dst + of_nat i \<noteq> S + of_nat (4 * k + j)"
  shows "\<exists>w. load_op (S + 4 * of_nat k) (copied m dst (S + of_nat off) A) = Some w \<and> holds m S off N k w"
proof -
  let ?src = "S + of_nat off" and ?m = "copied m dst (S + of_nat off) A"
  note src = blocks_src [OF b]
  have "dom ?m = dom m" by (rule dom_copied) (use A b src in \<open>auto simp: blocks_def\<close>)
  then have dm: "S + of_nat (4 * k + j) \<in> dom ?m" if "j < 4" for j using that b k unfolding blocks_def by blast
  obtain b0 b1 b2 b3 where bs: "?m (S + of_nat (4 * k + 0)) = Some b0" "?m (S + of_nat (4 * k + 1)) = Some b1"
      "?m (S + of_nat (4 * k + 2)) = Some b2" "?m (S + of_nat (4 * k + 3)) = Some b3"
    using dm [of 0] dm [of 1] dm [of 2] dm [of 3] by auto
  have al: "(S + 4 * of_nat k) mod OPSIZ = 0" using b mod4_add by (auto simp: blocks_def OPSIZ_def)
  have ld: "load_op (S + 4 * of_nat k) ?m = Some (word_of b0 b1 b2 b3)"
    using al bs by (simp add: load_op_def add_ac)
  have "?m (S + of_nat (4 * k + j)) = Some (byte_of j (word_of b0 b1 b2 b3))" if "j < 4" for j
    using less_4_cases [OF that] bs byte_of_word_of by (auto simp: add_ac)
  moreover have "?m (S + of_nat (4 * k + j)) = m (S + of_nat (4 * k + j))"
    if "j < 4" "off \<le> 4 * k + j" "4 * k + j < off + 4 * N" for j
    using apart that by (intro copied_read) blast
  ultimately have "holds m S off N k (word_of b0 b1 b2 b3)" unfolding holds_def by metis
  with ld show ?thesis by blast
qed

lemma store_op_copied:
  assumes b: "blocks m dst S off N" and k: "k < N" and A: "A \<subseteq> {..<4 * N}"
    and v: "\<And>j. j < 4 \<Longrightarrow> m (S + of_nat off + of_nat (4 * k + j)) = Some (byte_of j v)"
  shows "store_op (dst + 4 * of_nat k) v (copied m dst (S + of_nat off) A) =
    Some (copied m dst (S + of_nat off) (A \<union> {4 * k..<4 * k + 4}))"
proof -
  let ?src = "S + of_nat off"
  have dom: "dom (copied m dst ?src B) = dom m" if "B \<subseteq> {..<4 * N}" for B
    by (rule dom_copied) (use that b blocks_src [OF b] in \<open>auto simp: blocks_def\<close>)
  have st: "store_byte (dst + of_nat (4 * k + j)) (byte_of j v) (copied m dst ?src B) = Some (copied m dst ?src (insert (4 * k + j) B))"
    if "j < 4" "B \<subseteq> {..<4 * N}" for j B
  proof (rule store_byte_copied)
    show "4 * k + j < 2 ^ 32" using that(1) k b by (auto simp: blocks_def)
    have "4 * k + j < 4 * N" using that(1) k by auto
    then have "dst + of_nat (4 * k + j) \<in> dom m" using b unfolding blocks_def by blast
    then show "dst + of_nat (4 * k + j) \<in> dom (copied m dst ?src B)" using dom [OF that(2)] by simp
    show "m (?src + of_nat (4 * k + j)) = Some (byte_of j v)" by (rule v [OF that(1)])
  qed
  have sub: "insert (4 * k) A \<subseteq> {..<4 * N}" "insert (4 * k + 1) (insert (4 * k) A) \<subseteq> {..<4 * N}"
    "insert (4 * k + 2) (insert (4 * k + 1) (insert (4 * k) A)) \<subseteq> {..<4 * N}" using A k by auto
  have al: "(dst + 4 * of_nat k) mod OPSIZ = 0" using b mod4_add by (auto simp: blocks_def OPSIZ_def)
  have "insert (4 * k + 3) (insert (4 * k + 2) (insert (4 * k + 1) (insert (4 * k) A))) = A \<union> {4 * k..<4 * k + 4}" by auto
  then show ?thesis using al st [of 0 A] st [of 1 "insert (4 * k) A"] st [of 2 "insert (4 * k + 1) (insert (4 * k) A)"]
      st [of 3 "insert (4 * k + 2) (insert (4 * k + 1) (insert (4 * k) A))"] A sub
    by (simp add: store_op_def add_ac)
qed

lemma rd_fwd:
  assumes b: "blocks m dst S off N" and f: "fwd_safe dst (S + of_nat off) (4 * N)"
    and s: "cmem s = copied m dst (S + of_nat off) {..<4 * k}" "srcp s = S + 4 * of_nat x - 4 * of_nat i"
    and x: "k < x \<or> k = 0" "k \<le> N" "4 * x < off + 4 * N"
  shows "\<exists>w. rd upd (of_nat i) s = Some (upd (\<lambda>_. w) s) \<and> holds m S off N x w"
proof -
  have off: "off < 4" using b by (simp add: blocks_def)
  have "\<exists>w. load_op (S + 4 * of_nat x) (copied m dst (S + of_nat off) {..<4 * k}) = Some w \<and> holds m S off N x w"
  proof (rule load_op_holds [OF b x(3)])
    show "{..<4 * k} \<subseteq> {..<4 * N}" using x(2) by auto
    fix i j assume ij: "i \<in> {..<4 * k}" "j < 4" "off \<le> 4 * x + j" "4 * x + j < off + 4 * N"
    have "4 * x + j - off < 4 * N" "i < 4 * x + j - off" using ij x(1) off by auto
    then have "dst + of_nat i \<noteq> S + of_nat off + of_nat (4 * x + j - off)" using f unfolding fwd_safe_def by blast
    moreover have "S + of_nat off + of_nat (4 * x + j - off) = S + (of_nat (4 * x + j) :: addr)"
      using ij(3) by (simp only: of_nat_diff) simp
    ultimately show "dst + of_nat i \<noteq> S + of_nat (4 * x + j)" by simp
  qed
  then show ?thesis using s by (auto simp: rd_def OPSIZ_def)
qed

lemma wr_fwd:
  assumes b: "blocks m dst S off N"
    and s: "cmem s = copied m dst (S + of_nat off) {..<4 * k}" "dstp s = dst + 4 * of_nat k - 4 * of_nat i" and k: "k < N"
    and v: "\<And>j. j < 4 \<Longrightarrow> m (S + of_nat off + of_nat (4 * k + j)) = Some (byte_of j v)"
  shows "wr (of_nat i) v s = Some (s\<lparr>cmem := copied m dst (S + of_nat off) {..<4 * Suc k}\<rparr>)"
proof -
  have "store_op (dst + 4 * of_nat k) v (copied m dst (S + of_nat off) {..<4 * k}) =
      Some (copied m dst (S + of_nat off) ({..<4 * k} \<union> {4 * k..<4 * k + 4}))"
    by (rule store_op_copied [OF b k _ v]) (use k in auto)
  moreover have "{..<4 * k} \<union> {4 * k..<4 * k + 4} = {..<4 * Suc k}" by auto
  ultimately show ?thesis using s by (simp add: wr_def OPSIZ_def)
qed

lemma holds_bytes:
  "holds m S 0 N k v \<Longrightarrow> k < N \<Longrightarrow> j < 4 \<Longrightarrow> m (S + of_nat 0 + of_nat (4 * k + j)) = Some (byte_of j v)"
  by (auto simp: holds_def)

lemma merge_bytes:
  assumes "holds m S off N k v" "holds m S off N (Suc k) w" "0 < off" "off < 4" "k < N" "j < 4"
    and sh: "sh_1 = 8 * of_nat off" "sh_2 = 32 - sh_1"
  shows "m (S + of_nat off + of_nat (4 * k + j)) = Some (byte_of j (MERGE v sh_1 w sh_2))"
proof (cases "j + off < 4")
  case True
  have "m (S + of_nat (4 * k + (j + off))) = Some (byte_of (j + off) v)"
    using assms(1) True assms(5,6) unfolding holds_def by auto
  then show ?thesis using True byte_of_MERGE [OF assms(3,4,6) sh] by (simp add: add_ac)
next
  case False
  have "j + off - 4 < 4" "off \<le> 4 * Suc k + (j + off - 4)" "4 * Suc k + (j + off - 4) < off + 4 * N"
    using False assms(3-6) by auto
  then have "m (S + of_nat (4 * Suc k + (j + off - 4))) = Some (byte_of (j + off - 4) w)"
    using assms(2) unfolding holds_def by blast
  moreover have "4 * Suc k + (j + off - 4) = off + (4 * k + j)" using False by simp
  ultimately show ?thesis using False byte_of_MERGE [OF assms(3,4,6) sh] by (simp add: add_ac)
qed

section \<open>Runs and registers\<close>

text \<open>A run from \<open>s\<close> ends, without a fault, in a state with \<open>Q\<close>.\<close>

definition ends :: "('s \<Rightarrow> 's option) \<Rightarrow> 's \<Rightarrow> ('s \<Rightarrow> bool) \<Rightarrow> bool" where
  "ends f s Q \<longleftrightarrow> (\<exists>s'. f s = Some s' \<and> Q s')"

lemma ends_bind:
  assumes "ends (\<lambda>s. f s \<bind> g) s Q" "\<And>s'. Q s' \<Longrightarrow> ends h s' R"
  shows "ends (\<lambda>s. f s \<bind> (\<lambda>x. g x \<bind> h)) s R"
  using assms unfolding ends_def by (cases "f s") auto

text \<open>The update of a variable that is none of the pointers, the length or the memory.\<close>

definition reg :: "((u32 \<Rightarrow> u32) \<Rightarrow> copy_state \<Rightarrow> copy_state) \<Rightarrow> bool" where
  "reg upd \<longleftrightarrow> (\<forall>f s. srcp (upd f s) = srcp s \<and> dstp (upd f s) = dstp s \<and> len (upd f s) = len s \<and> cmem (upd f s) = cmem s)"

lemma reg_simps [simp]: "reg a0_update" "reg a1_update" "reg a2_update" "reg a3_update"
  by (simp_all add: reg_def)

lemma entry_count:
  assumes "N mod d = Suc t mod d" "t \<le> d" "0 < t" "2 \<le> N" "2 \<le> d"
  shows "t < N \<and> (N - Suc t) mod d = 0"
proof -
  have "t < N"
  proof (rule ccontr)
    assume "\<not> t < N"
    then consider "N < d" "Suc t < d" | "N < d" "Suc t = d" | "t = d" | "N = d" "Suc t = d" using assms(2) by linarith
    then show False
    proof cases
      case 3
      then have "Suc t mod d = 1" using assms(5) by (simp add: mod_Suc)
      then show False using assms \<open>\<not> t < N\<close> 3 by (cases "N = d") auto
    qed (use assms \<open>\<not> t < N\<close> in auto)
  qed
  then show ?thesis using assms(1) mod_eq_dvd_iff_nat [of "Suc t" N d] by (simp add: mod_eq_0_iff_dvd)
qed

lemma entry_count_down:
  assumes "N mod d = Suc t mod d" "q = N - Suc t" "t \<le> d" "0 < t" "2 \<le> N" "2 \<le> d"
  shows "q mod d = 0" "N - 1 = q + t"
  using entry_count [OF assms(1,3-6)] assms(2) by simp_all

lemma threshold: "\<not> OP_T_THRESHOLD \<le> 3 * OPSIZ"
  by (simp add: OP_T_THRESHOLD_def OPSIZ_def)

lemma of_nat_mod_iff: "N < 2 ^ 32 \<Longrightarrow> (of_nat N :: u32) mod d = c \<longleftrightarrow> N mod unat d = unat c"
  by (simp add: word_unat_eq_iff unat_mod unat_of_nat)

lemma and_minus_OPSIZ: "(a :: addr) AND - OPSIZ = push_bit 2 (drop_bit 2 a)" and mod_OPSIZ: "a mod OPSIZ = take_bit 2 a"
proof -
  have "- OPSIZ = NOT (mask 2)" by (simp add: OPSIZ_def mask_eq_exp_minus_1 not_eq_complement)
  then show "a AND - OPSIZ = push_bit 2 (drop_bit 2 a)" by (auto intro!: bit_word_eqI simp: bit_simps not_less le_iff_add dest: bit_imp_le_length)
  show "a mod OPSIZ = take_bit 2 a" by (simp add: take_bit_eq_mod OPSIZ_def)
qed

lemma split_addr: "((a :: addr) AND - OPSIZ) + of_nat (unat (a mod OPSIZ)) = a" "((a :: addr) AND - OPSIZ) mod 4 = 0" "unat (a mod OPSIZ) < 4"
proof -
  show "(a AND - OPSIZ) + of_nat (unat (a mod OPSIZ)) = a" by (simp add: and_minus_OPSIZ mod_OPSIZ bits_ident)
  have "push_bit 2 (drop_bit 2 a) mod 4 = take_bit 2 (push_bit 2 (drop_bit 2 a))" by (simp add: take_bit_eq_mod)
  then show "(a AND - OPSIZ) mod 4 = 0" by (simp add: and_minus_OPSIZ take_bit_push_bit)
  show "unat (a mod OPSIZ) < 4" by (simp add: OPSIZ_def unat_mod)
qed

end
