(* ===== verification/Memcopy_Fwd.thy ===== *)
theory Memcopy_Fwd
  imports Memcopy_Words
begin

text \<open>
  The two word loops that go up (\<open>_wordcopy_fwd_aligned\<close> and \<open>_wordcopy_fwd_dest_aligned\<close>) copy the block, whatever
  entry point the length selects.
\<close>

section \<open>Forward, both aligned\<close>

text \<open>
  In front of statement \<open>i\<close> of the unrolled loop, \<open>k\<close> words have been written and word \<open>k\<close> is in the register
  with the value \<open>v\<close>.
\<close>

definition fwd_at :: "mem \<Rightarrow> addr \<Rightarrow> addr \<Rightarrow> nat \<Rightarrow> nat \<Rightarrow> nat \<Rightarrow> u32 \<Rightarrow> copy_state \<Rightarrow> bool" where
  "fwd_at m dst src N i k v s \<longleftrightarrow> blocks m dst src 0 N \<and> fwd_safe dst src (4 * N) \<and> k < N \<and>
     srcp s = src + 4 * of_nat (Suc k) - 4 * of_nat i \<and> dstp s = dst + 4 * of_nat k - 4 * of_nat i \<and>
     len s = of_nat (N - Suc k + i) \<and> cmem s = copied m dst src {..<4 * k} \<and> holds m src 0 N k v"

lemma fwd_step:
  assumes a: "fwd_at m dst src N i k v s" "Suc k < N"
  obtains w where "rd upd (of_nat i) s = Some (upd (\<lambda>_. w) s)"
    "\<And>s'. srcp s' = srcp s \<Longrightarrow> dstp s' = dstp s \<Longrightarrow> len s' = len s \<Longrightarrow> cmem s' = cmem s \<Longrightarrow>
      wr (of_nat i) v s' = Some (s'\<lparr>cmem := copied m dst src {..<4 * Suc k}\<rparr>) \<and>
      fwd_at m dst src N (Suc i) (Suc k) w (s'\<lparr>cmem := copied m dst src {..<4 * Suc k}\<rparr>)"
proof -
  note d = a(1) [unfolded fwd_at_def]
  from rd_fwd [of m dst src 0 N s k "Suc k" i upd] d a(2) obtain w where
    w: "rd upd (of_nat i) s = Some (upd (\<lambda>_. w) s)" "holds m src 0 N (Suc k) w" by auto
  have "N - Suc k + i = N - Suc (Suc k) + Suc i" using a(2) by simp
  then have "wr (of_nat i) v s' = Some (s'\<lparr>cmem := copied m dst src {..<4 * Suc k}\<rparr>) \<and>
      fwd_at m dst src N (Suc i) (Suc k) w (s'\<lparr>cmem := copied m dst src {..<4 * Suc k}\<rparr>)"
    if "srcp s' = srcp s" "dstp s' = dstp s" "len s' = len s" "cmem s' = cmem s" for s'
    using wr_fwd [of m dst src 0 N s' k i v] holds_bytes [of m src N k v] d w(2) a(2) that
    by (simp add: fwd_at_def del: mult_Suc_right)
  with w(1) show thesis by (rule that)
qed

lemma fwd_step_a0:
  assumes "fwd_at m dst src N i k (a1 s) s" "Suc k < N"
  shows "ends (\<lambda>s. rd a0_update (of_nat i) s \<bind> (\<lambda>s. wr (of_nat i) (a1 s) s)) s (\<lambda>s. fwd_at m dst src N (Suc i) (Suc k) (a0 s) s)"
  by (rule fwd_step [OF assms, of a0_update]) (auto simp: ends_def)

lemma fwd_step_a1:
  assumes "fwd_at m dst src N i k (a0 s) s" "Suc k < N"
  shows "ends (\<lambda>s. rd a1_update (of_nat i) s \<bind> (\<lambda>s. wr (of_nat i) (a0 s) s)) s (\<lambda>s. fwd_at m dst src N (Suc i) (Suc k) (a1 s) s)"
  by (rule fwd_step [OF assms, of a1_update]) (auto simp: ends_def)

lemma fwd_do1_at:
  "fwd_at m dst src N 7 k (a0 s) s \<Longrightarrow> t = k + 1 \<Longrightarrow> t < N \<Longrightarrow> ends fwd_do1 s (\<lambda>s. fwd_at m dst src N 8 t (a1 s) s)"
  using fwd_step_a1 [of m dst src N 7 k s] by (simp add: fwd_do1_def [abs_def])

lemma fwd_do2_at:
  "fwd_at m dst src N 6 k (a1 s) s \<Longrightarrow> t = k + 2 \<Longrightarrow> t < N \<Longrightarrow> ends fwd_do2 s (\<lambda>s. fwd_at m dst src N 8 t (a1 s) s)"
  unfolding fwd_do2_def [abs_def]
  by (rule ends_bind [OF fwd_step_a0 [of m dst src N 6 k s, simplified]]) (auto intro: fwd_do1_at)

lemma fwd_do3_at:
  "fwd_at m dst src N 5 k (a0 s) s \<Longrightarrow> t = k + 3 \<Longrightarrow> t < N \<Longrightarrow> ends fwd_do3 s (\<lambda>s. fwd_at m dst src N 8 t (a1 s) s)"
  unfolding fwd_do3_def [abs_def]
  by (rule ends_bind [OF fwd_step_a1 [of m dst src N 5 k s, simplified]]) (auto intro: fwd_do2_at)

lemma fwd_do4_at:
  "fwd_at m dst src N 4 k (a1 s) s \<Longrightarrow> t = k + 4 \<Longrightarrow> t < N \<Longrightarrow> ends fwd_do4 s (\<lambda>s. fwd_at m dst src N 8 t (a1 s) s)"
  unfolding fwd_do4_def [abs_def]
  by (rule ends_bind [OF fwd_step_a0 [of m dst src N 4 k s, simplified]]) (auto intro: fwd_do3_at)

lemma fwd_do5_at:
  "fwd_at m dst src N 3 k (a0 s) s \<Longrightarrow> t = k + 5 \<Longrightarrow> t < N \<Longrightarrow> ends fwd_do5 s (\<lambda>s. fwd_at m dst src N 8 t (a1 s) s)"
  unfolding fwd_do5_def [abs_def]
  by (rule ends_bind [OF fwd_step_a1 [of m dst src N 3 k s, simplified]]) (auto intro: fwd_do4_at)

lemma fwd_do6_at:
  "fwd_at m dst src N 2 k (a1 s) s \<Longrightarrow> t = k + 6 \<Longrightarrow> t < N \<Longrightarrow> ends fwd_do6 s (\<lambda>s. fwd_at m dst src N 8 t (a1 s) s)"
  unfolding fwd_do6_def [abs_def]
  by (rule ends_bind [OF fwd_step_a0 [of m dst src N 2 k s, simplified]]) (auto intro: fwd_do5_at)

lemma fwd_do7_at:
  "fwd_at m dst src N 1 k (a0 s) s \<Longrightarrow> t = k + 7 \<Longrightarrow> t < N \<Longrightarrow> ends fwd_do7 s (\<lambda>s. fwd_at m dst src N 8 t (a1 s) s)"
  unfolding fwd_do7_def [abs_def]
  by (rule ends_bind [OF fwd_step_a1 [of m dst src N 1 k s, simplified]]) (auto intro: fwd_do6_at simp flip: numeral_2_eq_2)

lemma fwd_do8_at:
  "fwd_at m dst src N 0 k (a1 s) s \<Longrightarrow> t = k + 8 \<Longrightarrow> t < N \<Longrightarrow> ends fwd_do8 s (\<lambda>s. fwd_at m dst src N 8 t (a1 s) s)"
  unfolding fwd_do8_def [abs_def]
  by (rule ends_bind [OF fwd_step_a0 [of m dst src N 0 k s, simplified]]) (auto intro: fwd_do7_at)

lemma fwd_loop_at:
  assumes "fwd_at m dst src N 8 k (a1 s) s" "(N - Suc k) mod 8 = 0"
  shows "ends fwd_loop s (\<lambda>s. fwd_at m dst src N 0 (N - 1) (a1 s) s)"
  using assms
proof (induction "N - Suc k" arbitrary: k s rule: less_induct)
  case less
  let ?s = "bump (8 * OPSIZ) (8 * OPSIZ) (- 8) s"
  have N: "4 * N \<le> 2 ^ 31" "k < N" using less.prems(1) by (auto simp: fwd_at_def blocks_def)
  have at: "fwd_at m dst src N 0 k (a1 ?s) ?s"
    using less.prems(1) by (simp add: fwd_at_def bump_def OPSIZ_def algebra_simps)
  then have l: "len ?s = of_nat (N - Suc k)" by (simp add: fwd_at_def)
  show ?case
  proof (cases "N - Suc k = 0")
    case True
    then have "k = N - 1" using N(2) by simp
    then show ?thesis using at True l by (subst ends_def, subst fwd_loop.simps) (simp add: Let_def)
  next
    case False
    then have k8: "k + 8 < N" "(N - Suc (k + 8)) mod 8 = 0" using less.prems(2) by presburger+
    from fwd_do8_at [OF at refl k8(1)] obtain s1 where s1: "fwd_do8 ?s = Some s1" "fwd_at m dst src N 8 (k + 8) (a1 s1) s1"
      by (auto simp: ends_def)
    have "ends fwd_loop s1 (\<lambda>s. fwd_at m dst src N 0 (N - 1) (a1 s) s)"
      by (rule less.hyps [OF _ s1(2) k8(2)]) (use k8 in simp)
    moreover have "len ?s > 0" unfolding l using False N by (subst of_nat_pos_iff) auto
    then have "len ?s \<noteq> 0" by (metis less_irrefl)
    ultimately show ?thesis using s1(1) by (subst ends_def, subst fwd_loop.simps) (simp add: Let_def ends_def)
  qed
qed

lemma fwd_finish:
  assumes "fwd_at m dst src N 8 k (a1 s) s" "(N - Suc k) mod 8 = 0"
  shows "\<exists>s'. do { s \<leftarrow> fwd_loop s; fwd_do0 s } = Some s' \<and> cmem s' = copied m dst src {..<4 * N}"
proof -
  from fwd_loop_at [OF assms] obtain s1 where s1: "fwd_loop s = Some s1" "fwd_at m dst src N 0 (N - 1) (a1 s1) s1"
    by (auto simp: ends_def)
  note d = s1(2) [unfolded fwd_at_def]
  have "Suc (N - 1) = N" using d by simp
  with wr_fwd [of m dst src 0 N s1 "N - 1" 0 "a1 s1"] holds_bytes [of m src N "N - 1" "a1 s1"] d s1(1)
  show ?thesis by (simp add: fwd_do0_def)
qed

lemma fwd_run:
  assumes "ends f s (\<lambda>s. fwd_at m dst src N 8 t (a1 s) s)" "(N - Suc t) mod 8 = 0"
  shows "\<exists>s'. f s \<bind> (\<lambda>s. fwd_loop s \<bind> fwd_do0) = Some s' \<and> cmem s' = copied m dst src {..<4 * N}"
  using assms fwd_finish by (fastforce simp: ends_def)

text \<open>Each entry point loads the first word, moves the pointers back and jumps into the loop.\<close>

lemma fwd_from:
  assumes b: "blocks m dst src 0 N" and f: "fwd_safe dst src (4 * N)" and N: "0 < N"
    and s: "srcp s = src" "dstp s = dst" "len s = of_nat N" "cmem s = m"
    and upd: "reg upd" "\<And>v x y z s. get (bump x y z (upd (\<lambda>_. v) s)) = v"
    and step: "\<And>s. fwd_at m dst src N i 0 (get s) s \<Longrightarrow> ends g s (\<lambda>s. fwd_at m dst src N 8 t (a1 s) s)"
    and i: "x = 4 - 4 * of_nat i" "y = - 4 * of_nat i" "z = of_nat i - 1" and t: "(N - Suc t) mod 8 = 0"
  shows "\<exists>s'. rd upd 0 s \<bind> (\<lambda>s. g (bump x y z s) \<bind> (\<lambda>s. fwd_loop s \<bind> fwd_do0)) = Some s' \<and> cmem s' = copied m dst src {..<4 * N}"
proof -
  from rd_fwd [of m dst src 0 N s 0 0 0 upd] b f N s obtain w where
    w: "rd upd 0 s = Some (upd (\<lambda>_. w) s)" "holds m src 0 N 0 w" by auto
  have "of_nat N + (of_nat i - 1) = (of_nat (N - Suc 0 + i) :: u32)" using N by (simp add: of_nat_diff)
  then have "fwd_at m dst src N i 0 w (bump x y z (upd (\<lambda>_. w) s))"
    unfolding i using s upd(1) b f N w(2) by (simp add: fwd_at_def bump_def reg_def)
  from fwd_run [OF step t, of "bump x y z (upd (\<lambda>_. w) s)"] this upd(2) w(1) show ?thesis by simp
qed

lemma wordcopy_fwd_aligned_copied:
  assumes b: "blocks m dst src 0 N" and f: "fwd_safe dst src (4 * N)" and N: "2 \<le> N"
    and s: "srcp s = src" "dstp s = dst" "len s = of_nat N" "cmem s = m"
  shows "\<exists>s'. wordcopy_fwd_aligned s = Some s' \<and> cmem s' = copied m dst src {..<4 * N}"
proof -
  have N32: "N < 2 ^ 32" using b by (simp add: blocks_def)
  have N0: "0 < N" using N by simp
  note from_a0 = fwd_from [OF b f N0 s, of a0_update a0] and from_a1 = fwd_from [OF b f N0 s, of a1_update a1]
  note def = wordcopy_fwd_aligned_def Let_def s of_nat_mod_iff [OF N32, of 8] threshold
  consider "N mod 8 = 2" | "N mod 8 = 3" | "N mod 8 = 4" | "N mod 8 = 5" | "N mod 8 = 6" | "N mod 8 = 7" | "N mod 8 = 0" | "N mod 8 = 1"
    by linarith
  then show ?thesis
  proof cases
    case 1
    then have t: "(N - Suc 1) mod 8 = 0" "1 < N" using entry_count [of N 8 1] N by simp_all
    show ?thesis by (simp add: def 1, intro from_a0 [OF _ _ _ _ _ _ t(1), where i = 7])
      (auto simp: bump_def OPSIZ_def intro: fwd_do1_at [OF _ _ t(2)] simp del: One_nat_def)
  next
    case 2
    then have t: "(N - Suc 2) mod 8 = 0" "2 < N" using entry_count [of N 8 2] N by simp_all
    show ?thesis by (simp add: def 2, intro from_a1 [OF _ _ _ _ _ _ t(1), where i = 6])
      (auto simp: bump_def OPSIZ_def intro: fwd_do2_at [OF _ _ t(2)] simp del: One_nat_def)
  next
    case 3
    then have t: "(N - Suc 3) mod 8 = 0" "3 < N" using entry_count [of N 8 3] N by simp_all
    show ?thesis by (simp add: def 3, intro from_a0 [OF _ _ _ _ _ _ t(1), where i = 5])
      (auto simp: bump_def OPSIZ_def intro: fwd_do3_at [OF _ _ t(2)] simp del: One_nat_def)
  next
    case 4
    then have t: "(N - Suc 4) mod 8 = 0" "4 < N" using entry_count [of N 8 4] N by simp_all
    show ?thesis by (simp add: def 4, intro from_a1 [OF _ _ _ _ _ _ t(1), where i = 4])
      (auto simp: bump_def OPSIZ_def intro: fwd_do4_at [OF _ _ t(2)] simp del: One_nat_def)
  next
    case 5
    then have t: "(N - Suc 5) mod 8 = 0" "5 < N" using entry_count [of N 8 5] N by simp_all
    show ?thesis by (simp add: def 5, intro from_a0 [OF _ _ _ _ _ _ t(1), where i = 3])
      (auto simp: bump_def OPSIZ_def intro: fwd_do5_at [OF _ _ t(2)] simp del: One_nat_def)
  next
    case 6
    then have t: "(N - Suc 6) mod 8 = 0" "6 < N" using entry_count [of N 8 6] N by simp_all
    show ?thesis by (simp add: def 6, intro from_a1 [OF _ _ _ _ _ _ t(1), where i = 2])
      (auto simp: bump_def OPSIZ_def intro: fwd_do6_at [OF _ _ t(2)] simp del: One_nat_def)
  next
    case 7
    then have t: "(N - Suc 7) mod 8 = 0" "7 < N" using entry_count [of N 8 7] N by simp_all
    show ?thesis by (simp add: def 7, intro from_a0 [OF _ _ _ _ _ _ t(1), where i = 1])
      (auto simp: bump_def OPSIZ_def intro: fwd_do7_at [OF _ _ t(2)] simp del: One_nat_def)
  next
    case 8
    then have t: "(N - Suc 8) mod 8 = 0" "8 < N" using entry_count [of N 8 8] N by simp_all
    show ?thesis by (simp add: def 8, intro from_a1 [OF _ _ _ _ _ _ t(1), where i = 0])
      (auto simp: bump_def OPSIZ_def intro: fwd_do8_at [OF _ _ t(2)] simp del: One_nat_def)
  qed
qed

section \<open>Forward, destination aligned\<close>

definition fwdm_at ::
  "mem \<Rightarrow> addr \<Rightarrow> addr \<Rightarrow> nat \<Rightarrow> nat \<Rightarrow> u32 \<Rightarrow> u32 \<Rightarrow> nat \<Rightarrow> nat \<Rightarrow> u32 \<Rightarrow> u32 \<Rightarrow> copy_state \<Rightarrow> bool" where
  "fwdm_at m dst S off N sh_1 sh_2 i k v w s \<longleftrightarrow> blocks m dst S off N \<and> 0 < off \<and> sh_1 = 8 * of_nat off \<and> sh_2 = 32 - sh_1 \<and>
     fwd_safe dst (S + of_nat off) (4 * N) \<and> k < N \<and>
     srcp s = S + 4 * of_nat (k + 2) - 4 * of_nat i \<and> dstp s = dst + 4 * of_nat k - 4 * of_nat i \<and>
     len s = of_nat (N - Suc k + i) \<and> cmem s = copied m dst (S + of_nat off) {..<4 * k} \<and>
     holds m S off N k v \<and> holds m S off N (Suc k) w"

lemma fwdm_step:
  assumes a: "fwdm_at m dst S off N sh_1 sh_2 i k v w s" "Suc k < N"
  obtains x where "rd upd (of_nat i) s = Some (upd (\<lambda>_. x) s)"
    "\<And>s'. srcp s' = srcp s \<Longrightarrow> dstp s' = dstp s \<Longrightarrow> len s' = len s \<Longrightarrow> cmem s' = cmem s \<Longrightarrow>
      wr (of_nat i) (MERGE v sh_1 w sh_2) s' = Some (s'\<lparr>cmem := copied m dst (S + of_nat off) {..<4 * Suc k}\<rparr>) \<and>
      fwdm_at m dst S off N sh_1 sh_2 (Suc i) (Suc k) w x (s'\<lparr>cmem := copied m dst (S + of_nat off) {..<4 * Suc k}\<rparr>)"
proof -
  note d = a(1) [unfolded fwdm_at_def]
  have off: "off < 4" using d by (simp add: blocks_def)
  from rd_fwd [of m dst S off N s k "k + 2" i upd] d a(2) obtain x where
    x: "rd upd (of_nat i) s = Some (upd (\<lambda>_. x) s)" "holds m S off N (k + 2) x" by auto
  have l: "N - Suc k + i = N - Suc (Suc k) + Suc i" using a(2) by simp
  have v: "m (S + of_nat off + of_nat (4 * k + j)) = Some (byte_of j (MERGE v sh_1 w sh_2))" if "j < 4" for j
    using merge_bytes [of m S off N k v w j sh_1 sh_2] that d off by auto
  have "wr (of_nat i) (MERGE v sh_1 w sh_2) s' = Some (s'\<lparr>cmem := copied m dst (S + of_nat off) {..<4 * Suc k}\<rparr>) \<and>
      fwdm_at m dst S off N sh_1 sh_2 (Suc i) (Suc k) w x (s'\<lparr>cmem := copied m dst (S + of_nat off) {..<4 * Suc k}\<rparr>)"
    if "srcp s' = srcp s" "dstp s' = dstp s" "len s' = len s" "cmem s' = cmem s" for s'
  proof
    show "wr (of_nat i) (MERGE v sh_1 w sh_2) s' = Some (s'\<lparr>cmem := copied m dst (S + of_nat off) {..<4 * Suc k}\<rparr>)"
      using v d that by (intro wr_fwd [of m dst S off N s' k i]) auto
    show "fwdm_at m dst S off N sh_1 sh_2 (Suc i) (Suc k) w x (s'\<lparr>cmem := copied m dst (S + of_nat off) {..<4 * Suc k}\<rparr>)"
      using d that x(2) a(2) l by (simp add: fwdm_at_def del: mult_Suc_right)
  qed
  with x(1) show thesis by (rule that)
qed

lemma fwdm_step_a0:
  assumes "fwdm_at m dst S off N sh_1 sh_2 i k (a2 s) (a3 s) s" "Suc k < N"
  shows "ends (\<lambda>s. rd a0_update (of_nat i) s \<bind> (\<lambda>s. wr (of_nat i) (MERGE (a2 s) sh_1 (a3 s) sh_2) s)) s
    (\<lambda>s. fwdm_at m dst S off N sh_1 sh_2 (Suc i) (Suc k) (a3 s) (a0 s) s)"
  by (rule fwdm_step [OF assms, of a0_update]) (auto simp: ends_def)

lemma fwdm_step_a1:
  assumes "fwdm_at m dst S off N sh_1 sh_2 i k (a3 s) (a0 s) s" "Suc k < N"
  shows "ends (\<lambda>s. rd a1_update (of_nat i) s \<bind> (\<lambda>s. wr (of_nat i) (MERGE (a3 s) sh_1 (a0 s) sh_2) s)) s
    (\<lambda>s. fwdm_at m dst S off N sh_1 sh_2 (Suc i) (Suc k) (a0 s) (a1 s) s)"
  by (rule fwdm_step [OF assms, of a1_update]) (auto simp: ends_def)

lemma fwdm_step_a2:
  assumes "fwdm_at m dst S off N sh_1 sh_2 i k (a0 s) (a1 s) s" "Suc k < N"
  shows "ends (\<lambda>s. rd a2_update (of_nat i) s \<bind> (\<lambda>s. wr (of_nat i) (MERGE (a0 s) sh_1 (a1 s) sh_2) s)) s
    (\<lambda>s. fwdm_at m dst S off N sh_1 sh_2 (Suc i) (Suc k) (a1 s) (a2 s) s)"
  by (rule fwdm_step [OF assms, of a2_update]) (auto simp: ends_def)

lemma fwdm_step_a3:
  assumes "fwdm_at m dst S off N sh_1 sh_2 i k (a1 s) (a2 s) s" "Suc k < N"
  shows "ends (\<lambda>s. rd a3_update (of_nat i) s \<bind> (\<lambda>s. wr (of_nat i) (MERGE (a1 s) sh_1 (a2 s) sh_2) s)) s
    (\<lambda>s. fwdm_at m dst S off N sh_1 sh_2 (Suc i) (Suc k) (a2 s) (a3 s) s)"
  by (rule fwdm_step [OF assms, of a3_update]) (auto simp: ends_def)

lemma fwdm_do1_at:
  "fwdm_at m dst S off N sh_1 sh_2 3 k (a1 s) (a2 s) s \<Longrightarrow> t = k + 1 \<Longrightarrow> t < N \<Longrightarrow>
    ends (fwdm_do1 sh_1 sh_2) s (\<lambda>s. fwdm_at m dst S off N sh_1 sh_2 4 t (a2 s) (a3 s) s)"
  using fwdm_step_a3 [of m dst S off N sh_1 sh_2 3 k s] by (simp add: fwdm_do1_def [abs_def])

lemma fwdm_do2_at:
  "fwdm_at m dst S off N sh_1 sh_2 2 k (a0 s) (a1 s) s \<Longrightarrow> t = k + 2 \<Longrightarrow> t < N \<Longrightarrow>
    ends (fwdm_do2 sh_1 sh_2) s (\<lambda>s. fwdm_at m dst S off N sh_1 sh_2 4 t (a2 s) (a3 s) s)"
  unfolding fwdm_do2_def [abs_def]
  by (rule ends_bind [OF fwdm_step_a2 [of m dst S off N sh_1 sh_2 2 k s, simplified]]) (auto intro: fwdm_do1_at)

lemma fwdm_do3_at:
  "fwdm_at m dst S off N sh_1 sh_2 1 k (a3 s) (a0 s) s \<Longrightarrow> t = k + 3 \<Longrightarrow> t < N \<Longrightarrow>
    ends (fwdm_do3 sh_1 sh_2) s (\<lambda>s. fwdm_at m dst S off N sh_1 sh_2 4 t (a2 s) (a3 s) s)"
  unfolding fwdm_do3_def [abs_def]
  by (rule ends_bind [OF fwdm_step_a1 [of m dst S off N sh_1 sh_2 1 k s, simplified]]) (auto intro: fwdm_do2_at simp flip: numeral_2_eq_2)

lemma fwdm_do4_at:
  "fwdm_at m dst S off N sh_1 sh_2 0 k (a2 s) (a3 s) s \<Longrightarrow> t = k + 4 \<Longrightarrow> t < N \<Longrightarrow>
    ends (fwdm_do4 sh_1 sh_2) s (\<lambda>s. fwdm_at m dst S off N sh_1 sh_2 4 t (a2 s) (a3 s) s)"
  unfolding fwdm_do4_def [abs_def]
  by (rule ends_bind [OF fwdm_step_a0 [of m dst S off N sh_1 sh_2 0 k s, simplified]]) (auto intro: fwdm_do3_at)

lemma fwdm_loop_at:
  assumes "fwdm_at m dst S off N sh_1 sh_2 4 k (a2 s) (a3 s) s" "(N - Suc k) mod 4 = 0"
  shows "ends (fwdm_loop sh_1 sh_2) s (\<lambda>s. fwdm_at m dst S off N sh_1 sh_2 0 (N - 1) (a2 s) (a3 s) s)"
  using assms
proof (induction "N - Suc k" arbitrary: k s rule: less_induct)
  case less
  let ?s = "bump (4 * OPSIZ) (4 * OPSIZ) (- 4) s"
  have N: "4 * N \<le> 2 ^ 31" "k < N" using less.prems(1) by (auto simp: fwdm_at_def blocks_def)
  have at: "fwdm_at m dst S off N sh_1 sh_2 0 k (a2 ?s) (a3 ?s) ?s"
    using less.prems(1) by (auto simp: fwdm_at_def bump_def OPSIZ_def algebra_simps)
  then have l: "len ?s = of_nat (N - Suc k)" by (simp add: fwdm_at_def)
  show ?case
  proof (cases "N - Suc k = 0")
    case True
    then have "k = N - 1" using N(2) by simp
    then show ?thesis using at True l by (subst ends_def, subst fwdm_loop.simps) (simp add: Let_def)
  next
    case False
    then have k4: "k + 4 < N" "(N - Suc (k + 4)) mod 4 = 0" using less.prems(2) by presburger+
    from fwdm_do4_at [OF at refl k4(1)] obtain s1 where
      s1: "fwdm_do4 sh_1 sh_2 ?s = Some s1" "fwdm_at m dst S off N sh_1 sh_2 4 (k + 4) (a2 s1) (a3 s1) s1"
      by (auto simp: ends_def)
    have "ends (fwdm_loop sh_1 sh_2) s1 (\<lambda>s. fwdm_at m dst S off N sh_1 sh_2 0 (N - 1) (a2 s) (a3 s) s)"
      by (rule less.hyps [OF _ s1(2) k4(2)]) (use k4 in simp)
    moreover have "len ?s > 0" unfolding l using False N by (subst of_nat_pos_iff) auto
    then have "len ?s \<noteq> 0" by (metis less_irrefl)
    ultimately show ?thesis using s1(1) by (subst ends_def, subst fwdm_loop.simps) (simp add: Let_def ends_def)
  qed
qed

lemma fwdm_run:
  assumes "ends f s (\<lambda>s. fwdm_at m dst S off N sh_1 sh_2 4 t (a2 s) (a3 s) s)" "(N - Suc t) mod 4 = 0"
  shows "\<exists>s'. f s \<bind> (\<lambda>s. fwdm_loop sh_1 sh_2 s \<bind> fwdm_do0 sh_1 sh_2) = Some s' \<and>
    cmem s' = copied m dst (S + of_nat off) {..<4 * N}"
proof -
  from assms(1) obtain s1 where s1: "f s = Some s1" "fwdm_at m dst S off N sh_1 sh_2 4 t (a2 s1) (a3 s1) s1" by (auto simp: ends_def)
  from fwdm_loop_at [OF s1(2) assms(2)] s1(1) obtain s2 where s: "f s = Some s1" "fwdm_loop sh_1 sh_2 s1 = Some s2"
    "fwdm_at m dst S off N sh_1 sh_2 0 (N - 1) (a2 s2) (a3 s2) s2" by (auto simp: ends_def)
  note d = s(3) [unfolded fwdm_at_def]
  have N: "Suc (N - 1) = N" using d by simp
  have "off < 4" using d by (simp add: blocks_def)
  then have v: "m (S + of_nat off + of_nat (4 * (N - 1) + j)) = Some (byte_of j (MERGE (a2 s2) sh_1 (a3 s2) sh_2))" if "j < 4" for j
    using merge_bytes [of m S off N "N - 1" "a2 s2" "a3 s2" j sh_1 sh_2] that d by auto
  have "wr (of_nat 0) (MERGE (a2 s2) sh_1 (a3 s2) sh_2) s2 = Some (s2\<lparr>cmem := copied m dst (S + of_nat off) {..<4 * Suc (N - 1)}\<rparr>)"
    by (rule wr_fwd) (use d v in auto)
  then show ?thesis using s(1,2) N by (simp add: fwdm_do0_def)
qed

lemma fwdm_from:
  assumes b: "blocks m dst S off N" and off: "0 < off" and f: "fwd_safe dst (S + of_nat off) (4 * N)" and N: "0 < N"
    and sh: "sh_1 = 8 * of_nat off" "sh_2 = 32 - sh_1"
    and s: "srcp s = S" "dstp s = dst" "len s = of_nat N" "cmem s = m"
    and upd: "reg upd" "reg upd'" "\<And>v w x y z s. get (bump x y z (upd' (\<lambda>_. w) (upd (\<lambda>_. v) s))) = v"
      "\<And>v w x y z s. get' (bump x y z (upd' (\<lambda>_. w) (upd (\<lambda>_. v) s))) = w"
    and step: "\<And>s. fwdm_at m dst S off N sh_1 sh_2 i 0 (get s) (get' s) s \<Longrightarrow>
      ends g s (\<lambda>s. fwdm_at m dst S off N sh_1 sh_2 4 t (a2 s) (a3 s) s)"
    and i: "x = 8 - 4 * of_nat i" "y = - 4 * of_nat i" "z = of_nat i - 1" and t: "(N - Suc t) mod 4 = 0"
  shows "\<exists>s'. rd upd 0 s \<bind> (\<lambda>s. rd upd' 1 s \<bind> (\<lambda>s. g (bump x y z s) \<bind> (\<lambda>s. fwdm_loop sh_1 sh_2 s \<bind> fwdm_do0 sh_1 sh_2))) = Some s' \<and>
    cmem s' = copied m dst (S + of_nat off) {..<4 * N}"
proof -
  from rd_fwd [of m dst S off N s 0 0 0 upd] b f N s obtain v where
    v: "rd upd 0 s = Some (upd (\<lambda>_. v) s)" "holds m S off N 0 v" by auto
  from load_op_holds [OF b, of 1 "{}"] N off obtain w where w: "load_op (S + 4) m = Some w" "holds m S off N (Suc 0) w" by auto
  let ?s = "bump x y z (upd' (\<lambda>_. w) (upd (\<lambda>_. v) s))"
  have r: "rd upd' 1 (upd (\<lambda>_. v) s) = Some (upd' (\<lambda>_. w) (upd (\<lambda>_. v) s))"
    using s w(1) upd(1,2) by (simp add: rd_def OPSIZ_def reg_def)
  have "of_nat N + (of_nat i - 1) = (of_nat (N - Suc 0 + i) :: u32)" using N by (simp add: of_nat_diff)
  then have "fwdm_at m dst S off N sh_1 sh_2 i 0 v w ?s"
    unfolding i using s upd(1,2) b f N off sh v(2) w(2) by (simp add: fwdm_at_def bump_def reg_def)
  from fwdm_run [OF step t, of ?s] this upd(3,4) v(1) r show ?thesis by simp
qed

lemma wordcopy_fwd_dest_aligned_copied:
  assumes b: "blocks m dst (src AND - OPSIZ) (unat (src mod OPSIZ)) N" and f: "fwd_safe dst src (4 * N)" and N: "2 \<le> N"
    and off: "src mod OPSIZ \<noteq> 0"
    and s: "srcp s = src" "dstp s = dst" "len s = of_nat N" "cmem s = m"
  shows "\<exists>s'. wordcopy_fwd_dest_aligned s = Some s' \<and> cmem s' = copied m dst src {..<4 * N}"
proof -
  let ?S = "src AND - OPSIZ" and ?off = "unat (src mod OPSIZ)"
  have N32: "N < 2 ^ 32" using b by (simp add: blocks_def)
  have N0: "0 < N" and o: "0 < ?off" using N off by (auto simp: unat_gt_0)
  have src: "?S + of_nat ?off = src" by (rule split_addr)
  define sh_1 where "sh_1 = 8 * (src mod OPSIZ)"
  define sh_2 where "sh_2 = 8 * OPSIZ - sh_1"
  have sh: "sh_1 = 8 * of_nat ?off" "sh_2 = 32 - sh_1" by (simp_all add: OPSIZ_def sh_1_def sh_2_def)
  have f': "fwd_safe dst (?S + of_nat ?off) (4 * N)" unfolding src by (rule f)
  have s0: "srcp (s\<lparr>srcp := ?S\<rparr>) = ?S" "dstp (s\<lparr>srcp := ?S\<rparr>) = dst" "len (s\<lparr>srcp := ?S\<rparr>) = of_nat N" "cmem (s\<lparr>srcp := ?S\<rparr>) = m"
    using s by simp_all
  note from_reg = fwdm_from [OF b o f' N0 sh s0, unfolded src]
  note def = wordcopy_fwd_dest_aligned_def Let_def s of_nat_mod_iff [OF N32, of 4] threshold
    sh_1_def [symmetric] sh_2_def [symmetric]
  consider "N mod 4 = 2" | "N mod 4 = 3" | "N mod 4 = 0" | "N mod 4 = 1" by linarith
  then show ?thesis
  proof cases
    case 1
    then have t: "(N - Suc 1) mod 4 = 0" "1 < N" using entry_count [of N 4 1] N by simp_all
    show ?thesis by (simp add: def 1, intro from_reg [OF _ _ _ _ _ _ _ _ t(1), where get = a1 and get' = a2 and i = 3])
      (auto simp: bump_def OPSIZ_def intro: fwdm_do1_at [OF _ _ t(2)] simp del: One_nat_def)
  next
    case 2
    then have t: "(N - Suc 2) mod 4 = 0" "2 < N" using entry_count [of N 4 2] N by simp_all
    show ?thesis by (simp add: def 2, intro from_reg [OF _ _ _ _ _ _ _ _ t(1), where get = a0 and get' = a1 and i = 2])
      (auto simp: bump_def OPSIZ_def intro: fwdm_do2_at [OF _ _ t(2)] simp del: One_nat_def)
  next
    case 3
    then have t: "(N - Suc 3) mod 4 = 0" "3 < N" using entry_count [of N 4 3] N by simp_all
    show ?thesis by (simp add: def 3, intro from_reg [OF _ _ _ _ _ _ _ _ t(1), where get = a3 and get' = a0 and i = 1])
      (auto simp: bump_def OPSIZ_def intro: fwdm_do3_at [OF _ _ t(2)] simp del: One_nat_def)
  next
    case 4
    then have t: "(N - Suc 4) mod 4 = 0" "4 < N" using entry_count [of N 4 4] N by simp_all
    show ?thesis by (simp add: def 4, intro from_reg [OF _ _ _ _ _ _ _ _ t(1), where get = a2 and get' = a3 and i = 0])
      (auto simp: bump_def OPSIZ_def intro: fwdm_do4_at [OF _ _ t(2)] simp del: One_nat_def)
  qed
qed

end
