(* ===== verification/Memcopy_Bwd.thy ===== *)
theory Memcopy_Bwd
  imports Memcopy_Words
begin

text \<open>
  The two word loops that go down (\<open>_wordcopy_bwd_aligned\<close> and \<open>_wordcopy_bwd_dest_aligned\<close>) copy the block, whatever
  entry point the length selects.
\<close>

section \<open>Word accesses on the way down\<close>

lemma add4_mod: "(a + 4 * b) mod 4 = a mod (4 :: addr)"
proof -
  have "4 * unat b mod 4294967296 mod 4 = 0" by (subst mod_mod_cancel) auto
  then have "(unat a + 4 * unat b mod 4294967296) mod 4 = unat a mod 4"
    by (metis add.right_neutral mod_add_right_eq)
  then show ?thesis by (simp add: word_unat_eq_iff unat_mod unat_word_ariths mod_mod_cancel)
qed

lemma add4_and: "(a + 4 * b) AND - OPSIZ = (a AND - OPSIZ) + 4 * b"
proof -
  have "x AND - OPSIZ = x - x mod OPSIZ" for x :: addr
    using split_addr(1) [of x] by (simp add: eq_diff_eq)
  then show ?thesis by (simp add: OPSIZ_def add4_mod)
qed

lemma rd_bwd:
  assumes b: "blocks m dst S off N" and f: "bwd_safe dst (S + of_nat off) (4 * N)"
    and s: "cmem s = copied m dst (S + of_nat off) {4 * Suc k..<4 * N}" "srcp s + 4 * of_nat i = S + 4 * of_nat x"
    and x: "x \<le> k \<or> N \<le> Suc k" "4 * x < off + 4 * N"
  shows "\<exists>w. rd upd (of_nat i) s = Some (upd (\<lambda>_. w) s) \<and> holds m S off N x w"
proof -
  have "\<exists>w. load_op (S + 4 * of_nat x) (copied m dst (S + of_nat off) {4 * Suc k..<4 * N}) = Some w \<and> holds m S off N x w"
  proof (rule load_op_holds [OF b x(2)])
    show "{4 * Suc k..<4 * N} \<subseteq> {..<4 * N}" by auto
    fix i j assume ij: "i \<in> {4 * Suc k..<4 * N}" "j < 4" "off \<le> 4 * x + j" "4 * x + j < off + 4 * N"
    have "i < 4 * N" "4 * x + j - off < i" using ij x(1) by auto
    then have "dst + of_nat i \<noteq> S + of_nat off + of_nat (4 * x + j - off)" using f unfolding bwd_safe_def by blast
    moreover have "S + of_nat off + of_nat (4 * x + j - off) = S + (of_nat (4 * x + j) :: addr)"
      using ij(3) by (simp only: of_nat_diff) simp
    ultimately show "dst + of_nat i \<noteq> S + of_nat (4 * x + j)" by simp
  qed
  then show ?thesis using s by (auto simp: rd_def OPSIZ_def)
qed

lemma wr_bwd:
  assumes b: "blocks m dst S off N"
    and s: "cmem s = copied m dst (S + of_nat off) {4 * Suc k..<4 * N}" "dstp s + 4 * of_nat i = dst + 4 * of_nat k" and k: "k < N"
    and v: "\<And>j. j < 4 \<Longrightarrow> m (S + of_nat off + of_nat (4 * k + j)) = Some (byte_of j v)"
  shows "wr (of_nat i) v s = Some (s\<lparr>cmem := copied m dst (S + of_nat off) {4 * k..<4 * N}\<rparr>)"
proof -
  have "store_op (dst + 4 * of_nat k) v (copied m dst (S + of_nat off) {4 * Suc k..<4 * N}) =
      Some (copied m dst (S + of_nat off) ({4 * Suc k..<4 * N} \<union> {4 * k..<4 * k + 4}))"
    by (rule store_op_copied [OF b k _ v]) auto
  moreover have "{4 * Suc k..<4 * N} \<union> {4 * k..<4 * k + 4} = {4 * k..<4 * N}" using k by auto
  ultimately show ?thesis using s by (simp add: wr_def OPSIZ_def)
qed

section \<open>Backward, both aligned\<close>

text \<open>
  With \<open>j\<close> statements of the unrolled loop to go, the words above \<open>k\<close> have been written and word \<open>k\<close> is in the
  register with the value \<open>v\<close>.
\<close>

definition bwd_at :: "mem \<Rightarrow> addr \<Rightarrow> addr \<Rightarrow> nat \<Rightarrow> nat \<Rightarrow> nat \<Rightarrow> u32 \<Rightarrow> copy_state \<Rightarrow> bool" where
  "bwd_at m dst src N j k v s \<longleftrightarrow> blocks m dst src 0 N \<and> bwd_safe dst src (4 * N) \<and> k < N \<and>
     srcp s + 4 * of_nat j = src + 4 * of_nat k \<and> dstp s + 4 * of_nat j = dst + 4 * of_nat (Suc k) \<and>
     len s + of_nat j = of_nat (k + 8) \<and> cmem s = copied m dst src {4 * Suc k..<4 * N} \<and> holds m src 0 N k v"

lemma bwd_step:
  assumes a: "bwd_at m dst src N (Suc i) (Suc k) v s"
  obtains w where "rd upd (of_nat i) s = Some (upd (\<lambda>_. w) s)"
    "\<And>s'. srcp s' = srcp s \<Longrightarrow> dstp s' = dstp s \<Longrightarrow> len s' = len s \<Longrightarrow> cmem s' = cmem s \<Longrightarrow>
      wr (of_nat i) v s' = Some (s'\<lparr>cmem := copied m dst src {4 * Suc k..<4 * N}\<rparr>) \<and>
      bwd_at m dst src N i k w (s'\<lparr>cmem := copied m dst src {4 * Suc k..<4 * N}\<rparr>)"
proof -
  note d = a [unfolded bwd_at_def]
  have p: "srcp s + 4 * of_nat i = src + 4 * of_nat k" "dstp s + 4 * of_nat i = dst + 4 * of_nat (Suc k)"
    "len s + of_nat i = of_nat (k + 8)" using d by (simp_all add: algebra_simps)
  from rd_bwd [of m dst src 0 N s "Suc k" i k upd] d p(1) obtain w where
    w: "rd upd (of_nat i) s = Some (upd (\<lambda>_. w) s)" "holds m src 0 N k w" by auto
  have "wr (of_nat i) v s' = Some (s'\<lparr>cmem := copied m dst src {4 * Suc k..<4 * N}\<rparr>) \<and>
      bwd_at m dst src N i k w (s'\<lparr>cmem := copied m dst src {4 * Suc k..<4 * N}\<rparr>)"
    if "srcp s' = srcp s" "dstp s' = dstp s" "len s' = len s" "cmem s' = cmem s" for s'
    using wr_bwd [of m dst src 0 N s' "Suc k" i v] holds_bytes [of m src N "Suc k" v] d p w(2) that
    by (simp add: bwd_at_def del: mult_Suc_right)
  with w(1) show thesis by (rule that)
qed

lemma bwd_step_a0:
  assumes "bwd_at m dst src N (Suc i) (Suc k) (a1 s) s"
  shows "ends (\<lambda>s. rd a0_update (of_nat i) s \<bind> (\<lambda>s. wr (of_nat i) (a1 s) s)) s (\<lambda>s. bwd_at m dst src N i k (a0 s) s)"
  by (rule bwd_step [OF assms, of a0_update]) (auto simp: ends_def)

lemma bwd_step_a1:
  assumes "bwd_at m dst src N (Suc i) (Suc k) (a0 s) s"
  shows "ends (\<lambda>s. rd a1_update (of_nat i) s \<bind> (\<lambda>s. wr (of_nat i) (a0 s) s)) s (\<lambda>s. bwd_at m dst src N i k (a1 s) s)"
  by (rule bwd_step [OF assms, of a1_update]) (auto simp: ends_def)

lemma bwd_do1_at:
  "bwd_at m dst src N 1 k (a0 s) s \<Longrightarrow> k = t + 1 \<Longrightarrow> ends bwd_do1 s (\<lambda>s. bwd_at m dst src N 0 t (a1 s) s)"
  using bwd_step_a1 [of m dst src N 0 t s] by (simp add: bwd_do1_def [abs_def])

lemma bwd_do2_at:
  "bwd_at m dst src N 2 k (a1 s) s \<Longrightarrow> k = t + 2 \<Longrightarrow> ends bwd_do2 s (\<lambda>s. bwd_at m dst src N 0 t (a1 s) s)"
  unfolding bwd_do2_def [abs_def]
  by (rule ends_bind [OF bwd_step_a0 [of m dst src N 1 "t + 1" s, simplified]]) (auto intro: bwd_do1_at simp: eval_nat_numeral)

lemma bwd_do3_at:
  "bwd_at m dst src N 3 k (a0 s) s \<Longrightarrow> k = t + 3 \<Longrightarrow> ends bwd_do3 s (\<lambda>s. bwd_at m dst src N 0 t (a1 s) s)"
  unfolding bwd_do3_def [abs_def]
  by (rule ends_bind [OF bwd_step_a1 [of m dst src N 2 "t + 2" s, simplified]]) (auto intro: bwd_do2_at simp: eval_nat_numeral)

lemma bwd_do4_at:
  "bwd_at m dst src N 4 k (a1 s) s \<Longrightarrow> k = t + 4 \<Longrightarrow> ends bwd_do4 s (\<lambda>s. bwd_at m dst src N 0 t (a1 s) s)"
  unfolding bwd_do4_def [abs_def]
  by (rule ends_bind [OF bwd_step_a0 [of m dst src N 3 "t + 3" s, simplified]]) (auto intro: bwd_do3_at simp: eval_nat_numeral)

lemma bwd_do5_at:
  "bwd_at m dst src N 5 k (a0 s) s \<Longrightarrow> k = t + 5 \<Longrightarrow> ends bwd_do5 s (\<lambda>s. bwd_at m dst src N 0 t (a1 s) s)"
  unfolding bwd_do5_def [abs_def]
  by (rule ends_bind [OF bwd_step_a1 [of m dst src N 4 "t + 4" s, simplified]]) (auto intro: bwd_do4_at simp: eval_nat_numeral)

lemma bwd_do6_at:
  "bwd_at m dst src N 6 k (a1 s) s \<Longrightarrow> k = t + 6 \<Longrightarrow> ends bwd_do6 s (\<lambda>s. bwd_at m dst src N 0 t (a1 s) s)"
  unfolding bwd_do6_def [abs_def]
  by (rule ends_bind [OF bwd_step_a0 [of m dst src N 5 "t + 5" s, simplified]]) (auto intro: bwd_do5_at simp: eval_nat_numeral)

lemma bwd_do7_at:
  "bwd_at m dst src N 7 k (a0 s) s \<Longrightarrow> k = t + 7 \<Longrightarrow> ends bwd_do7 s (\<lambda>s. bwd_at m dst src N 0 t (a1 s) s)"
  unfolding bwd_do7_def [abs_def]
  by (rule ends_bind [OF bwd_step_a1 [of m dst src N 6 "t + 6" s, simplified]]) (auto intro: bwd_do6_at simp: eval_nat_numeral)

lemma bwd_do8_at:
  "bwd_at m dst src N 8 k (a1 s) s \<Longrightarrow> k = t + 8 \<Longrightarrow> ends bwd_do8 s (\<lambda>s. bwd_at m dst src N 0 t (a1 s) s)"
  unfolding bwd_do8_def [abs_def]
  by (rule ends_bind [OF bwd_step_a0 [of m dst src N 7 "t + 7" s, simplified]]) (auto intro: bwd_do7_at simp: eval_nat_numeral)

lemma bwd_loop_at:
  assumes "bwd_at m dst src N 0 k (a1 s) s" "k mod 8 = 0"
  shows "ends bwd_loop s (\<lambda>s. bwd_at m dst src N 8 0 (a1 s) s)"
  using assms
proof (induction k arbitrary: s rule: less_induct)
  case (less k)
  let ?s = "bump (- 8 * OPSIZ) (- 8 * OPSIZ) (- 8) s"
  have N: "4 * N \<le> 2 ^ 31" "k < N" using less.prems(1) by (auto simp: bwd_at_def blocks_def)
  have at: "bwd_at m dst src N 8 k (a1 ?s) ?s"
    using less.prems(1) by (simp add: bwd_at_def bump_def OPSIZ_def algebra_simps)
  then have l: "len ?s = of_nat k" by (simp add: bwd_at_def)
  show ?case
  proof (cases "k = 0")
    case True
    then show ?thesis using at l by (subst ends_def, subst bwd_loop.simps) (simp add: Let_def)
  next
    case False
    with less.prems(2) obtain t where t: "k = t + 8" "t mod 8 = 0" by (metis add.commute le_add_diff_inverse mod_add_self2 mod_less not_less)
    from bwd_do8_at [OF at t(1)] obtain s1 where s1: "bwd_do8 ?s = Some s1" "bwd_at m dst src N 0 t (a1 s1) s1"
      by (auto simp: ends_def)
    have "ends bwd_loop s1 (\<lambda>s. bwd_at m dst src N 8 0 (a1 s) s)" by (rule less.IH [OF _ s1(2) t(2)]) (use t in simp)
    moreover have "len ?s > 0" unfolding l using False N by (subst of_nat_pos_iff) auto
    then have "len ?s \<noteq> 0" by (metis less_irrefl)
    ultimately show ?thesis using s1(1) by (subst ends_def, subst bwd_loop.simps) (simp add: Let_def ends_def)
  qed
qed

lemma bwd_finish:
  assumes "bwd_at m dst src N 0 k (a1 s) s" "k mod 8 = 0"
  shows "\<exists>s'. bwd_loop s \<bind> bwd_do0 = Some s' \<and> cmem s' = copied m dst src {..<4 * N}"
proof -
  from bwd_loop_at [OF assms] obtain s1 where s1: "bwd_loop s = Some s1" "bwd_at m dst src N 8 0 (a1 s1) s1"
    by (auto simp: ends_def)
  note d = s1(2) [unfolded bwd_at_def]
  have "dstp s1 + 4 * of_nat 7 = dst + 4 * of_nat 0" using d by (simp add: algebra_simps)
  with wr_bwd [of m dst src 0 N s1 0 7 "a1 s1"] holds_bytes [of m src N 0 "a1 s1"] d s1(1)
  show ?thesis by (simp add: bwd_do0_def atLeast0LessThan)
qed

lemma bwd_run:
  assumes "ends f s (\<lambda>s. bwd_at m dst src N 0 t (a1 s) s)" "t mod 8 = 0"
  shows "\<exists>s'. f s \<bind> (\<lambda>s. bwd_loop s \<bind> bwd_do0) = Some s' \<and> cmem s' = copied m dst src {..<4 * N}"
  using assms bwd_finish by (fastforce simp: ends_def)

lemma bump_0 [simp]: "bump 0 0 0 s = s"
  by (simp add: bump_def)

text \<open>Each entry point moves the pointers down, loads the last word and jumps into the loop.\<close>

lemma bwd_from:
  assumes b: "blocks m dst src 0 N" and f: "bwd_safe dst src (4 * N)" and N: "0 < N"
    and s: "srcp s = src + 4 * of_nat N" "dstp s = dst + 4 * of_nat N" "len s = of_nat N" "cmem s = m"
    and upd: "reg upd" "\<And>v z s. get (bump 0 0 z (upd (\<lambda>_. v) s)) = v"
    and step: "\<And>s. bwd_at m dst src N j (N - 1) (get s) s \<Longrightarrow> ends g s (\<lambda>s. bwd_at m dst src N 0 t (a1 s) s)"
    and j: "i = of_nat j" "x = - 4 - 4 * of_nat j" "y = - 4 * of_nat j" "z + z' = 7 - of_nat j" and t: "t mod 8 = 0"
  shows "\<exists>s'. rd upd i (bump x y z s) \<bind> (\<lambda>s. g (bump 0 0 z' s) \<bind> (\<lambda>s. bwd_loop s \<bind> bwd_do0)) = Some s' \<and>
    cmem s' = copied m dst src {..<4 * N}"
proof -
  let ?s = "bump x y z s"
  have N': "of_nat (N - 1) = (of_nat N - 1 :: u32)" using N by (simp add: of_nat_diff)
  have p: "srcp ?s + 4 * of_nat j = src + 4 * of_nat (N - 1)" "dstp ?s + 4 * of_nat j = dst + 4 * of_nat N" "cmem ?s = m"
    unfolding N' j(2,3) using s by (simp_all add: bump_def algebra_simps)
  from rd_bwd [of m dst src 0 N ?s "N - 1" j "N - 1" upd] b f N p obtain w where
    w: "rd upd i ?s = Some (upd (\<lambda>_. w) ?s)" "holds m src 0 N (N - 1) w" using j(1) by auto
  have "len (bump 0 0 z' ?s) + of_nat j = of_nat (N - 1 + 8)"
    using s(3) j(4) N by (simp add: bump_def of_nat_diff algebra_simps)
  then have "bwd_at m dst src N j (N - 1) w (bump 0 0 z' (upd (\<lambda>_. w) ?s))"
    using p upd(1) b f N w(2) by (simp add: bwd_at_def bump_def reg_def)
  from bwd_run [OF step t, of "bump 0 0 z' (upd (\<lambda>_. w) ?s)"] this upd(2) w(1) show ?thesis by simp
qed

lemma wordcopy_bwd_aligned_copied:
  assumes b: "blocks m dst src 0 N" and f: "bwd_safe dst src (4 * N)" and N: "2 \<le> N"
    and s: "srcp s = src + 4 * of_nat N" "dstp s = dst + 4 * of_nat N" "len s = of_nat N" "cmem s = m"
  shows "\<exists>s'. wordcopy_bwd_aligned s = Some s' \<and> cmem s' = copied m dst src {..<4 * N}"
proof -
  have N32: "N < 2 ^ 32" using b by (simp add: blocks_def)
  have N0: "0 < N" using N by simp
  note from_a0 = bwd_from [OF b f N0 s, of a0_update a0, where z' = 0, simplified bump_0]
  note from_a1 = bwd_from [OF b f N0 s, of a1_update a1, where z' = 0, simplified bump_0]
  note from_a1' = bwd_from [OF b f N0 s, of a1_update a1, where z' = "- 1"]
  note def = wordcopy_bwd_aligned_def Let_def s(3) of_nat_mod_iff [OF N32, of 8] threshold
  consider "N mod 8 = 2" | "N mod 8 = 3" | "N mod 8 = 4" | "N mod 8 = 5" | "N mod 8 = 6" | "N mod 8 = 7" | "N mod 8 = 0" | "N mod 8 = 1"
    by linarith
  then show ?thesis
  proof cases
    case 1
    have t: "(N - 2) mod 8 = 0" "N - 1 = N - 2 + 1"
      by (rule entry_count_down [of N 8 1]; use N in \<open>simp add: 1\<close>)+
    show ?thesis by (simp add: def 1, intro from_a0 [OF _ _ _ _ _ _ _ t(1), where j = 1])
      (auto simp: bump_def OPSIZ_def intro: bwd_do1_at [OF _ t(2)] simp del: One_nat_def)
  next
    case 2
    have t: "(N - 3) mod 8 = 0" "N - 1 = N - 3 + 2"
      by (rule entry_count_down [of N 8 2]; use N in \<open>simp add: 2\<close>)+
    show ?thesis by (simp add: def 2, intro from_a1 [OF _ _ _ _ _ _ _ t(1), where j = 2])
      (auto simp: bump_def OPSIZ_def intro: bwd_do2_at [OF _ t(2)] simp del: One_nat_def)
  next
    case 3
    have t: "(N - 4) mod 8 = 0" "N - 1 = N - 4 + 3"
      by (rule entry_count_down [of N 8 3]; use N in \<open>simp add: 3\<close>)+
    show ?thesis by (simp add: def 3, intro from_a0 [OF _ _ _ _ _ _ _ t(1), where j = 3])
      (auto simp: bump_def OPSIZ_def intro: bwd_do3_at [OF _ t(2)] simp del: One_nat_def)
  next
    case 4
    have t: "(N - 5) mod 8 = 0" "N - 1 = N - 5 + 4"
      by (rule entry_count_down [of N 8 4]; use N in \<open>simp add: 4\<close>)+
    show ?thesis by (simp add: def 4, intro from_a1 [OF _ _ _ _ _ _ _ t(1), where j = 4])
      (auto simp: bump_def OPSIZ_def intro: bwd_do4_at [OF _ t(2)] simp del: One_nat_def)
  next
    case 5
    have t: "(N - 6) mod 8 = 0" "N - 1 = N - 6 + 5"
      by (rule entry_count_down [of N 8 5]; use N in \<open>simp add: 5\<close>)+
    show ?thesis by (simp add: def 5, intro from_a0 [OF _ _ _ _ _ _ _ t(1), where j = 5])
      (auto simp: bump_def OPSIZ_def intro: bwd_do5_at [OF _ t(2)] simp del: One_nat_def)
  next
    case 6
    have t: "(N - 7) mod 8 = 0" "N - 1 = N - 7 + 6"
      by (rule entry_count_down [of N 8 6]; use N in \<open>simp add: 6\<close>)+
    show ?thesis by (simp add: def 6, intro from_a1 [OF _ _ _ _ _ _ _ t(1), where j = 6])
      (auto simp: bump_def OPSIZ_def intro: bwd_do6_at [OF _ t(2)] simp del: One_nat_def)
  next
    case 7
    have t: "(N - 8) mod 8 = 0" "N - 1 = N - 8 + 7"
      by (rule entry_count_down [of N 8 7]; use N in \<open>simp add: 7\<close>)+
    show ?thesis by (simp add: def 7, intro from_a0 [OF _ _ _ _ _ _ _ t(1), where j = 7])
      (auto simp: bump_def OPSIZ_def intro: bwd_do7_at [OF _ t(2)] simp del: One_nat_def)
  next
    case 8
    have t: "(N - 9) mod 8 = 0" "N - 1 = N - 9 + 8"
      by (rule entry_count_down [of N 8 8]; use N in \<open>simp add: 8\<close>)+
    show ?thesis by (simp add: def 8, intro from_a1' [OF _ _ _ _ _ _ _ t(1), where j = 8])
      (auto simp: bump_def OPSIZ_def intro: bwd_do8_at [OF _ t(2)] simp del: One_nat_def)
  qed
qed

section \<open>Backward, destination aligned\<close>

definition bwdm_at ::
  "mem \<Rightarrow> addr \<Rightarrow> addr \<Rightarrow> nat \<Rightarrow> nat \<Rightarrow> u32 \<Rightarrow> u32 \<Rightarrow> nat \<Rightarrow> nat \<Rightarrow> u32 \<Rightarrow> u32 \<Rightarrow> copy_state \<Rightarrow> bool" where
  "bwdm_at m dst S off N sh_1 sh_2 j k v w s \<longleftrightarrow> blocks m dst S off N \<and> 0 < off \<and> sh_1 = 8 * of_nat off \<and> sh_2 = 32 - sh_1 \<and>
     bwd_safe dst (S + of_nat off) (4 * N) \<and> k < N \<and>
     srcp s + 4 * of_nat j = S + 4 * of_nat k \<and> dstp s + 4 * of_nat j = dst + 4 * of_nat (Suc k) \<and>
     len s + of_nat j = of_nat (k + 4) \<and> cmem s = copied m dst (S + of_nat off) {4 * Suc k..<4 * N} \<and>
     holds m S off N k v \<and> holds m S off N (Suc k) w"

lemma bwdm_bytes:
  assumes "bwdm_at m dst S off N sh_1 sh_2 j k v w s" "i < 4"
  shows "m (S + of_nat off + of_nat (4 * k + i)) = Some (byte_of i (MERGE v sh_1 w sh_2))"
  using merge_bytes [of m S off N k v w i sh_1 sh_2] assms by (auto simp: bwdm_at_def blocks_def)

lemma bwdm_step:
  assumes a: "bwdm_at m dst S off N sh_1 sh_2 (Suc i) (Suc k) v w s"
  obtains x where "rd upd (of_nat i) s = Some (upd (\<lambda>_. x) s)"
    "\<And>s'. srcp s' = srcp s \<Longrightarrow> dstp s' = dstp s \<Longrightarrow> len s' = len s \<Longrightarrow> cmem s' = cmem s \<Longrightarrow>
      wr (of_nat i) (MERGE v sh_1 w sh_2) s' = Some (s'\<lparr>cmem := copied m dst (S + of_nat off) {4 * Suc k..<4 * N}\<rparr>) \<and>
      bwdm_at m dst S off N sh_1 sh_2 i k x v (s'\<lparr>cmem := copied m dst (S + of_nat off) {4 * Suc k..<4 * N}\<rparr>)"
proof -
  note d = a [unfolded bwdm_at_def]
  have p: "srcp s + 4 * of_nat i = S + 4 * of_nat k" "dstp s + 4 * of_nat i = dst + 4 * of_nat (Suc k)"
    "len s + of_nat i = of_nat (k + 4)" using d by (simp_all add: algebra_simps)
  from rd_bwd [of m dst S off N s "Suc k" i k upd] d p(1) obtain x where
    x: "rd upd (of_nat i) s = Some (upd (\<lambda>_. x) s)" "holds m S off N k x" by auto
  have "wr (of_nat i) (MERGE v sh_1 w sh_2) s' = Some (s'\<lparr>cmem := copied m dst (S + of_nat off) {4 * Suc k..<4 * N}\<rparr>) \<and>
      bwdm_at m dst S off N sh_1 sh_2 i k x v (s'\<lparr>cmem := copied m dst (S + of_nat off) {4 * Suc k..<4 * N}\<rparr>)"
    if "srcp s' = srcp s" "dstp s' = dstp s" "len s' = len s" "cmem s' = cmem s" for s'
  proof
    show "wr (of_nat i) (MERGE v sh_1 w sh_2) s' = Some (s'\<lparr>cmem := copied m dst (S + of_nat off) {4 * Suc k..<4 * N}\<rparr>)"
      by (rule wr_bwd [of m dst S off N s' "Suc k" i]) (use bwdm_bytes [OF a] d p that in auto)
    show "bwdm_at m dst S off N sh_1 sh_2 i k x v (s'\<lparr>cmem := copied m dst (S + of_nat off) {4 * Suc k..<4 * N}\<rparr>)"
      using d p that x(2) by (simp add: bwdm_at_def del: mult_Suc_right)
  qed
  with x(1) show thesis by (rule that)
qed

lemma bwdm_step_a0:
  assumes "bwdm_at m dst S off N sh_1 sh_2 (Suc i) (Suc k) (a1 s) (a2 s) s"
  shows "ends (\<lambda>s. rd a0_update (of_nat i) s \<bind> (\<lambda>s. wr (of_nat i) (MERGE (a1 s) sh_1 (a2 s) sh_2) s)) s
    (\<lambda>s. bwdm_at m dst S off N sh_1 sh_2 i k (a0 s) (a1 s) s)"
  by (rule bwdm_step [OF assms, of a0_update]) (auto simp: ends_def)

lemma bwdm_step_a1:
  assumes "bwdm_at m dst S off N sh_1 sh_2 (Suc i) (Suc k) (a2 s) (a3 s) s"
  shows "ends (\<lambda>s. rd a1_update (of_nat i) s \<bind> (\<lambda>s. wr (of_nat i) (MERGE (a2 s) sh_1 (a3 s) sh_2) s)) s
    (\<lambda>s. bwdm_at m dst S off N sh_1 sh_2 i k (a1 s) (a2 s) s)"
  by (rule bwdm_step [OF assms, of a1_update]) (auto simp: ends_def)

lemma bwdm_step_a2:
  assumes "bwdm_at m dst S off N sh_1 sh_2 (Suc i) (Suc k) (a3 s) (a0 s) s"
  shows "ends (\<lambda>s. rd a2_update (of_nat i) s \<bind> (\<lambda>s. wr (of_nat i) (MERGE (a3 s) sh_1 (a0 s) sh_2) s)) s
    (\<lambda>s. bwdm_at m dst S off N sh_1 sh_2 i k (a2 s) (a3 s) s)"
  by (rule bwdm_step [OF assms, of a2_update]) (auto simp: ends_def)

lemma bwdm_step_a3:
  assumes "bwdm_at m dst S off N sh_1 sh_2 (Suc i) (Suc k) (a0 s) (a1 s) s"
  shows "ends (\<lambda>s. rd a3_update (of_nat i) s \<bind> (\<lambda>s. wr (of_nat i) (MERGE (a0 s) sh_1 (a1 s) sh_2) s)) s
    (\<lambda>s. bwdm_at m dst S off N sh_1 sh_2 i k (a3 s) (a0 s) s)"
  by (rule bwdm_step [OF assms, of a3_update]) (auto simp: ends_def)

lemma bwdm_do1_at:
  "bwdm_at m dst S off N sh_1 sh_2 1 k (a1 s) (a2 s) s \<Longrightarrow> k = t + 1 \<Longrightarrow>
    ends (bwdm_do1 sh_1 sh_2) s (\<lambda>s. bwdm_at m dst S off N sh_1 sh_2 0 t (a0 s) (a1 s) s)"
  using bwdm_step_a0 [of m dst S off N sh_1 sh_2 0 t s] by (simp add: bwdm_do1_def [abs_def])

lemma bwdm_do2_at:
  "bwdm_at m dst S off N sh_1 sh_2 2 k (a2 s) (a3 s) s \<Longrightarrow> k = t + 2 \<Longrightarrow>
    ends (bwdm_do2 sh_1 sh_2) s (\<lambda>s. bwdm_at m dst S off N sh_1 sh_2 0 t (a0 s) (a1 s) s)"
  unfolding bwdm_do2_def [abs_def]
  by (rule ends_bind [OF bwdm_step_a1 [of m dst S off N sh_1 sh_2 1 "t + 1" s, simplified]]) (auto intro: bwdm_do1_at simp: eval_nat_numeral)

lemma bwdm_do3_at:
  "bwdm_at m dst S off N sh_1 sh_2 3 k (a3 s) (a0 s) s \<Longrightarrow> k = t + 3 \<Longrightarrow>
    ends (bwdm_do3 sh_1 sh_2) s (\<lambda>s. bwdm_at m dst S off N sh_1 sh_2 0 t (a0 s) (a1 s) s)"
  unfolding bwdm_do3_def [abs_def]
  by (rule ends_bind [OF bwdm_step_a2 [of m dst S off N sh_1 sh_2 2 "t + 2" s, simplified]]) (auto intro: bwdm_do2_at simp: eval_nat_numeral)

lemma bwdm_do4_at:
  "bwdm_at m dst S off N sh_1 sh_2 4 k (a0 s) (a1 s) s \<Longrightarrow> k = t + 4 \<Longrightarrow>
    ends (bwdm_do4 sh_1 sh_2) s (\<lambda>s. bwdm_at m dst S off N sh_1 sh_2 0 t (a0 s) (a1 s) s)"
  unfolding bwdm_do4_def [abs_def]
  by (rule ends_bind [OF bwdm_step_a3 [of m dst S off N sh_1 sh_2 3 "t + 3" s, simplified]]) (auto intro: bwdm_do3_at simp: eval_nat_numeral)

lemma bwdm_loop_at:
  assumes "bwdm_at m dst S off N sh_1 sh_2 0 k (a0 s) (a1 s) s" "k mod 4 = 0"
  shows "ends (bwdm_loop sh_1 sh_2) s (\<lambda>s. bwdm_at m dst S off N sh_1 sh_2 4 0 (a0 s) (a1 s) s)"
  using assms
proof (induction k arbitrary: s rule: less_induct)
  case (less k)
  let ?s = "bump (- 4 * OPSIZ) (- 4 * OPSIZ) (- 4) s"
  have N: "4 * N \<le> 2 ^ 31" "k < N" using less.prems(1) by (auto simp: bwdm_at_def blocks_def)
  have at: "bwdm_at m dst S off N sh_1 sh_2 4 k (a0 ?s) (a1 ?s) ?s"
    using less.prems(1) by (auto simp: bwdm_at_def bump_def OPSIZ_def algebra_simps)
  then have l: "len ?s = of_nat k" by (simp add: bwdm_at_def)
  show ?case
  proof (cases "k = 0")
    case True
    then show ?thesis using at l by (subst ends_def, subst bwdm_loop.simps) (simp add: Let_def)
  next
    case False
    with less.prems(2) obtain t where t: "k = t + 4" "t mod 4 = 0" by (metis add.commute le_add_diff_inverse mod_add_self2 mod_less not_less)
    from bwdm_do4_at [OF at t(1)] obtain s1 where s1: "bwdm_do4 sh_1 sh_2 ?s = Some s1" "bwdm_at m dst S off N sh_1 sh_2 0 t (a0 s1) (a1 s1) s1"
      by (auto simp: ends_def)
    have "ends (bwdm_loop sh_1 sh_2) s1 (\<lambda>s. bwdm_at m dst S off N sh_1 sh_2 4 0 (a0 s) (a1 s) s)"
      by (rule less.IH [OF _ s1(2) t(2)]) (use t in simp)
    moreover have "len ?s > 0" unfolding l using False N by (subst of_nat_pos_iff) auto
    then have "len ?s \<noteq> 0" by (metis less_irrefl)
    ultimately show ?thesis using s1(1) by (subst ends_def, subst bwdm_loop.simps) (simp add: Let_def ends_def)
  qed
qed

lemma bwdm_run:
  assumes "ends f s (\<lambda>s. bwdm_at m dst S off N sh_1 sh_2 0 t (a0 s) (a1 s) s)" "t mod 4 = 0"
  shows "\<exists>s'. f s \<bind> (\<lambda>s. bwdm_loop sh_1 sh_2 s \<bind> bwdm_do0 sh_1 sh_2) = Some s' \<and>
    cmem s' = copied m dst (S + of_nat off) {..<4 * N}"
proof -
  from assms(1) obtain s1 where s1: "f s = Some s1" "bwdm_at m dst S off N sh_1 sh_2 0 t (a0 s1) (a1 s1) s1" by (auto simp: ends_def)
  from bwdm_loop_at [OF s1(2) assms(2)] obtain s2 where s2: "bwdm_loop sh_1 sh_2 s1 = Some s2"
    "bwdm_at m dst S off N sh_1 sh_2 4 0 (a0 s2) (a1 s2) s2" by (auto simp: ends_def)
  note d = s2(2) [unfolded bwdm_at_def]
  have p: "dstp s2 + 4 * of_nat 3 = dst + 4 * of_nat 0" using d by (simp add: algebra_simps)
  have "wr (of_nat 3) (MERGE (a0 s2) sh_1 (a1 s2) sh_2) s2 = Some (s2\<lparr>cmem := copied m dst (S + of_nat off) {4 * 0..<4 * N}\<rparr>)"
    by (rule wr_bwd [OF _ _ p]) (use bwdm_bytes [OF s2(2)] d in auto)
  then show ?thesis using s1(1) s2(1) by (simp add: bwdm_do0_def atLeast0LessThan)
qed

lemma bwdm_from:
  assumes b: "blocks m dst S off N" and off: "0 < off" and f: "bwd_safe dst (S + of_nat off) (4 * N)" and N: "0 < N"
    and sh: "sh_1 = 8 * of_nat off" "sh_2 = 32 - sh_1"
    and s: "srcp s = S + 4 * of_nat (Suc N)" "dstp s = dst + 4 * of_nat N" "len s = of_nat N" "cmem s = m"
    and upd: "reg upd" "reg upd'" "\<And>v w z s. get (bump 0 0 z (upd' (\<lambda>_. v) (upd (\<lambda>_. w) s))) = v"
      "\<And>v w z s. get' (bump 0 0 z (upd' (\<lambda>_. v) (upd (\<lambda>_. w) s))) = w"
    and step: "\<And>s. bwdm_at m dst S off N sh_1 sh_2 j (N - 1) (get s) (get' s) s \<Longrightarrow>
      ends g s (\<lambda>s. bwdm_at m dst S off N sh_1 sh_2 0 t (a0 s) (a1 s) s)"
    and j: "i = of_nat (Suc j)" "i' = of_nat j" "x = - 8 - 4 * of_nat j" "y = - 4 * of_nat j" "z + z' = 3 - of_nat j" and t: "t mod 4 = 0"
  shows "\<exists>s'. rd upd i (bump x y z s) \<bind> (\<lambda>s. rd upd' i' s \<bind> (\<lambda>s. g (bump 0 0 z' s) \<bind>
      (\<lambda>s. bwdm_loop sh_1 sh_2 s \<bind> bwdm_do0 sh_1 sh_2))) = Some s' \<and>
    cmem s' = copied m dst (S + of_nat off) {..<4 * N}"
proof -
  let ?s = "bump x y z s"
  have N': "of_nat (N - 1) = (of_nat N - 1 :: u32)" using N by (simp add: of_nat_diff)
  have p: "srcp ?s + 4 * of_nat j = S + 4 * of_nat (N - 1)" "srcp ?s + 4 * of_nat (Suc j) = S + 4 * of_nat N"
    "dstp ?s + 4 * of_nat j = dst + 4 * of_nat N" "cmem ?s = m"
    unfolding N' j(3,4) using s by (simp_all add: bump_def algebra_simps)
  from rd_bwd [of m dst S off N ?s "N - 1" "Suc j" N upd] b f N p off obtain w where
    w: "rd upd i ?s = Some (upd (\<lambda>_. w) ?s)" "holds m S off N N w" using j(1) by auto
  have lt: "4 * (N - 1) < off + 4 * N" using N by linarith
  from rd_bwd [OF b f _ _ _ lt, of "upd (\<lambda>_. w) ?s" "N - 1" j upd'] N p upd(1) obtain v where
    v: "rd upd' i' (upd (\<lambda>_. w) ?s) = Some (upd' (\<lambda>_. v) (upd (\<lambda>_. w) ?s))" "holds m S off N (N - 1) v"
    using j(2) by (auto simp: reg_def)
  have "len (bump 0 0 z' ?s) + of_nat j = of_nat (N - 1 + 4)"
    using s(3) j(5) N by (simp add: bump_def of_nat_diff algebra_simps)
  then have "bwdm_at m dst S off N sh_1 sh_2 j (N - 1) v w (bump 0 0 z' (upd' (\<lambda>_. v) (upd (\<lambda>_. w) ?s)))"
    using p upd(1,2) b f off sh N w(2) v(2) by (simp add: bwdm_at_def bump_def reg_def)
  from bwdm_run [OF step t, of "bump 0 0 z' (upd' (\<lambda>_. v) (upd (\<lambda>_. w) ?s))"] this upd(3,4) v(1) w(1) show ?thesis by simp
qed

lemma wordcopy_bwd_dest_aligned_copied:
  assumes b: "blocks m dst (src AND - OPSIZ) (unat (src mod OPSIZ)) N" and f: "bwd_safe dst src (4 * N)" and N: "2 \<le> N"
    and off: "src mod OPSIZ \<noteq> 0"
    and s: "srcp s = src + 4 * of_nat N" "dstp s = dst + 4 * of_nat N" "len s = of_nat N" "cmem s = m"
  shows "\<exists>s'. wordcopy_bwd_dest_aligned s = Some s' \<and> cmem s' = copied m dst src {..<4 * N}"
proof -
  let ?S = "src AND - OPSIZ" and ?off = "unat (src mod OPSIZ)"
  let ?s = "s\<lparr>srcp := (srcp s AND - OPSIZ) + OPSIZ\<rparr>"
  have N32: "N < 2 ^ 32" using b by (simp add: blocks_def)
  have N0: "0 < N" and o: "0 < ?off" using N off by (auto simp: unat_gt_0)
  have src: "?S + of_nat ?off = src" by (rule split_addr)
  define sh_1 where "sh_1 = 8 * (srcp s mod OPSIZ)"
  define sh_2 where "sh_2 = 8 * OPSIZ - sh_1"
  have sh: "sh_1 = 8 * of_nat ?off" "sh_2 = 32 - sh_1" by (simp_all add: OPSIZ_def sh_1_def sh_2_def s add4_mod)
  have f': "bwd_safe dst (?S + of_nat ?off) (4 * N)" unfolding src by (rule f)
  have s0: "srcp ?s = ?S + 4 * of_nat (Suc N)" "dstp ?s = dst + 4 * of_nat N" "len ?s = of_nat N" "cmem ?s = m"
    using s by (simp_all add: add4_and) (simp add: OPSIZ_def)
  note from_reg = bwdm_from [OF b o f' N0 sh s0, where z' = 0, unfolded src bump_0]
  note from_reg' = bwdm_from [OF b o f' N0 sh s0, where z' = "- 1", unfolded src]
  note def = wordcopy_bwd_dest_aligned_def Let_def s(3) of_nat_mod_iff [OF N32, of 4] threshold
    sh_1_def [symmetric] sh_2_def [symmetric]
  consider "N mod 4 = 2" | "N mod 4 = 3" | "N mod 4 = 0" | "N mod 4 = 1" by linarith
  then show ?thesis
  proof cases
    case 1
    have t: "(N - 2) mod 4 = 0" "N - 1 = N - 2 + 1"
      by (rule entry_count_down [of N 4 1]; use N in \<open>simp add: 1\<close>)+
    show ?thesis by (simp add: def 1, intro from_reg [OF _ _ _ _ _ _ _ _ _ _ t(1), where get = a1 and get' = a2 and j = 1])
      (auto simp: bump_def OPSIZ_def intro: bwdm_do1_at [OF _ t(2)] simp del: One_nat_def)
  next
    case 2
    have t: "(N - 3) mod 4 = 0" "N - 1 = N - 3 + 2"
      by (rule entry_count_down [of N 4 2]; use N in \<open>simp add: 2\<close>)+
    show ?thesis by (simp add: def 2, intro from_reg [OF _ _ _ _ _ _ _ _ _ _ t(1), where get = a2 and get' = a3 and j = 2])
      (auto simp: bump_def OPSIZ_def intro: bwdm_do2_at [OF _ t(2)] simp del: One_nat_def)
  next
    case 3
    have t: "(N - 4) mod 4 = 0" "N - 1 = N - 4 + 3"
      by (rule entry_count_down [of N 4 3]; use N in \<open>simp add: 3\<close>)+
    show ?thesis by (simp add: def 3, intro from_reg [OF _ _ _ _ _ _ _ _ _ _ t(1), where get = a3 and get' = a0 and j = 3])
      (auto simp: bump_def OPSIZ_def intro: bwdm_do3_at [OF _ t(2)] simp del: One_nat_def)
  next
    case 4
    have t: "(N - 5) mod 4 = 0" "N - 1 = N - 5 + 4"
      by (rule entry_count_down [of N 4 4]; use N in \<open>simp add: 4\<close>)+
    show ?thesis by (simp add: def 4, intro from_reg' [OF _ _ _ _ _ _ _ _ _ _ t(1), where get = a0 and get' = a1 and j = 4])
      (auto simp: bump_def OPSIZ_def intro: bwdm_do4_at [OF _ t(2)] simp del: One_nat_def)
  qed
qed

end
