(* ===== verification/Memcopy_Correct.thy ===== *)
theory Memcopy_Correct
  imports Memcopy_Fwd Memcopy_Bwd
begin

text \<open>
  \<open>mem_copy_fwd\<close>, \<open>mem_copy_bwd\<close>, \<open>memcpy\<close> and \<open>memmove\<close>: the head, the words and the tail of a block together are
  the block.
\<close>

section \<open>Blocks in parts\<close>

lemma unat_eq_of_nat: "unat a = n \<Longrightarrow> a = of_nat n"
  by auto

lemma copied_append:
  assumes B: "\<And>i. i \<in> B \<Longrightarrow> i + r < 2 ^ 32" and apart: "\<And>i j. i \<in> B \<Longrightarrow> j \<in> A \<Longrightarrow> dst + of_nat j \<noteq> src + of_nat (i + r)"
  shows "copied (copied m dst src A) (dst + of_nat r) (src + of_nat r) B = copied m dst src (A \<union> (\<lambda>i. i + r) ` B)"
proof
  fix a
  have in_B: "unat (a - (dst + of_nat r)) \<in> B \<longleftrightarrow> unat (a - dst) \<in> (\<lambda>i. i + r) ` B"
  proof
    assume x: "unat (a - (dst + of_nat r)) \<in> B"
    define i where "i = unat (a - (dst + of_nat r))"
    have "a - dst = of_nat (i + r)" by (simp add: i_def)
    moreover have "i + r < 2 ^ 32" using B [OF x] by (simp add: i_def)
    ultimately have "unat (a - dst) = i + r" by (simp add: unat_of_nat del: of_nat_add)
    then show "unat (a - dst) \<in> (\<lambda>i. i + r) ` B" using x by (simp add: i_def)
  next
    assume "unat (a - dst) \<in> (\<lambda>i. i + r) ` B"
    then obtain i where i: "unat (a - dst) = i + r" "i \<in> B" by auto
    have "a - dst = of_nat (i + r)" using i(1) by (rule unat_eq_of_nat)
    then have "a - (dst + of_nat r) = of_nat i" by (simp add: algebra_simps)
    then show "unat (a - (dst + of_nat r)) \<in> B" using B [OF i(2)] i(2) by (simp add: unat_of_nat)
  qed
  show "copied (copied m dst src A) (dst + of_nat r) (src + of_nat r) B a = copied m dst src (A \<union> (\<lambda>i. i + r) ` B) a"
  proof (cases "unat (a - dst) \<in> (\<lambda>i. i + r) ` B")
    case True
    then obtain i where i: "unat (a - dst) = i + r" "i \<in> B" by auto
    have e: "a - dst = of_nat (i + r)" using i(1) by (rule unat_eq_of_nat)
    have "copied m dst src A (src + of_nat (i + r)) = m (src + of_nat (i + r))"
      by (rule copied_read) (use apart i(2) in blast)
    then show ?thesis using True in_B e by (simp add: copied_def [of "copied m dst src A"] copied_def [of m dst src "A \<union> _"] algebra_simps)
  next
    case False
    then show ?thesis using in_B by (simp add: copied_def [of "copied m dst src A"]) (simp add: copied_def)
  qed
qed

text \<open>
  What \<open>memmove\<close> may touch: the destination block, and every byte of an aligned word with a byte of the source block in it.
\<close>

definition copyable :: "mem \<Rightarrow> addr \<Rightarrow> addr \<Rightarrow> nat \<Rightarrow> bool" where
  "copyable m dst src n \<longleftrightarrow> n \<le> 2 ^ 31 \<and> (\<forall>i<n. dst + of_nat i \<in> dom m) \<and>
     (\<forall>i<n. \<forall>j<4. ((src + of_nat i) AND - OPSIZ) + of_nat j \<in> dom m)"

lemma and_split: "(a :: addr) AND - OPSIZ = a - a mod OPSIZ"
  using split_addr(1) [of a] by (simp add: eq_diff_eq)

lemma copyable_src:
  assumes "copyable m dst src n" "i < n" shows "src + of_nat i \<in> dom m"
proof -
  have "((src + of_nat i) AND - OPSIZ) + of_nat (unat ((src + of_nat i) mod OPSIZ)) \<in> dom m"
    using assms split_addr(3) unfolding copyable_def by blast
  then show ?thesis by (simp only: split_addr(1))
qed

lemma copyable_dom: "copyable m dst src n \<Longrightarrow> dom m' = dom m \<Longrightarrow> copyable m' dst src n"
  by (simp add: copyable_def)

lemma aligned_and: "(a :: addr) mod 4 = 0 \<Longrightarrow> a AND - OPSIZ = a"
  unfolding and_split by (simp add: OPSIZ_def)

lemma word_addr:
  assumes "S + of_nat off = src + of_nat r" "off \<le> 4 * k"
  shows "S + 4 * of_nat k = src + (of_nat (r + (4 * k - off)) :: addr)"
proof -
  have "src + of_nat (r + (4 * k - off)) = src + of_nat r + (of_nat (4 * k) - of_nat off :: addr)"
    using assms(2) by (simp only: of_nat_diff of_nat_add add.assoc)
  then show ?thesis unfolding assms(1) [symmetric] by simp
qed

lemma copyable_blocks:
  assumes c: "copyable m dst src n" and r: "r + 4 * N \<le> n" and N: "0 < N" and al: "(dst + of_nat r) mod 4 = 0"
  shows "blocks m (dst + of_nat r) ((src + of_nat r) AND - OPSIZ) (unat ((src + of_nat r) mod OPSIZ)) N"
proof -
  let ?S = "(src + of_nat r) AND - OPSIZ" and ?off = "unat ((src + of_nat r) mod OPSIZ)"
  have S: "?S mod 4 = 0" "?off < 4" "?S + of_nat ?off = src + of_nat r" using split_addr by blast+
  have "?S + of_nat (4 * k + j) \<in> dom m" if k: "4 * k < ?off + 4 * N" and j: "j < 4" for k j
  proof (cases "k = 0")
    case True
    have "r < n" using r N by simp
    then show ?thesis using c j True unfolding copyable_def by auto
  next
    case False
    have e: "?S + 4 * of_nat k = src + of_nat (r + (4 * k - ?off))"
      by (rule word_addr [OF S(3)]) (use False S(2) in simp)
    have "r + (4 * k - ?off) < n" using k r False S(2) by linarith
    then have "((src + of_nat (r + (4 * k - ?off))) AND - OPSIZ) + of_nat j \<in> dom m" using c j unfolding copyable_def by blast
    moreover have "(?S + 4 * of_nat k) AND - OPSIZ = ?S + 4 * of_nat k" by (rule aligned_and) (rule mod4_add [OF S(1)])
    ultimately have "?S + 4 * of_nat k + of_nat j \<in> dom m" unfolding e by simp
    then show ?thesis by (simp only: of_nat_add of_nat_mult of_nat_numeral add.assoc)
  qed
  moreover have "dst + of_nat r + of_nat i \<in> dom m" if "i < 4 * N" for i
  proof -
    have "r + i < n" using r that by linarith
    then have "dst + of_nat (r + i) \<in> dom m" using c unfolding copyable_def by blast
    then show ?thesis by (simp add: algebra_simps)
  qed
  ultimately show ?thesis using S al c r unfolding blocks_def copyable_def by auto
qed

lemma of_nat_OPSIZ:
  assumes "k < 2 ^ 32"
  shows "(of_nat k :: u32) div OPSIZ = of_nat (k div 4)" "(of_nat k :: u32) mod OPSIZ = of_nat (k mod 4)"
    "(of_nat k :: u32) AND - OPSIZ = of_nat (4 * (k div 4))"
proof -
  show d: "(of_nat k :: u32) div OPSIZ = of_nat (k div 4)"
    using assms by (simp add: word_unat_eq_iff unat_div unat_of_nat OPSIZ_def)
  show m: "(of_nat k :: u32) mod OPSIZ = of_nat (k mod 4)"
    using assms by (simp add: word_unat_eq_iff unat_mod unat_of_nat OPSIZ_def)
  have "(of_nat k :: u32) = of_nat (4 * (k div 4) + k mod 4)" by simp
  then have "(of_nat k :: u32) = of_nat (4 * (k div 4)) + of_nat (k mod 4)" by (simp only: of_nat_add)
  then show "(of_nat k :: u32) AND - OPSIZ = of_nat (4 * (k div 4))" unfolding and_split m by (simp only: add_diff_cancel_right')
qed

lemma fwd_safe_part: "fwd_safe dst src n \<Longrightarrow> r + k \<le> n \<Longrightarrow> fwd_safe (dst + of_nat r) (src + of_nat r) k"
  unfolding fwd_safe_def
proof (intro allI impI)
  fix i j assume f: "\<forall>i<n. \<forall>j<i. dst + of_nat j \<noteq> src + of_nat i" and "r + k \<le> n" "i < k" "j < i"
  then have "dst + of_nat (r + j) \<noteq> src + of_nat (r + i)" by auto
  then show "dst + of_nat r + of_nat j \<noteq> src + of_nat r + of_nat i" by (simp add: algebra_simps)
qed

lemma bwd_safe_part: "bwd_safe dst src n \<Longrightarrow> r + k \<le> n \<Longrightarrow> bwd_safe (dst + of_nat r) (src + of_nat r) k"
  unfolding bwd_safe_def
proof (intro allI impI)
  fix i j assume f: "\<forall>j<n. \<forall>i<j. dst + of_nat j \<noteq> src + of_nat i" and "r + k \<le> n" "j < k" "i < j"
  then have "dst + of_nat (r + j) \<noteq> src + of_nat (r + i)" by auto
  then show "dst + of_nat r + of_nat j \<noteq> src + of_nat r + of_nat i" by (simp add: algebra_simps)
qed

section \<open>The word loops on a part of the block\<close>

lemma WORD_COPY_FWD_copied:
  assumes c: "copyable m dst src n" and f: "fwd_safe dst src n" and k: "p + k = n" "8 \<le> k" and al: "(dst + of_nat p) mod 4 = 0"
  shows "WORD_COPY_FWD regs (dst + of_nat p) (src + of_nat p) (of_nat k) (copied m dst src {..<p}) =
    Some (dst + of_nat (n - k mod 4), src + of_nat (n - k mod 4), of_nat (k mod 4), copied m dst src {..<n - k mod 4})"
proof -
  let ?m = "copied m dst src {..<p}" and ?d = "dst + of_nat p" and ?s = "src + of_nat p" and ?N = "k div 4"
  have k32: "k < 2 ^ 32" using c k by (simp add: copyable_def)
  have e: "p + 4 * ?N = n - k mod 4" using k(1) mult_div_mod_eq [of 4 k] by linarith
  then have le: "p + 4 * ?N \<le> n" by simp
  have N: "2 \<le> ?N" "0 < ?N" using div_le_mono [OF k(2), of 4] by simp_all
  have "dom ?m = dom m" by (rule dom_copied) (use c k copyable_src [OF c] in \<open>auto simp: copyable_def\<close>)
  then have b: "blocks ?m ?d (?s AND - OPSIZ) (unat (?s mod OPSIZ)) ?N"
    by (intro copyable_blocks [OF copyable_dom [OF c] le N(2) al])
  have f': "fwd_safe ?d ?s (4 * ?N)" by (rule fwd_safe_part [OF f le])
  have "copied ?m ?d ?s {..<4 * ?N} = copied m dst src ({..<p} \<union> (\<lambda>i. i + p) ` {..<4 * ?N})"
  proof (rule copied_append)
    fix i assume "i \<in> {..<4 * ?N}"
    then have i: "i + p < n" using le by (simp only: lessThan_iff)
    then show "i + p < 2 ^ 32" using c by (simp add: copyable_def)
    fix j assume "j \<in> {..<p}"
    then have "j < i + p" by auto
    with i show "dst + of_nat j \<noteq> src + of_nat (i + p)" using f unfolding fwd_safe_def by blast
  qed
  also have "{..<p} \<union> (\<lambda>i. i + p) ` {..<4 * ?N} = {..<n - k mod 4}"
    unfolding e [symmetric] by (simp add: lessThan_atLeast0 ivl_disj_un add.commute)
  finally have m: "copied ?m ?d ?s {..<4 * ?N} = copied m dst src {..<n - k mod 4}" .
  let ?regs = "regs\<lparr>srcp := ?s, dstp := ?d, len := of_nat ?N, cmem := ?m\<rparr>"
  have "(if ?s mod OPSIZ = 0 then call_wordcopy wordcopy_fwd_aligned regs ?d ?s (of_nat ?N) ?m
      else call_wordcopy wordcopy_fwd_dest_aligned regs ?d ?s (of_nat ?N) ?m) = Some (copied m dst src {..<n - k mod 4})"
  proof (cases "?s mod OPSIZ = 0")
    case True
    then have "blocks ?m ?d ?s 0 ?N" using b by (simp add: and_split)
    then show ?thesis using wordcopy_fwd_aligned_copied [OF _ f' N(1), of ?m ?regs] True m by (auto simp: call_wordcopy_def)
  next
    case False
    then show ?thesis using wordcopy_fwd_dest_aligned_copied [OF b f' N(1) False, of ?regs] m by (auto simp: call_wordcopy_def)
  qed
  moreover have "?d + of_nat (4 * ?N) = dst + of_nat (n - k mod 4)" "?s + of_nat (4 * ?N) = src + of_nat (n - k mod 4)"
    unfolding e [symmetric] by (simp_all only: of_nat_add add.assoc)
  ultimately show ?thesis unfolding WORD_COPY_FWD_def of_nat_OPSIZ [OF k32] by simp
qed

lemma WORD_COPY_BWD_copied:
  assumes c: "copyable m dst src n" and f: "bwd_safe dst src n" and k: "k \<le> n" "8 \<le> k" and al: "(dst + of_nat k) mod 4 = 0"
  shows "WORD_COPY_BWD regs (dst + of_nat k) (src + of_nat k) (of_nat k) (copied m dst src {k..<n}) =
    Some (dst + of_nat (k mod 4), src + of_nat (k mod 4), of_nat (k mod 4), copied m dst src {k mod 4..<n})"
proof -
  let ?m = "copied m dst src {k..<n}" and ?r = "k mod 4" and ?N = "k div 4"
  let ?d = "dst + of_nat ?r" and ?s = "src + of_nat ?r"
  have k32: "k < 2 ^ 32" using c k by (simp add: copyable_def)
  have e: "?r + 4 * ?N = k" and le: "?r + 4 * ?N \<le> n" using k(1) by simp_all
  have N: "2 \<le> ?N" "0 < ?N" using div_le_mono [OF k(2), of 4] by simp_all
  have top: "a + of_nat k = a + of_nat ?r + 4 * of_nat ?N" for a :: addr
  proof -
    have "a + of_nat (?r + 4 * ?N) = a + of_nat ?r + 4 * of_nat ?N" by (simp only: of_nat_add of_nat_mult of_nat_numeral add.assoc)
    then show ?thesis unfolding e .
  qed
  have "?d mod 4 = 0" using al unfolding top [of dst] by (simp only: add4_mod)
  moreover have "dom ?m = dom m" by (rule dom_copied) (use c k copyable_src [OF c] in \<open>auto simp: copyable_def\<close>)
  ultimately have b: "blocks ?m ?d (?s AND - OPSIZ) (unat (?s mod OPSIZ)) ?N"
    by (intro copyable_blocks [OF copyable_dom [OF c] le N(2)])
  have f': "bwd_safe ?d ?s (4 * ?N)" by (rule bwd_safe_part [OF f le])
  have "copied ?m ?d ?s {..<4 * ?N} = copied m dst src ({k..<n} \<union> (\<lambda>i. i + ?r) ` {..<4 * ?N})"
  proof (rule copied_append)
    fix i assume "i \<in> {..<4 * ?N}"
    then have i: "i + ?r < k" using e by (simp only: lessThan_iff)
    then show "i + ?r < 2 ^ 32" using k32 by linarith
    fix j assume "j \<in> {k..<n}"
    then have "j < n" "i + ?r < j" using i by auto
    then show "dst + of_nat j \<noteq> src + of_nat (i + ?r)" using f unfolding bwd_safe_def by blast
  qed
  also have "{k..<n} \<union> (\<lambda>i. i + ?r) ` {..<4 * ?N} = {?r..<n}"
  proof -
    have "(\<lambda>i. i + ?r) ` {..<4 * ?N} = {?r..<?r + 4 * ?N}" by (simp add: lessThan_atLeast0 add.commute del: mult_div_mod_eq mod_mult_div_eq)
    moreover have "{k..<n} \<union> {?r..<k} = {?r..<n}" using ivl_disj_un_two(3) [OF mod_less_eq_dividend k(1)] by (subst Un_commute)
    ultimately show ?thesis unfolding e by simp
  qed
  finally have m: "copied ?m ?d ?s {..<4 * ?N} = copied m dst src {?r..<n}" .
  let ?regs = "regs\<lparr>srcp := src + of_nat k, dstp := dst + of_nat k, len := of_nat ?N, cmem := ?m\<rparr>"
  have g: "srcp ?regs = ?s + 4 * of_nat ?N" "dstp ?regs = ?d + 4 * of_nat ?N" "len ?regs = of_nat ?N" "cmem ?regs = ?m"
    by (simp_all add: top)
  have "(if (src + of_nat k) mod OPSIZ = 0 then call_wordcopy wordcopy_bwd_aligned regs (dst + of_nat k) (src + of_nat k) (of_nat ?N) ?m
      else call_wordcopy wordcopy_bwd_dest_aligned regs (dst + of_nat k) (src + of_nat k) (of_nat ?N) ?m) = Some (copied m dst src {?r..<n})"
  proof (cases "?s mod OPSIZ = 0")
    case True
    then have b0: "blocks ?m ?d ?s 0 ?N" using b by (simp add: and_split)
    have "(src + of_nat k) mod OPSIZ = 0" using True unfolding top [of src] OPSIZ_def by (simp only: add4_mod)
    then show ?thesis using wordcopy_bwd_aligned_copied [OF b0 f' N(1) g] m by (auto simp: call_wordcopy_def)
  next
    case False
    then have "(src + of_nat k) mod OPSIZ \<noteq> 0" unfolding top [of src] OPSIZ_def by (simp only: add4_mod not_False_eq_True)
    then show ?thesis using wordcopy_bwd_dest_aligned_copied [OF b f' N(1) False g] m by (auto simp: call_wordcopy_def)
  qed
  moreover have "a + of_nat k - of_nat (4 * ?N) = a + of_nat ?r" for a :: addr unfolding top by simp
  ultimately show ?thesis unfolding WORD_COPY_BWD_def of_nat_OPSIZ [OF k32] by simp
qed

section \<open>Whole blocks\<close>

lemma head_mod: "(dst + (- dst) mod OPSIZ) mod 4 = 0"
proof -
  have "dst = - ((- dst) div 4 * 4 + (- dst) mod 4)" unfolding div_mult_mod_eq by simp
  then have "dst + (- dst) mod 4 = 0 + 4 * (- ((- dst) div 4))" by (metis (no_types, lifting) add.commute add_0 add_diff_cancel_left' minus_diff_eq mult.commute mult_minus_right uminus_add_conv_diff add_uminus_conv_diff)
  then show ?thesis unfolding OPSIZ_def by (simp only: add4_mod) simp
qed

theorem mem_copy_fwd_copied:
  assumes c: "copyable m dst src (unat cnt)" and f: "fwd_safe dst src (unat cnt)"
  shows "mem_copy_fwd regs dst src cnt m = Some (copied m dst src {..<unat cnt})"
proof -
  define n where "n = unat cnt"
  have cnt: "cnt = of_nat n" by (simp add: n_def)
  have n: "n \<le> 2 ^ 31" and d: "\<And>i. i < n \<Longrightarrow> dst + of_nat i \<in> dom m" using c by (simp_all add: copyable_def n_def)
  note s = copyable_src [OF c, folded n_def]
  note byte = BYTE_COPY_FWD_copied [OF f [folded n_def] n d s]
  show ?thesis
  proof (cases "cnt \<ge> OP_T_THRESHOLD")
    case False
    moreover have "BYTE_COPY_FWD dst src cnt m = Some (dst + of_nat n, src + of_nat n, copied m dst src {..<n})"
      using byte [of 0 n] by (simp add: cnt)
    ultimately show ?thesis by (simp add: mem_copy_fwd_def n_def [symmetric])
  next
    case True
    define p where "p = unat ((- dst) mod OPSIZ)"
    have p: "(- dst) mod OPSIZ = of_nat p" "p < 4" using split_addr(3) by (simp_all add: p_def)
    have n16: "16 \<le> n" using True by (simp add: n_def OP_T_THRESHOLD_def word_le_nat_alt)
    define k where "k = n - p"
    have k: "p + k = n" "8 \<le> k" using n16 p(2) by (simp_all add: k_def)
    have rest: "cnt - of_nat p = of_nat k" unfolding cnt k(1) [symmetric] by simp
    have al: "(dst + of_nat p) mod 4 = 0" using head_mod [of dst] by (simp only: p(1))
    have km: "n - (n - k mod 4) = k mod 4" using k(1) by (simp add: le_trans [OF mod_less_eq_dividend])
    have "BYTE_COPY_FWD (dst + of_nat (n - k mod 4)) (src + of_nat (n - k mod 4)) (of_nat (k mod 4)) (copied m dst src {..<n - k mod 4}) =
        Some (dst + of_nat n, src + of_nat n, copied m dst src {..<n})"
      using byte [of "n - k mod 4" n] km by simp
    moreover have "BYTE_COPY_FWD dst src (of_nat p) m = Some (dst + of_nat p, src + of_nat p, copied m dst src {..<p})"
      using byte [of 0 p] k by simp
    ultimately show ?thesis using True WORD_COPY_FWD_copied [OF c [folded n_def] f [folded n_def] k al, of regs]
      by (simp add: mem_copy_fwd_def p(1) rest n_def [symmetric])
  qed
qed

theorem mem_copy_bwd_copied:
  assumes c: "copyable m dst src (unat cnt)" and f: "bwd_safe dst src (unat cnt)"
  shows "mem_copy_bwd regs dst src cnt m = Some (copied m dst src {..<unat cnt})"
proof -
  define n where "n = unat cnt"
  have cnt: "cnt = of_nat n" by (simp add: n_def)
  have n: "n \<le> 2 ^ 31" and d: "\<And>i. i < n \<Longrightarrow> dst + of_nat i \<in> dom m" using c by (simp_all add: copyable_def n_def)
  note s = copyable_src [OF c, folded n_def]
  note byte = BYTE_COPY_BWD_copied [OF f [folded n_def] n d s]
  show ?thesis
  proof (cases "cnt \<ge> OP_T_THRESHOLD")
    case False
    moreover have "BYTE_COPY_BWD (dst + cnt) (src + cnt) cnt m = Some (dst, src, copied m dst src {..<n})"
      using byte [of 0 n] by (simp add: cnt atLeast0LessThan)
    ultimately show ?thesis by (simp add: mem_copy_bwd_def n_def [symmetric])
  next
    case True
    define p where "p = unat ((dst + cnt) mod OPSIZ)"
    have p: "(dst + cnt) mod OPSIZ = of_nat p" "p < 4" using split_addr(3) by (simp_all add: p_def)
    have n16: "16 \<le> n" using True by (simp add: n_def OP_T_THRESHOLD_def word_le_nat_alt)
    define k where "k = n - p"
    have k: "n - p = k" "k \<le> n" "8 \<le> k" "n - k = p" using n16 p(2) by (simp_all add: k_def)
    have rest: "cnt - of_nat p = of_nat k" unfolding cnt k_def using n16 p(2) by (simp add: of_nat_diff)
    have "dst + of_nat k = (dst + cnt) AND - OPSIZ" unfolding and_split p(1) rest [symmetric] by simp
    then have al: "(dst + of_nat k) mod 4 = 0" by (simp only: split_addr(2))
    have "BYTE_COPY_BWD (dst + of_nat (k mod 4)) (src + of_nat (k mod 4)) (of_nat (k mod 4)) (copied m dst src {k mod 4..<n}) =
        Some (dst, src, copied m dst src {..<n})"
      using byte [of 0 "k mod 4"] k(2) by (simp add: le_trans [OF mod_less_eq_dividend] atLeast0LessThan)
    moreover have "BYTE_COPY_BWD (dst + cnt) (src + cnt) (of_nat p) m = Some (dst + of_nat k, src + of_nat k, copied m dst src {k..<n})"
      using byte [of k n] k(2,4) by (simp add: cnt)
    ultimately show ?thesis using True WORD_COPY_BWD_copied [OF c [folded n_def] f [folded n_def] k(2,3) al, of regs]
      by (simp add: mem_copy_bwd_def Let_def p(1) rest n_def [symmetric])
  qed
qed

lemma memmove_safe:
  assumes "unat cnt \<le> 2 ^ 31"
  shows "dest - src \<ge> cnt \<Longrightarrow> fwd_safe dest src (unat cnt)" "\<not> dest - src \<ge> cnt \<Longrightarrow> bwd_safe dest src (unat cnt)"
proof -
  have eq: "dest - src = of_nat i - of_nat j" if "dest + of_nat j = src + of_nat i" for i j
    using that by (simp add: algebra_simps)
  show "fwd_safe dest src (unat cnt)" if "dest - src \<ge> cnt"
    unfolding fwd_safe_def
  proof (intro allI impI notI)
    fix i j assume ij: "i < unat cnt" "j < i" "dest + of_nat j = src + of_nat i"
    then have "dest - src = of_nat (i - j)" using eq by (simp add: of_nat_diff)
    moreover have "i - j < 2 ^ 32" using ij(1) assms by simp
    ultimately have "unat (dest - src) = i - j" by (simp add: unat_of_nat)
    then show False using that ij by (simp add: word_le_nat_alt)
  qed
  show "bwd_safe dest src (unat cnt)" if "\<not> dest - src \<ge> cnt"
    unfolding bwd_safe_def
  proof (intro allI impI notI)
    fix i j assume ij: "j < unat cnt" "i < j" "dest + of_nat j = src + of_nat i"
    have "dest - src + of_nat (j - i) = 0" using eq [OF ij(3)] ij(2) by (simp add: of_nat_diff)
    then have "unat (dest - src + of_nat (j - i)) = 0" by simp
    moreover have "j - i < 2 ^ 31" "unat (dest - src) < 2 ^ 31" using ij assms that by (simp_all add: word_le_nat_alt not_le)
    ultimately have "unat (dest - src) + (j - i) = 0" by (simp add: unat_word_ariths unat_of_nat)
    then show False using ij(2) by simp
  qed
qed

text \<open>
  C5: \<open>memmove\<close> terminates without a fault for every pair of blocks of at most \<open>2 ^ 31\<close> bytes, whatever their alignment and
  overlap: it returns \<open>dest\<close> and leaves memory in which the destination block holds the bytes the source block had before
  the call, and every other byte is as before.  The word loops may read the whole of an aligned word that has a byte of the
  source in it, so these words have to be mapped.
\<close>

theorem memmove_copied:
  assumes "copyable m dest src (unat cnt)"
  shows "memmove regs dest src cnt m = Some (dest, copied m dest src {..<unat cnt})"
proof -
  have "unat cnt \<le> 2 ^ 31" using assms by (simp add: copyable_def)
  then show ?thesis using memmove_safe [of cnt dest src] mem_copy_fwd_copied [OF assms] mem_copy_bwd_copied [OF assms]
    by (simp add: memmove_def)
qed

theorem memmove_copied_witness:
  "memmove \<lparr>srcp = 0, dstp = 0, len = 0, a0 = 7, a1 = 7, a2 = 7, a3 = 7, cmem = Map.empty\<rparr> 103 102 40 (\<lambda>a. Some (ucast a)) =
     Some (103, copied (\<lambda>a. Some (ucast a)) 103 102 {..<40}) \<and>
   copied (\<lambda>a. Some (ucast a)) 103 102 {..<40} 142 = Some (141 :: u8)"
  using memmove_copied [of "\<lambda>a. Some (ucast a)" 103 102 40] by (simp add: copyable_def copied_def)

text \<open>
  C6: \<open>memcpy\<close> terminates without a fault and copies the block when no byte of the destination is a source byte of a higher
  offset, which holds for blocks that do not overlap and for a destination below the source.
\<close>

theorem memcpy_copied:
  assumes "copyable m dest src (unat cnt)" "fwd_safe dest src (unat cnt)"
  shows "memcpy regs dest src cnt m = Some (dest, copied m dest src {..<unat cnt})"
  using mem_copy_fwd_copied [OF assms] by (simp add: memcpy_def)

theorem memcpy_copied_witness:
  "memcpy \<lparr>srcp = 0, dstp = 0, len = 0, a0 = 7, a1 = 7, a2 = 7, a3 = 7, cmem = Map.empty\<rparr> 103 202 40 (\<lambda>a. Some (ucast a)) =
     Some (103, copied (\<lambda>a. Some (ucast a)) 103 202 {..<40}) \<and>
   copied (\<lambda>a. Some (ucast a)) 103 202 {..<40} 142 = Some (241 :: u8)"
proof -
  have "fwd_safe 103 202 40"
    unfolding fwd_safe_def
  proof (intro allI impI notI)
    fix i j :: nat assume "i < 40" "j < i" "(103 :: addr) + of_nat j = 202 + of_nat i"
    then have "unat ((103 :: addr) + of_nat j) = unat ((202 :: addr) + of_nat i)" by simp
    then show False using \<open>i < 40\<close> \<open>j < i\<close> by (simp add: unat_word_ariths unat_of_nat)
  qed
  then show ?thesis using memcpy_copied [of "\<lambda>a. Some (ucast a)" 103 202 40] by (simp add: copyable_def copied_def)
qed

end
