(* ===== verification/Strings.thy ===== *)
theory Strings
  imports Ctype Memcopy_Correct
begin

text \<open>
  The string routines of \<open>lib/string.c\<close>, on the byte memory of the block copy routines.  A \<open>char\<close> is unsigned on ARM and
  a \<open>size_t\<close> has 32 bits and wraps around.  A read or a write of a byte that is not mapped is a fault; a loop that runs
  off a string without an end finds one or faults.  The argument \<open>regs\<close> of a routine that calls \<open>memcpy\<close> is what the registers
  of the copy loops happen to hold.
\<close>

section \<open>Comparing\<close>

text \<open>A comparison returns an \<open>int\<close>; the loop bodies run at least once where the source has \<open>do\<close> loops.\<close>

partial_function (option) strnicmp_loop :: "addr \<Rightarrow> addr \<Rightarrow> u32 \<Rightarrow> mem \<Rightarrow> int option" where
  "strnicmp_loop s1 s2 cnt m = do {
     c1 \<leftarrow> m s1;
     c2 \<leftarrow> m s2;
     if c1 = 0 \<or> c2 = 0 then Some (uint c1 - uint c2)
     else if c1 = c2 then
       (if cnt - 1 \<noteq> 0 then strnicmp_loop (s1 + 1) (s2 + 1) (cnt - 1) m else Some (uint c1 - uint c2))
     else
       (let c1 = tolower c1; c2 = tolower c2 in
        if c1 \<noteq> c2 then Some (uint c1 - uint c2)
        else if cnt - 1 \<noteq> 0 then strnicmp_loop (s1 + 1) (s2 + 1) (cnt - 1) m else Some (uint c1 - uint c2)) }"

definition strnicmp :: "addr \<Rightarrow> addr \<Rightarrow> u32 \<Rightarrow> mem \<Rightarrow> int option" where
  "strnicmp s1 s2 cnt m = (if cnt = 0 then Some 0 else strnicmp_loop s1 s2 cnt m)"

partial_function (option) strcasecmp :: "addr \<Rightarrow> addr \<Rightarrow> mem \<Rightarrow> int option" where
  "strcasecmp s1 s2 m = do {
     x \<leftarrow> m s1;
     y \<leftarrow> m s2;
     let c1 = tolower x;
     let c2 = tolower y;
     if c1 = c2 \<and> c1 \<noteq> 0 then strcasecmp (s1 + 1) (s2 + 1) m else Some (uint c1 - uint c2) }"

partial_function (option) strncasecmp :: "addr \<Rightarrow> addr \<Rightarrow> u32 \<Rightarrow> mem \<Rightarrow> int option" where
  "strncasecmp s1 s2 n m = do {
     x \<leftarrow> m s1;
     y \<leftarrow> m s2;
     let c1 = tolower x;
     let c2 = tolower y;
     if n - 1 > 0 \<and> c1 = c2 \<and> c1 \<noteq> 0 then strncasecmp (s1 + 1) (s2 + 1) (n - 1) m else Some (uint c1 - uint c2) }"

partial_function (option) strcmp :: "addr \<Rightarrow> addr \<Rightarrow> mem \<Rightarrow> int option" where
  "strcmp cs ct m = do {
     c1 \<leftarrow> m cs;
     c2 \<leftarrow> m ct;
     if c1 \<noteq> c2 then Some (if c1 < c2 then - 1 else 1)
     else if c1 = 0 then Some 0
     else strcmp (cs + 1) (ct + 1) m }"

partial_function (option) strncmp :: "addr \<Rightarrow> addr \<Rightarrow> u32 \<Rightarrow> mem \<Rightarrow> int option" where
  "strncmp cs ct cnt m =
     (if cnt \<noteq> 0 then do {
        c1 \<leftarrow> m cs;
        c2 \<leftarrow> m ct;
        if c1 \<noteq> c2 then Some (if c1 < c2 then - 1 else 1)
        else if c1 = 0 then Some 0
        else strncmp (cs + 1) (ct + 1) (cnt - 1) m }
      else Some 0)"

section \<open>Copying and appending\<close>

partial_function (option) strcpy_loop :: "addr \<Rightarrow> addr \<Rightarrow> mem \<Rightarrow> mem option" where
  "strcpy_loop dest src m = do {
     c \<leftarrow> m src;
     m \<leftarrow> store_byte dest c m;
     if c \<noteq> 0 then strcpy_loop (dest + 1) (src + 1) m else Some m }"

definition strcpy :: "addr \<Rightarrow> addr \<Rightarrow> mem \<Rightarrow> (addr \<times> mem) option" where
  "strcpy dest src m = do { m \<leftarrow> strcpy_loop dest src m; Some (dest, m) }"

partial_function (option) strncpy_loop :: "addr \<Rightarrow> addr \<Rightarrow> u32 \<Rightarrow> mem \<Rightarrow> mem option" where
  "strncpy_loop tmp src cnt m =
     (if cnt \<noteq> 0 then do {
        c \<leftarrow> m src;
        m \<leftarrow> store_byte tmp c m;
        strncpy_loop (tmp + 1) (if c \<noteq> 0 then src + 1 else src) (cnt - 1) m }
      else Some m)"

definition strncpy :: "addr \<Rightarrow> addr \<Rightarrow> u32 \<Rightarrow> mem \<Rightarrow> (addr \<times> mem) option" where
  "strncpy dest src cnt m = do { m \<leftarrow> strncpy_loop dest src cnt m; Some (dest, m) }"

partial_function (option) string_end :: "addr \<Rightarrow> mem \<Rightarrow> addr option" where
  "string_end sc m = do { c \<leftarrow> m sc; if c \<noteq> 0 then string_end (sc + 1) m else Some sc }"

definition strlen :: "addr \<Rightarrow> mem \<Rightarrow> u32 option" where
  "strlen s m = do { sc \<leftarrow> string_end s m; Some (sc - s) }"

definition strlcpy :: "copy_state \<Rightarrow> addr \<Rightarrow> addr \<Rightarrow> u32 \<Rightarrow> mem \<Rightarrow> (u32 \<times> mem) option" where
  "strlcpy regs dest src sz m = do {
     ret \<leftarrow> strlen src m;
     m \<leftarrow> (if sz \<noteq> 0 then do {
         let n = (if ret \<ge> sz then sz - 1 else ret);
         (_, m) \<leftarrow> memcpy regs dest src n m;
         store_byte (dest + n) 0 m }
       else Some m);
     Some (ret, m) }"

definition strcat :: "addr \<Rightarrow> addr \<Rightarrow> mem \<Rightarrow> (addr \<times> mem) option" where
  "strcat dest src m = do {
     endp \<leftarrow> string_end dest m;
     m \<leftarrow> strcpy_loop endp src m;
     Some (dest, m) }"

partial_function (option) strncat_loop :: "addr \<Rightarrow> addr \<Rightarrow> u32 \<Rightarrow> mem \<Rightarrow> mem option" where
  "strncat_loop dest src cnt m = do {
     c \<leftarrow> m src;
     m \<leftarrow> store_byte dest c m;
     if c \<noteq> 0 then
       (if cnt - 1 = 0 then store_byte (dest + 1) 0 m
        else strncat_loop (dest + 1) (src + 1) (cnt - 1) m)
     else Some m }"

definition strncat :: "addr \<Rightarrow> addr \<Rightarrow> u32 \<Rightarrow> mem \<Rightarrow> (addr \<times> mem) option" where
  "strncat dest src cnt m = do {
     m \<leftarrow> (if cnt \<noteq> 0 then do {
         endp \<leftarrow> string_end dest m;
         strncat_loop endp src cnt m }
       else Some m);
     Some (dest, m) }"

definition strlcat :: "copy_state \<Rightarrow> addr \<Rightarrow> addr \<Rightarrow> u32 \<Rightarrow> mem \<Rightarrow> (u32 \<times> mem) option" where
  "strlcat regs dest src cnt m = do {
     dsize \<leftarrow> strlen dest m;
     n \<leftarrow> strlen src m;
     let res = dsize + n;
     _ \<leftarrow> BUG_ON (dsize \<ge> cnt);
     let dest = dest + dsize;
     let cnt = cnt - dsize;
     let n = (if n \<ge> cnt then cnt - 1 else n);
     (_, m) \<leftarrow> memcpy regs dest src n m;
     m \<leftarrow> store_byte (dest + n) 0 m;
     Some (res, m) }"

section \<open>Searching\<close>

partial_function (option) strchr :: "addr \<Rightarrow> u32 \<Rightarrow> mem \<Rightarrow> addr option" where
  "strchr s c m = do {
     x \<leftarrow> m s;
     if x \<noteq> ucast c then (if x = 0 then Some NULL else strchr (s + 1) c m) else Some s }"

partial_function (option) strrchr_loop :: "addr \<Rightarrow> addr \<Rightarrow> u32 \<Rightarrow> mem \<Rightarrow> addr option" where
  "strrchr_loop p s c m = do {
     x \<leftarrow> m p;
     if x = ucast c then Some p
     else if p - 1 \<ge> s then strrchr_loop (p - 1) s c m
     else Some NULL }"

definition strrchr :: "addr \<Rightarrow> u32 \<Rightarrow> mem \<Rightarrow> addr option" where
  "strrchr s c m = do { n \<leftarrow> strlen s m; strrchr_loop (s + n) s c m }"

partial_function (option) strnchr :: "addr \<Rightarrow> u32 \<Rightarrow> u32 \<Rightarrow> mem \<Rightarrow> addr option" where
  "strnchr s cnt c m =
     (if cnt \<noteq> 0 then do {
        x \<leftarrow> m s;
        if x \<noteq> 0 then (if x = ucast c then Some s else strnchr (s + 1) (cnt - 1) c m)
        else Some NULL }
      else Some NULL)"

partial_function (option) skip_spaces :: "addr \<Rightarrow> mem \<Rightarrow> addr option" where
  "skip_spaces str m = do { x \<leftarrow> m str; if isspace x then skip_spaces (str + 1) m else Some str }"

partial_function (option) strim_loop :: "addr \<Rightarrow> addr \<Rightarrow> mem \<Rightarrow> addr option" where
  "strim_loop endp s m =
     (if endp \<ge> s then do { x \<leftarrow> m endp; if isspace x then strim_loop (endp - 1) s m else Some endp }
      else Some endp)"

definition strim :: "addr \<Rightarrow> mem \<Rightarrow> (addr \<times> mem) option" where
  "strim s m = do {
     s \<leftarrow> skip_spaces s m;
     sz \<leftarrow> strlen s m;
     if sz = 0 then Some (s, m)
     else do {
       endp \<leftarrow> strim_loop (s + sz - 1) s m;
       m \<leftarrow> store_byte (endp + 1) 0 m;
       Some (s, m) } }"

partial_function (option) strnlen_loop :: "addr \<Rightarrow> u32 \<Rightarrow> mem \<Rightarrow> addr option" where
  "strnlen_loop sc cnt m =
     (if cnt \<noteq> 0 then do { c \<leftarrow> m sc; if c \<noteq> 0 then strnlen_loop (sc + 1) (cnt - 1) m else Some sc }
      else Some sc)"

definition strnlen :: "addr \<Rightarrow> u32 \<Rightarrow> mem \<Rightarrow> u32 option" where
  "strnlen s cnt m = do { sc \<leftarrow> strnlen_loop s cnt m; Some (sc - s) }"

text \<open>The inner loop of \<open>strspn\<close>, \<open>strcspn\<close> and \<open>strpbrk\<close>: where the set has the character, or its end.\<close>

partial_function (option) char_in :: "u8 \<Rightarrow> addr \<Rightarrow> mem \<Rightarrow> addr option" where
  "char_in p a m = do { x \<leftarrow> m a; if x \<noteq> 0 then (if p = x then Some a else char_in p (a + 1) m) else Some a }"

partial_function (option) strspn_loop :: "addr \<Rightarrow> addr \<Rightarrow> u32 \<Rightarrow> mem \<Rightarrow> u32 option" where
  "strspn_loop p accept cnt m = do {
     x \<leftarrow> m p;
     if x \<noteq> 0 then do {
       a \<leftarrow> char_in x accept m;
       y \<leftarrow> m a;
       if y = 0 then Some cnt else strspn_loop (p + 1) accept (cnt + 1) m }
     else Some cnt }"

definition strspn :: "addr \<Rightarrow> addr \<Rightarrow> mem \<Rightarrow> u32 option" where
  "strspn s accept m = strspn_loop s accept 0 m"

partial_function (option) strcspn_loop :: "addr \<Rightarrow> addr \<Rightarrow> u32 \<Rightarrow> mem \<Rightarrow> u32 option" where
  "strcspn_loop p reject cnt m = do {
     x \<leftarrow> m p;
     if x \<noteq> 0 then do {
       r \<leftarrow> char_in x reject m;
       y \<leftarrow> m r;
       if y \<noteq> 0 then Some cnt else strcspn_loop (p + 1) reject (cnt + 1) m }
     else Some cnt }"

definition strcspn :: "addr \<Rightarrow> addr \<Rightarrow> mem \<Rightarrow> u32 option" where
  "strcspn s reject m = strcspn_loop s reject 0 m"

partial_function (option) strpbrk :: "addr \<Rightarrow> addr \<Rightarrow> mem \<Rightarrow> addr option" where
  "strpbrk cs ct m = do {
     x \<leftarrow> m cs;
     if x \<noteq> 0 then do {
       sc2 \<leftarrow> char_in x ct m;
       y \<leftarrow> m sc2;
       if y \<noteq> 0 then Some cs else strpbrk (cs + 1) ct m }
     else Some NULL }"

text \<open>The pointer that \<open>strsep\<close> gets by reference is an argument and part of the result.\<close>

definition strsep :: "addr \<Rightarrow> addr \<Rightarrow> mem \<Rightarrow> (addr \<times> addr \<times> mem) option" where
  "strsep s ct m =
     (if s = NULL then Some (NULL, s, m)
      else do {
        endp \<leftarrow> strpbrk s ct m;
        if endp \<noteq> NULL then do {
          m \<leftarrow> store_byte endp 0 m;
          Some (s, endp + 1, m) }
        else Some (s, endp, m) })"

partial_function (option) sysfs_streq_loop :: "addr \<Rightarrow> addr \<Rightarrow> mem \<Rightarrow> (addr \<times> addr) option" where
  "sysfs_streq_loop s1 s2 m = do {
     x \<leftarrow> m s1;
     if x \<noteq> 0 then do {
       y \<leftarrow> m s2;
       if x = y then sysfs_streq_loop (s1 + 1) (s2 + 1) m else Some (s1, s2) }
     else Some (s1, s2) }"

definition sysfs_streq :: "addr \<Rightarrow> addr \<Rightarrow> mem \<Rightarrow> bool option" where
  "sysfs_streq s1 s2 m = do {
     (s1, s2) \<leftarrow> sysfs_streq_loop s1 s2 m;
     x \<leftarrow> m s1;
     y \<leftarrow> m s2;
     if x = y then Some True
     else do {
       b \<leftarrow> (if x = 0 \<and> y = 0x0a then do { z \<leftarrow> m (s2 + 1); Some (z = 0) } else Some False);
       if b then Some True
       else if x = 0x0a then do { z \<leftarrow> m (s1 + 1); Some (z = 0 \<and> y = 0) }
       else Some False } }"

section \<open>Blocks\<close>

partial_function (option) memset_loop :: "addr \<Rightarrow> u32 \<Rightarrow> u32 \<Rightarrow> mem \<Rightarrow> mem option" where
  "memset_loop xs c cnt m =
     (if cnt \<noteq> 0 then do { m \<leftarrow> store_byte xs (ucast c) m; memset_loop (xs + 1) c (cnt - 1) m }
      else Some m)"

definition memset :: "addr \<Rightarrow> u32 \<Rightarrow> u32 \<Rightarrow> mem \<Rightarrow> (addr \<times> mem) option" where
  "memset s c cnt m = do { m \<leftarrow> memset_loop s c cnt m; Some (s, m) }"

partial_function (option) memcmp_loop :: "addr \<Rightarrow> addr \<Rightarrow> u32 \<Rightarrow> int \<Rightarrow> mem \<Rightarrow> int option" where
  "memcmp_loop su1 su2 cnt res m =
     (if 0 < cnt then do {
        x \<leftarrow> m su1;
        y \<leftarrow> m su2;
        let res = uint x - uint y;
        if res \<noteq> 0 then Some res else memcmp_loop (su1 + 1) (su2 + 1) (cnt - 1) res m }
      else Some res)"

definition memcmp :: "addr \<Rightarrow> addr \<Rightarrow> u32 \<Rightarrow> mem \<Rightarrow> int option" where
  "memcmp cs ct cnt m = memcmp_loop cs ct cnt 0 m"

text \<open>\<open>memscan\<close> compares with the whole \<open>int\<close>, \<open>memchr\<close> with its low byte.\<close>

partial_function (option) memscan :: "addr \<Rightarrow> u32 \<Rightarrow> u32 \<Rightarrow> mem \<Rightarrow> addr option" where
  "memscan p c sz m =
     (if sz \<noteq> 0 then do { x \<leftarrow> m p; if ucast x = c then Some p else memscan (p + 1) c (sz - 1) m }
      else Some p)"

partial_function (option) strstr_loop :: "addr \<Rightarrow> addr \<Rightarrow> u32 \<Rightarrow> u32 \<Rightarrow> mem \<Rightarrow> addr option" where
  "strstr_loop s1 s2 l1 l2 m =
     (if l1 \<ge> l2 then do {
        r \<leftarrow> memcmp s1 s2 l2 m;
        if r = 0 then Some s1 else strstr_loop (s1 + 1) s2 (l1 - 1) l2 m }
      else Some NULL)"

definition strstr :: "addr \<Rightarrow> addr \<Rightarrow> mem \<Rightarrow> addr option" where
  "strstr s1 s2 m = do {
     l2 \<leftarrow> strlen s2 m;
     if l2 = 0 then Some s1
     else do { l1 \<leftarrow> strlen s1 m; strstr_loop s1 s2 l1 l2 m } }"

definition strnstr :: "addr \<Rightarrow> addr \<Rightarrow> u32 \<Rightarrow> mem \<Rightarrow> addr option" where
  "strnstr s1 s2 cnt m = do {
     l2 \<leftarrow> strlen s2 m;
     if l2 = 0 then Some s1 else strstr_loop s1 s2 cnt l2 m }"

partial_function (option) memchr :: "addr \<Rightarrow> u32 \<Rightarrow> u32 \<Rightarrow> mem \<Rightarrow> addr option" where
  "memchr p c n m =
     (if n \<noteq> 0 then do { x \<leftarrow> m p; if ucast c = x then Some p else memchr (p + 1) c (n - 1) m }
      else Some NULL)"

end
