(* ===== verification/Strings_Read.thy ===== *)
theory Strings_Read
  imports Strings
begin

text \<open>
  The string routines that only read: what each returns for strings and blocks in memory, in terms of the lists of their
  characters.  A string has its terminator in memory; the routines are shown to return without a fault.
\<close>

section \<open>Strings in memory\<close>

fun bytes :: "mem \<Rightarrow> addr \<Rightarrow> u8 list \<Rightarrow> bool" where
  "bytes m a [] = True"
| "bytes m a (x # xs) = (m a = Some x \<and> bytes m (a + 1) xs)"

definition cstr :: "mem \<Rightarrow> addr \<Rightarrow> u8 list \<Rightarrow> bool" where
  "cstr m s xs \<longleftrightarrow> 0 \<notin> set xs \<and> bytes m s (xs @ [0])"

lemma cstr_Nil [simp]: "cstr m s [] \<longleftrightarrow> m s = Some 0"
  by (simp add: cstr_def)

lemma cstr_Cons [simp]: "cstr m s (x # xs) \<longleftrightarrow> x \<noteq> 0 \<and> m s = Some x \<and> cstr m (s + 1) xs"
  by (auto simp: cstr_def)

lemma bytes_append: "bytes m a (xs @ ys) \<longleftrightarrow> bytes m a xs \<and> bytes m (a + of_nat (length xs)) ys"
  by (induction xs arbitrary: a) (simp_all add: add.assoc)

lemma bytes_nth: "bytes m a xs \<Longrightarrow> i < length xs \<Longrightarrow> m (a + of_nat i) = Some (xs ! i)"
proof (induction xs arbitrary: a i)
  case (Cons x xs)
  then show ?case by (cases i) (auto simp: add.assoc [symmetric])
qed simp

lemma cstr_append: "cstr m s (xs @ ys) \<longleftrightarrow> 0 \<notin> set xs \<and> bytes m s xs \<and> cstr m (s + of_nat (length xs)) ys"
  by (auto simp: cstr_def bytes_append add.assoc)

lemma cstr_length: "cstr m s xs \<Longrightarrow> length xs < 2 ^ 32"
proof (rule ccontr)
  assume c: "cstr m s xs" and n: "\<not> length xs < 2 ^ 32"
  let ?j = "length xs - 2 ^ 32"
  have b: "bytes m s (xs @ [0])" using c by (simp add: cstr_def)
  have "(of_nat (length xs) :: u32) = of_nat ?j" using n by (simp add: of_nat_diff)
  then have "(xs @ [0]) ! ?j = 0" using bytes_nth [OF b, of "length xs"] bytes_nth [OF b, of ?j] by simp
  moreover have "?j < length xs" using n by (cases xs) auto
  ultimately have "0 \<in> set xs" by (metis nth_append nth_mem)
  then show False using c by (simp add: cstr_def)
qed

lemma unat_dec: "(n :: 'a::len word) \<noteq> 0 \<Longrightarrow> unat (n - 1) = unat n - 1"
  by (simp add: unat_minus_one)

lemma take_dec: "(n :: 'a::len word) \<noteq> 0 \<Longrightarrow> take (unat n) (x # xs) = x # take (unat (n - 1)) xs"
  using unat_dec [of n] by (cases "unat n") (auto simp: word_unat_eq_iff)

lemma tolower_0 [simp]: "tolower 0 = 0"
  by simp

lemma of_nat_unat_length: "length xs < 2 ^ 32 \<Longrightarrow> unat (of_nat (length xs) :: u32) = length xs"
  by (simp add: unat_of_nat)

section \<open>Lengths\<close>

lemma string_end_cstr: "cstr m s xs \<Longrightarrow> string_end s m = Some (s + of_nat (length xs))"
  by (induction xs arbitrary: s) (subst string_end.simps, simp add: add.assoc)+

lemma strlen_cstr: "cstr m s xs \<Longrightarrow> strlen s m = Some (of_nat (length xs))"
  by (simp add: strlen_def string_end_cstr)

lemma strnlen_loop_cstr: "cstr m s xs \<Longrightarrow> strnlen_loop s n m = Some (s + of_nat (min (length xs) (unat n)))"
proof (induction xs arbitrary: s n)
  case Nil
  then show ?case by (subst strnlen_loop.simps) simp
next
  case (Cons x xs)
  show ?case
  proof (cases "n = 0")
    case False
    then have "unat n = Suc (unat (n - 1))" by (simp add: unat_dec unat_gt_0)
    then have "min (length (x # xs)) (unat n) = Suc (min (length xs) (unat (n - 1)))" by simp
    then show ?thesis using Cons False by (subst strnlen_loop.simps) (simp add: add.assoc)
  qed (subst strnlen_loop.simps, simp)
qed

section \<open>Comparisons\<close>

definition order :: "u8 list \<Rightarrow> u8 list \<Rightarrow> int" where
  "order xs ys = (if xs = ys then 0 else if ord_class.lexordp xs ys then - 1 else 1)"

lemma order_Nil [simp]: "order [] [] = 0" "order [] (y # ys) = - 1" "order (x # xs) [] = 1"
  by (simp_all add: order_def)

lemma order_Cons [simp]: "order (x # xs) (y # ys) = (if x = y then order xs ys else if x < y then - 1 else 1)"
  by (auto simp: order_def)

lemma strcmp_cstr: "cstr m s xs \<Longrightarrow> cstr m t ys \<Longrightarrow> strcmp s t m = Some (order xs ys)"
proof (induction xs arbitrary: s t ys)
  case Nil
  then show ?case by (cases ys; subst strcmp.simps) (auto simp: word_gt_0)
next
  case (Cons x xs)
  then show ?case by (cases ys; subst strcmp.simps) (auto simp: word_gt_0)
qed

lemma strncmp_cstr: "cstr m s xs \<Longrightarrow> cstr m t ys \<Longrightarrow> strncmp s t n m = Some (order (take (unat n) xs) (take (unat n) ys))"
proof (induction xs arbitrary: s t ys n)
  case Nil
  then show ?case by (cases ys; cases "n = 0"; subst strncmp.simps) (auto simp: word_gt_0 take_dec)
next
  case (Cons x xs)
  then show ?case by (cases ys; cases "n = 0"; subst strncmp.simps) (auto simp: word_gt_0 take_dec)
qed

lemma uint_diff: "sgn (uint (x :: u8) - uint y) = (if x = y then 0 else if x < y then - 1 else 1)"
  by (auto simp: sgn_if word_less_def word_uint_eq_iff)

lemma strcasecmp_cstr: "cstr m s xs \<Longrightarrow> cstr m t ys \<Longrightarrow>
  \<exists>r. strcasecmp s t m = Some r \<and> sgn r = order (map tolower xs) (map tolower ys)"
proof (induction xs arbitrary: s t ys)
  case Nil
  then show ?case by (cases ys; subst strcasecmp.simps) (auto simp: uint_diff word_gt_0)
next
  case (Cons x xs)
  then show ?case by (cases ys; subst strcasecmp.simps) (auto simp: uint_diff word_gt_0)
qed

lemma strnicmp_loop_cstr: "cstr m s xs \<Longrightarrow> cstr m t ys \<Longrightarrow> n \<noteq> 0 \<Longrightarrow>
  \<exists>r. strnicmp_loop s t n m = Some r \<and> sgn r = order (map tolower (take (unat n) xs)) (map tolower (take (unat n) ys))"
proof (induction xs arbitrary: s t ys n)
  case Nil
  then show ?case by (cases ys; subst strnicmp_loop.simps) (auto simp: uint_diff word_gt_0 take_dec)
next
  case (Cons x xs)
  then show ?case by (cases ys; cases "n - 1 = 0"; subst strnicmp_loop.simps) (auto simp: uint_diff word_gt_0 take_dec Let_def)
qed

text \<open>\<open>strncasecmp\<close> decrements its bound before it tests it, so that a bound of zero wraps around.\<close>

lemma strncasecmp_cstr: "cstr m s xs \<Longrightarrow> cstr m t ys \<Longrightarrow>
  \<exists>r. strncasecmp s t n m = Some r \<and> sgn r = order (map tolower (take (Suc (unat (n - 1))) xs)) (map tolower (take (Suc (unat (n - 1))) ys))"
proof (induction xs arbitrary: s t ys n)
  case Nil
  then show ?case by (cases ys; subst strncasecmp.simps) (auto simp: uint_diff word_gt_0)
next
  case (Cons x xs)
  have "Suc (unat (n - 1 - 1)) = unat (n - 1)" if "n - 1 \<noteq> 0"
    using that unat_dec [of "n - 1"] by (cases "unat (n - 1)") (auto simp: word_unat_eq_iff)
  then show ?case using Cons.prems Cons.IH [of "s + 1" "t + 1" _ "n - 1"]
    by (cases ys; cases "n - 1 = 0"; subst strncasecmp.simps) (auto simp: uint_diff word_gt_0 Let_def)
qed

section \<open>Searches\<close>

text \<open>Where a character stands: the offset of its first occurrence.\<close>

abbreviation span :: "('a \<Rightarrow> bool) \<Rightarrow> 'a list \<Rightarrow> nat" where
  "span P xs \<equiv> length (takeWhile P xs)"

lemma strchr_cstr: "cstr m s xs \<Longrightarrow>
  strchr s c m = Some (if ucast c \<in> set (xs @ [0]) then s + of_nat (span (\<lambda>x. x \<noteq> ucast c) xs) else NULL)"
proof (induction xs arbitrary: s)
  case Nil
  then show ?case by (subst strchr.simps) simp
next
  case (Cons x xs)
  then show ?case by (subst strchr.simps) (auto simp: add.assoc)
qed

lemma strnchr_cstr: "cstr m s xs \<Longrightarrow>
  strnchr s n c m = Some (if ucast c \<in> set (take (unat n) xs) then s + of_nat (span (\<lambda>x. x \<noteq> ucast c) xs) else NULL)"
proof (induction xs arbitrary: s n)
  case Nil
  then show ?case by (subst strnchr.simps) simp
next
  case (Cons x xs)
  then show ?case by (cases "n = 0"; subst strnchr.simps) (auto simp: add.assoc take_dec)
qed

lemma skip_spaces_cstr: "cstr m s xs \<Longrightarrow> skip_spaces s m = Some (s + of_nat (span isspace xs))"
  by (induction xs arbitrary: s) (subst skip_spaces.simps, simp add: add.assoc isspace_NUL)+

lemma char_in_cstr: "cstr m a ys \<Longrightarrow> x \<noteq> 0 \<Longrightarrow>
  \<exists>b. char_in x a m = Some b \<and> m b = Some (if x \<in> set ys then x else 0)"
proof (induction ys arbitrary: a)
  case Nil
  then show ?case by (subst char_in.simps) simp
next
  case (Cons y ys)
  then show ?case by (subst char_in.simps) auto
qed

lemma strspn_loop_cstr: "cstr m s xs \<Longrightarrow> cstr m a ys \<Longrightarrow> strspn_loop s a k m = Some (k + of_nat (span (\<lambda>x. x \<in> set ys) xs))"
proof (induction xs arbitrary: s k)
  case Nil
  then show ?case by (subst strspn_loop.simps) simp
next
  case (Cons x xs)
  then show ?case using char_in_cstr [OF Cons.prems(2), of x] by (subst strspn_loop.simps) (auto simp: add.assoc)
qed

lemma strcspn_loop_cstr: "cstr m s xs \<Longrightarrow> cstr m a ys \<Longrightarrow> strcspn_loop s a k m = Some (k + of_nat (span (\<lambda>x. x \<notin> set ys) xs))"
proof (induction xs arbitrary: s k)
  case Nil
  then show ?case by (subst strcspn_loop.simps) simp
next
  case (Cons x xs)
  then show ?case using char_in_cstr [OF Cons.prems(2), of x] by (subst strcspn_loop.simps) (auto simp: add.assoc)
qed

lemma strpbrk_cstr: "cstr m s xs \<Longrightarrow> cstr m a ys \<Longrightarrow>
  strpbrk s a m = Some (if set xs \<inter> set ys = {} then NULL else s + of_nat (span (\<lambda>x. x \<notin> set ys) xs))"
proof (induction xs arbitrary: s)
  case Nil
  then show ?case by (subst strpbrk.simps) simp
next
  case (Cons x xs)
  then show ?case using char_in_cstr [OF Cons.prems(2), of x]
    by (cases "set xs \<inter> set ys = {}"; subst strpbrk.simps) (auto simp: add.assoc)
qed

lemma memcmp_loop_bytes: "bytes m s xs \<Longrightarrow> bytes m t ys \<Longrightarrow> length xs = unat n \<Longrightarrow> length ys = unat n \<Longrightarrow>
  \<exists>r. memcmp_loop s t n 0 m = Some r \<and> sgn r = order xs ys"
proof (induction xs arbitrary: s t ys n)
  case Nil
  then have "n = 0" by (simp add: word_unat_eq_iff)
  then show ?case using Nil by (subst memcmp_loop.simps) simp
next
  case (Cons x xs)
  then obtain y ys' where ys: "ys = y # ys'" by (cases ys) auto
  have n: "n \<noteq> 0" using Cons.prems(3) by auto
  have l: "length xs = unat (n - 1)" "length ys' = unat (n - 1)" using Cons.prems(3,4) ys unat_dec [OF n] by auto
  show ?case using Cons.prems Cons.IH [of "s + 1" "t + 1" ys' "n - 1"] n l ys uint_diff [of x y]
    by (cases "x = y"; subst memcmp_loop.simps) (auto simp: word_gt_0 Let_def word_uint_eq_iff)
qed

lemma memscan_bytes: "bytes m s xs \<Longrightarrow> length xs = unat n \<Longrightarrow> memscan s c n m = Some (s + of_nat (span (\<lambda>x. ucast x \<noteq> c) xs))"
proof (induction xs arbitrary: s n)
  case Nil
  then have "n = 0" by (simp add: word_unat_eq_iff)
  then show ?case by (subst memscan.simps) simp
next
  case (Cons x xs)
  then have n: "n \<noteq> 0" by auto
  have "length xs = unat (n - 1)" using Cons.prems(2) unat_dec [OF n] by auto
  then show ?case using Cons n by (subst memscan.simps) (auto simp: add.assoc)
qed

lemma memchr_bytes: "bytes m s xs \<Longrightarrow> length xs = unat n \<Longrightarrow>
  memchr s c n m = Some (if ucast c \<in> set xs then s + of_nat (span (\<lambda>x. x \<noteq> ucast c) xs) else NULL)"
proof (induction xs arbitrary: s n)
  case Nil
  then have "n = 0" by (simp add: word_unat_eq_iff)
  then show ?case by (subst memchr.simps) simp
next
  case (Cons x xs)
  then have n: "n \<noteq> 0" by auto
  have "length xs = unat (n - 1)" using Cons.prems(2) unat_dec [OF n] by auto
  then show ?case using Cons n by (subst memchr.simps) (auto simp: add.assoc)
qed

text \<open>The last occurrence, from the end of the string.\<close>

lemma strrchr_loop_cstr:
  assumes "bytes m s xs" "0 < unat s" "unat s + length xs \<le> 2 ^ 32" "xs \<noteq> []"
  shows "strrchr_loop (s + of_nat (length xs - 1)) s c m = Some (if ucast c \<in> set xs then
    s + of_nat (length xs - 1 - span (\<lambda>x. x \<noteq> ucast c) (rev xs)) else NULL)"
  using assms
proof (induction xs rule: rev_induct)
  case (snoc x xs)
  let ?p = "s + of_nat (length xs)"
  have x: "m ?p = Some x" using snoc.prems(1) by (simp add: bytes_append)
  have u: "unat ?p = unat s + length xs" using snoc.prems(3) by (simp add: unat_word_ariths unat_of_nat)
  show ?case
  proof (cases "x = ucast c")
    case True
    then show ?thesis using x by (subst strrchr_loop.simps) simp
  next
    case False
    have "?p \<noteq> 0" using u snoc.prems(2) by auto
    then have p1: "unat (?p - 1) = unat s + length xs - 1" using u by (simp add: unat_dec)
    show ?thesis
    proof (cases "xs = []")
      case True
      then have "\<not> s \<le> s - 1" using p1 snoc.prems(2) by (simp add: word_le_nat_alt)
      then show ?thesis using x False True by (subst strrchr_loop.simps) simp
    next
      case F: False
      then have "s \<le> ?p - 1" using p1 by (cases xs) (simp_all add: word_le_nat_alt)
      then have "strrchr_loop ?p s c m = strrchr_loop (?p - 1) s c m" using x False by (subst strrchr_loop.simps) simp
      moreover have "?p - 1 = s + of_nat (length xs - 1)" using F by (cases xs) simp_all
      ultimately have "strrchr_loop ?p s c m = strrchr_loop (s + of_nat (length xs - 1)) s c m" by simp
      then show ?thesis using False F snoc by (auto simp: bytes_append)
    qed
  qed
qed simp

text \<open>The first place where a block occurs.\<close>

lemma memcmp_eq:
  assumes "bytes m s xs" "bytes m t ys" "length xs = unat n" "length ys = unat n"
  shows "\<exists>r. memcmp s t n m = Some r \<and> (r = 0 \<longleftrightarrow> xs = ys)"
  using memcmp_loop_bytes [OF assms] by (auto simp: memcmp_def order_def sgn_if split: if_splits)

definition occurs :: "u8 list \<Rightarrow> u8 list \<Rightarrow> nat \<Rightarrow> bool" where
  "occurs ys xs i \<longleftrightarrow> i + length ys \<le> length xs \<and> take (length ys) (drop i xs) = ys"

lemma occurs_Suc: "occurs ys (x # xs) (Suc i) \<longleftrightarrow> occurs ys xs i"
  by (simp add: occurs_def)

lemma strstr_loop_bytes:
  assumes "bytes m s xs" "bytes m t ys" "length xs = unat l1" "length ys = unat l2" "ys \<noteq> []"
  shows "\<exists>r. strstr_loop s t l1 l2 m = Some r \<and>
    ((\<forall>i. \<not> occurs ys xs i) \<and> r = NULL \<or> (\<exists>i. occurs ys xs i \<and> (\<forall>j<i. \<not> occurs ys xs j) \<and> r = s + of_nat i))"
  using assms
proof (induction xs arbitrary: s l1)
  case Nil
  then have "\<not> l2 \<le> l1" by (cases ys) (simp_all add: word_le_nat_alt)
  then show ?case using Nil by (subst strstr_loop.simps) (simp add: occurs_def)
next
  case (Cons x xs)
  show ?case
  proof (cases "l2 \<le> l1")
    case False
    then have "\<not> occurs ys (x # xs) i" for i using Cons.prems by (auto simp: occurs_def word_le_nat_alt)
    then show ?thesis using False by (subst strstr_loop.simps) simp
  next
    case True
    then have le: "length ys \<le> length (x # xs)" using Cons.prems by (simp add: word_le_nat_alt)
    have "bytes m s (take (length ys) (x # xs))"
      using Cons.prems(1) bytes_append [of m s "take (length ys) (x # xs)" "drop (length ys) (x # xs)"] by simp
    from memcmp_eq [OF this Cons.prems(2), of l2] obtain r where
      r: "memcmp s t l2 m = Some r" "r = 0 \<longleftrightarrow> take (length ys) (x # xs) = ys" using le Cons.prems(4) by auto
    show ?thesis
    proof (cases "r = 0")
      case r0: True
      then have "occurs ys (x # xs) 0" using r le by (simp add: occurs_def)
      then show ?thesis using r(1) r0 True by (subst strstr_loop.simps) (auto intro!: exI [of _ 0])
    next
      case False
      then have n0: "\<not> occurs ys (x # xs) 0" using r by (simp add: occurs_def)
      have l1: "l1 \<noteq> 0" using Cons.prems(3) by auto
      then have "length xs = unat (l1 - 1)" using Cons.prems(3) unat_dec [OF l1] by auto
      from Cons.IH [OF _ Cons.prems(2) this Cons.prems(4,5), of "s + 1"] Cons.prems(1) obtain q where
        q: "strstr_loop (s + 1) t (l1 - 1) l2 m = Some q" "(\<forall>i. \<not> occurs ys xs i) \<and> q = NULL \<or>
          (\<exists>i. occurs ys xs i \<and> (\<forall>j<i. \<not> occurs ys xs j) \<and> q = s + 1 + of_nat i)" by auto
      have st: "strstr_loop s t l1 l2 m = Some q" using r(1) False True q(1) by (subst strstr_loop.simps) simp
      from q(2) show ?thesis
      proof
        assume n: "(\<forall>i. \<not> occurs ys xs i) \<and> q = NULL"
        then have "\<not> occurs ys (x # xs) i" for i using n0 by (cases i) (simp_all add: occurs_Suc)
        then show ?thesis using st n by auto
      next
        assume "\<exists>i. occurs ys xs i \<and> (\<forall>j<i. \<not> occurs ys xs j) \<and> q = s + 1 + of_nat i"
        then obtain i where i: "occurs ys xs i" "\<forall>j<i. \<not> occurs ys xs j" "q = s + 1 + of_nat i" by blast
        have "\<not> occurs ys (x # xs) j" if "j < Suc i" for j using that n0 i(2) by (cases j) (simp_all add: occurs_Suc)
        then show ?thesis using st i by (auto simp: occurs_Suc add.assoc intro!: exI [of _ "Suc i"])
      qed
    qed
  qed
qed

section \<open>Lines from user space\<close>

lemma sysfs_loop_cstr: "cstr m s xs \<Longrightarrow> cstr m t ys \<Longrightarrow>
  \<exists>a b x y. sysfs_streq_loop s t m = Some (a, b) \<and> cstr m a x \<and> cstr m b y \<and>
    (\<exists>z. xs = z @ x \<and> ys = z @ y) \<and> (x = [] \<or> y = [] \<or> hd x \<noteq> hd y)"
proof (induction xs arbitrary: s t ys)
  case Nil
  then show ?case by (subst sysfs_streq_loop.simps) auto
next
  case (Cons x xs)
  show ?case
  proof (cases "ys \<noteq> [] \<and> hd ys = x")
    case True
    then obtain ys' where ys: "ys = x # ys'" by (cases ys) auto
    then have "cstr m (s + 1) xs" "cstr m (t + 1) ys'" using Cons.prems by auto
    from Cons.IH [OF this] obtain a b u v where
      ab: "sysfs_streq_loop (s + 1) (t + 1) m = Some (a, b)" "cstr m a u" "cstr m b v" "\<exists>z. xs = z @ u \<and> ys' = z @ v"
        "u = [] \<or> v = [] \<or> hd u \<noteq> hd v" by blast
    then have "sysfs_streq_loop s t m = Some (a, b)" using Cons.prems ys by (subst sysfs_streq_loop.simps) simp
    moreover have "\<exists>z. x # xs = z @ u \<and> ys = z @ v" using ab(4) ys by (metis append_Cons)
    ultimately show ?thesis using ab(2,3,5) by blast
  next
    case False
    then have "sysfs_streq_loop s t m = Some (s, t)" using Cons.prems by (cases ys; subst sysfs_streq_loop.simps) auto
    moreover have "hd (x # xs) \<noteq> hd ys \<or> ys = []" using False by auto
    ultimately show ?thesis using Cons.prems by (metis append_Nil)
  qed
qed

lemma sysfs_streq_cstr:
  assumes "cstr m s xs" "cstr m t ys"
  shows "sysfs_streq s t m = Some (xs = ys \<or> ys = xs @ [0x0a] \<or> xs = ys @ [0x0a])"
proof -
  from sysfs_loop_cstr [OF assms] obtain a b x y z where
    l: "sysfs_streq_loop s t m = Some (a, b)" "cstr m a x" "cstr m b y" "xs = z @ x" "ys = z @ y" "x = [] \<or> y = [] \<or> hd x \<noteq> hd y" by blast
  have n: "c = [] \<longleftrightarrow> v = 0" if "cstr m p (d # c)" "m (p + 1) = Some v" for p c d v using that by (cases c) auto
  have r: "sysfs_streq s t m = Some (x = y \<or> y = x @ [0x0a] \<or> x = y @ [0x0a])"
  proof (cases x)
    case Nil
    then show ?thesis using l n [of b] by (cases y; cases "tl y") (auto simp: sysfs_streq_def)
  next
    case (Cons c cs)
    then show ?thesis using l by (cases y; cases cs; cases "tl y") (auto simp: sysfs_streq_def)
  qed
  then show ?thesis using l(4,5) by simp
qed

end
