(* ===== verification/Strings_Write.thy ===== *)
theory Strings_Write
  imports Strings_Read
begin

text \<open>
  The string routines that write: the memory they leave, as the old memory with a block of characters put into it.  Source
  and destination do not overlap.
\<close>

section \<open>Writing a block\<close>

fun put :: "mem \<Rightarrow> addr \<Rightarrow> u8 list \<Rightarrow> mem" where
  "put m a [] = m"
| "put m a (x # xs) = put (m(a \<mapsto> x)) (a + 1) xs"

definition blk :: "addr \<Rightarrow> nat \<Rightarrow> addr set" where
  "blk a n = (\<lambda>i. a + of_nat i) ` {..<n}"

lemma blk_0 [simp]: "blk a 0 = {}"
  by (simp add: blk_def)

lemma blk_Suc [simp]: "blk a (Suc n) = insert a (blk (a + 1) n)"
  by (auto simp: blk_def lessThan_Suc_eq_insert_0 image_image add.assoc)

lemma blk_add: "blk a (n + k) = blk a n \<union> blk (a + of_nat n) k"
  by (induction n arbitrary: a) (simp_all add: add.assoc)

lemma blk_mono: "n \<le> k \<Longrightarrow> blk a n \<subseteq> blk a k"
  by (auto simp: blk_def)

lemma blk_before: "n < 2 ^ 32 \<Longrightarrow> a \<notin> blk (a + 1) n"
proof
  assume n: "n < 2 ^ 32" and "a \<in> blk (a + 1) n"
  then obtain i where i: "i < n" "a = a + 1 + of_nat i" by (auto simp: blk_def)
  then have "(of_nat (Suc i) :: u32) = 0" by (simp add: add.assoc)
  then have "unat (of_nat (Suc i) :: u32) = 0" by simp
  then show False using i(1) n by (simp add: unat_of_nat del: of_nat_Suc)
qed

lemma blk_after: "n < 2 ^ 32 \<Longrightarrow> a + of_nat n \<notin> blk a n"
proof
  assume n: "n < 2 ^ 32" and "a + of_nat n \<in> blk a n"
  then obtain i where "i < n" "(of_nat n :: u32) = of_nat i" by (auto simp: blk_def)
  then have "unat (of_nat n :: u32) = unat (of_nat i :: u32)" "i < n" by simp_all
  then show False using n by (simp add: unat_of_nat)
qed

lemma bytes_other: "a \<notin> blk b (length ys) \<Longrightarrow> bytes (m(a \<mapsto> v)) b ys = bytes m b ys"
  by (induction ys arbitrary: b) auto

lemma cstr_other: "a \<notin> blk s (Suc (length xs)) \<Longrightarrow> cstr (m(a \<mapsto> v)) s xs = cstr m s xs"
  using bytes_other [of a s "xs @ [0]"] by (simp add: cstr_def)

lemma put_other: "b \<notin> blk a (length xs) \<Longrightarrow> put m a xs b = m b"
  by (induction xs arbitrary: a m) auto

lemma put_frame: "blk a (length xs) \<inter> blk b (length ys) = {} \<Longrightarrow> bytes (put m a xs) b ys = bytes m b ys"
  by (induction ys arbitrary: b) (auto simp: put_other)

lemma put_bytes: "length xs \<le> 2 ^ 32 \<Longrightarrow> bytes (put m a xs) a xs"
proof (induction xs arbitrary: m a)
  case (Cons x xs)
  then show ?case using put_other [of a "a + 1" xs] blk_before [of "length xs" a] by simp
qed simp

lemma dom_put: "blk a (length xs) \<subseteq> dom m \<Longrightarrow> dom (put m a xs) = dom m"
  by (induction xs arbitrary: a m) (auto simp: insert_absorb)

lemma put_append: "put m a (xs @ ys) = put (put m a xs) (a + of_nat (length xs)) ys"
  by (induction xs arbitrary: a m) (simp_all add: add.assoc)

lemma put_at: "length xs \<le> 2 ^ 32 \<Longrightarrow> i < length xs \<Longrightarrow> put m a xs (a + of_nat i) = Some (xs ! i)"
  using bytes_nth [OF put_bytes] by blast

lemma copied_put:
  assumes b: "bytes m src xs" and n: "length xs \<le> 2 ^ 32"
  shows "copied m dst src {..<length xs} = put m dst xs"
proof
  fix a
  have "put m dst xs a = m (src + (a - dst))" if "unat (a - dst) < length xs"
    using put_at [OF n that, of m dst] bytes_nth [OF b that] by simp
  moreover have "put m dst xs a = m a" if "\<not> unat (a - dst) < length xs"
  proof (rule put_other)
    show "a \<notin> blk dst (length xs)"
    proof
      assume "a \<in> blk dst (length xs)"
      then obtain i where "i < length xs" "a - dst = of_nat i" by (auto simp: blk_def)
      then show False using that n by (simp add: unat_of_nat)
    qed
  qed
  ultimately show "copied m dst src {..<length xs} a = put m dst xs a" by (simp add: copied_def)
qed

lemma store_byte_put: "a \<in> dom m \<Longrightarrow> store_byte a v m = Some (m(a \<mapsto> v))"
  by (auto simp: store_byte_def write_at_def)

lemma fwd_safe_disjoint: "blk dst n \<inter> blk src n = {} \<Longrightarrow> fwd_safe dst src n"
  unfolding fwd_safe_def blk_def by (metis (no_types, lifting) IntI empty_iff imageI lessThan_iff order_less_trans)

section \<open>Copying\<close>

lemma strcpy_loop_cstr:
  assumes "cstr m src xs" "blk dst (Suc (length xs)) \<subseteq> dom m" "blk dst (Suc (length xs)) \<inter> blk src (Suc (length xs)) = {}"
  shows "strcpy_loop dst src m = Some (put m dst (xs @ [0]))"
  using assms
proof (induction xs arbitrary: dst src m)
  case Nil
  then show ?case by (subst strcpy_loop.simps) (simp add: store_byte_put domI)
next
  case (Cons x xs)
  then have "cstr (m(dst \<mapsto> x)) (src + 1) xs" by (subst cstr_other) auto
  moreover have "blk (dst + 1) (Suc (length xs)) \<subseteq> dom (m(dst \<mapsto> x))" "blk (dst + 1) (Suc (length xs)) \<inter> blk (src + 1) (Suc (length xs)) = {}"
    using Cons.prems(2,3) by auto
  ultimately have "strcpy_loop (dst + 1) (src + 1) (m(dst \<mapsto> x)) = Some (put (m(dst \<mapsto> x)) (dst + 1) (xs @ [0]))" by (rule Cons.IH)
  moreover have "m src = Some x" "x \<noteq> 0" "dst \<in> dom m" using Cons.prems by auto
  ultimately show ?case by (subst strcpy_loop.simps) (simp add: store_byte_put)
qed

lemma strncpy_pad:
  assumes "m src = Some 0" "blk dst (unat n) \<subseteq> dom m" "src \<notin> blk dst (unat n)"
  shows "strncpy_loop dst src n m = Some (put m dst (replicate (unat n) 0))"
  using assms
proof (induction "unat n" arbitrary: n dst m)
  case 0
  then have "n = 0" by (simp add: word_unat_eq_iff)
  then show ?case by (subst strncpy_loop.simps) simp
next
  case (Suc k)
  then have n: "n \<noteq> 0" by auto
  then have k: "k = unat (n - 1)" using unat_dec [of n] Suc.hyps(2) by simp
  have s: "unat n = Suc (unat (n - 1))" using Suc.hyps(2) k by simp
  have p: "blk (dst + 1) (unat (n - 1)) \<subseteq> dom (m(dst \<mapsto> 0))" "src \<notin> blk (dst + 1) (unat (n - 1))" "(m(dst \<mapsto> 0)) src = Some 0"
    using Suc.prems unfolding s by auto
  have "strncpy_loop (dst + 1) src (n - 1) (m(dst \<mapsto> 0)) = Some (put (m(dst \<mapsto> 0)) (dst + 1) (replicate (unat (n - 1)) 0))"
    by (rule Suc.hyps(1) [OF k p(3,1,2)])
  moreover have "dst \<in> dom m" using Suc.prems(2) unfolding s by simp
  ultimately show ?case using n Suc.prems(1) unfolding s by (subst strncpy_loop.simps) (simp add: store_byte_put)
qed

lemma strncpy_loop_cstr:
  assumes "cstr m src xs" "blk dst (unat n) \<subseteq> dom m" "blk dst (unat n) \<inter> blk src (Suc (length xs)) = {}"
  shows "strncpy_loop dst src n m = Some (put m dst (take (unat n) xs @ replicate (unat n - length xs) 0))"
  using assms
proof (induction xs arbitrary: dst src m n)
  case Nil
  then show ?case using strncpy_pad [of m src dst n] by simp
next
  case (Cons x xs)
  show ?case
  proof (cases "n = 0")
    case False
    then have s: "unat n = Suc (unat (n - 1))" by (cases "unat n") (auto simp: unat_dec word_unat_eq_iff)
    have "cstr (m(dst \<mapsto> x)) (src + 1) xs" using Cons.prems unfolding s by (subst cstr_other) auto
    moreover have "blk (dst + 1) (unat (n - 1)) \<subseteq> dom (m(dst \<mapsto> x))" "blk (dst + 1) (unat (n - 1)) \<inter> blk (src + 1) (Suc (length xs)) = {}"
      using Cons.prems(2,3) unfolding s by auto
    ultimately have "strncpy_loop (dst + 1) (src + 1) (n - 1) (m(dst \<mapsto> x)) =
      Some (put (m(dst \<mapsto> x)) (dst + 1) (take (unat (n - 1)) xs @ replicate (unat (n - 1) - length xs) 0))" by (rule Cons.IH)
    moreover have "m src = Some x" "x \<noteq> 0" "dst \<in> dom m" using Cons.prems unfolding s by auto
    ultimately show ?thesis using False unfolding s by (subst strncpy_loop.simps) (simp add: store_byte_put)
  qed (subst strncpy_loop.simps, simp)
qed

lemma strncat_loop_cstr:
  assumes "cstr m src xs" "n \<noteq> 0" "blk dst (Suc (min (length xs) (unat n))) \<subseteq> dom m"
    "blk dst (Suc (min (length xs) (unat n))) \<inter> blk src (Suc (length xs)) = {}"
  shows "strncat_loop dst src n m = Some (put m dst (take (unat n) xs @ [0]))"
  using assms
proof (induction xs arbitrary: dst src m n)
  case Nil
  then show ?case by (subst strncat_loop.simps) (simp add: store_byte_put domI)
next
  case (Cons x xs)
  have s: "unat n = Suc (unat (n - 1))" using Cons.prems(2) by (cases "unat n") (auto simp: unat_dec word_unat_eq_iff)
  have a: "m src = Some x" "x \<noteq> 0" "dst \<in> dom m" using Cons.prems by auto
  show ?case
  proof (cases "n - 1 = 0")
    case True
    have "dst + 1 \<in> dom m" using Cons.prems(3) unfolding s by simp
    then have "dst + 1 \<in> dom (m(dst \<mapsto> x))" by auto
    then show ?thesis using True a unfolding s by (subst strncat_loop.simps) (simp add: store_byte_put)
  next
    case False
    have "cstr (m(dst \<mapsto> x)) (src + 1) xs" using Cons.prems unfolding s by (subst cstr_other) auto
    moreover have "blk (dst + 1) (Suc (min (length xs) (unat (n - 1)))) \<subseteq> dom (m(dst \<mapsto> x))"
      "blk (dst + 1) (Suc (min (length xs) (unat (n - 1)))) \<inter> blk (src + 1) (Suc (length xs)) = {}"
      using Cons.prems(3,4) unfolding s by auto
    ultimately have "strncat_loop (dst + 1) (src + 1) (n - 1) (m(dst \<mapsto> x)) =
      Some (put (m(dst \<mapsto> x)) (dst + 1) (take (unat (n - 1)) xs @ [0]))" using False by (intro Cons.IH)
    then show ?thesis using False a unfolding s by (subst strncat_loop.simps) (simp add: store_byte_put)
  qed
qed

lemma memset_loop_put:
  assumes "blk s (unat n) \<subseteq> dom m"
  shows "memset_loop s c n m = Some (put m s (replicate (unat n) (ucast c)))"
  using assms
proof (induction "unat n" arbitrary: n s m)
  case 0
  then have "n = 0" by (simp add: word_unat_eq_iff)
  then show ?case by (subst memset_loop.simps) simp
next
  case (Suc k)
  then have n: "n \<noteq> 0" by auto
  then have k: "k = unat (n - 1)" using unat_dec [of n] Suc.hyps(2) by simp
  have s: "unat n = Suc (unat (n - 1))" using Suc.hyps(2) k by simp
  have "memset_loop (s + 1) c (n - 1) (m(s \<mapsto> ucast c)) = Some (put (m(s \<mapsto> ucast c)) (s + 1) (replicate (unat (n - 1)) (ucast c)))"
    using Suc.prems unfolding s by (intro Suc.hyps(1) [OF k]) auto
  moreover have "s \<in> dom m" using Suc.prems unfolding s by simp
  ultimately show ?case using n unfolding s by (subst memset_loop.simps) (simp add: store_byte_put)
qed

section \<open>Terminated blocks\<close>

lemma cstr_put: "0 \<notin> set xs \<Longrightarrow> length xs < 2 ^ 32 \<Longrightarrow> cstr (put m a (xs @ [0])) a xs"
  using put_bytes [of "xs @ [0]" m a] by (simp add: cstr_def)

lemma cstr_frame: "blk a (length ys) \<inter> blk s (Suc (length xs)) = {} \<Longrightarrow> cstr (put m a ys) s xs = cstr m s xs"
  using put_frame [of a ys s "xs @ [0]" m] by (simp add: cstr_def)

text \<open>A terminator within a string.\<close>

lemma cstr_trunc: "cstr m s (xs @ ys) \<Longrightarrow> cstr (m(s + of_nat (length xs) \<mapsto> 0)) s xs"
  using cstr_length [of m s "xs @ ys"] bytes_other [OF blk_after [of "length xs" s], of m 0]
  by (auto simp: cstr_def bytes_append)

lemma cstr_rest:
  assumes "cstr m s (xs @ y # ys)"
  shows "cstr (m(s + of_nat (length xs) \<mapsto> 0)) (s + of_nat (length xs) + 1) ys"
proof -
  have "Suc (length ys) < 2 ^ 32" using cstr_length [OF assms] by simp
  then have "s + of_nat (length xs) \<notin> blk (s + of_nat (length xs) + 1) (Suc (length ys))" by (rule blk_before)
  then show ?thesis using assms cstr_other by (simp add: cstr_append)
qed

lemma cstr_dom: "cstr m s xs \<Longrightarrow> n \<le> length xs \<Longrightarrow> s + of_nat n \<in> dom m"
  using bytes_nth [of m s "xs @ [0]" n] by (auto simp: cstr_def)

section \<open>Trimming\<close>

definition trim :: "u8 list \<Rightarrow> u8 list" where
  "trim xs = rev (dropWhile isspace (rev (dropWhile isspace xs)))"

lemma strim_loop_cstr:
  assumes "bytes m s (zs @ z # ts)" "\<not> isspace z" "\<forall>t\<in>set ts. isspace t" "unat s + length (zs @ z # ts) \<le> 2 ^ 32"
  shows "strim_loop (s + of_nat (length zs + length ts)) s m = Some (s + of_nat (length zs))"
  using assms
proof (induction ts rule: rev_induct)
  case Nil
  have "unat (s + of_nat (length zs)) = unat s + length zs" using Nil.prems(4) by (simp add: unat_word_ariths unat_of_nat)
  then have "s \<le> s + of_nat (length zs)" by (simp add: word_le_nat_alt)
  moreover have "m (s + of_nat (length zs)) = Some z" using Nil.prems(1) by (simp add: bytes_append)
  ultimately show ?case using Nil.prems(2) by (subst strim_loop.simps) simp
next
  case (snoc t ts)
  let ?k = "length zs + length (ts @ [t])"
  have "unat (s + of_nat ?k) = unat s + ?k" using snoc.prems(4) by (simp add: unat_word_ariths unat_of_nat del: of_nat_add)
  then have "s \<le> s + of_nat ?k" by (simp add: word_le_nat_alt del: of_nat_add)
  moreover have "m (s + of_nat ?k) = Some t" using bytes_nth [OF snoc.prems(1), of ?k] by (simp add: nth_append)
  ultimately have "strim_loop (s + of_nat ?k) s m = strim_loop (s + of_nat ?k - 1) s m"
    using snoc.prems(3) by (subst strim_loop.simps) simp
  also have "s + of_nat ?k - 1 = s + of_nat (length zs + length ts)" by simp
  also have "strim_loop (s + of_nat (length zs + length ts)) s m = Some (s + of_nat (length zs))"
    using snoc.prems by (intro snoc.IH) (auto simp: bytes_append)
  finally show ?case .
qed

lemma strim_body:
  assumes c: "cstr m s xs" and n: "unat s + length xs < 2 ^ 32" "xs \<noteq> []" "\<not> isspace (hd xs)"
  shows "strim_loop (s + of_nat (length xs) - 1) s m = Some (s + of_nat (length (trim xs)) - 1)" "trim xs \<noteq> []"
    "\<exists>ts. xs = trim xs @ ts"
proof -
  let ?b = "rev (dropWhile isspace (rev xs))" and ?t = "rev (takeWhile isspace (rev xs))"
  have t: "trim xs = ?b" using n(2,3) by (cases xs) (simp_all add: trim_def)
  have x: "xs = ?b @ ?t" by (simp flip: rev_append)
  then show "\<exists>ts. xs = trim xs @ ts" using t by auto
  have "?b \<noteq> []" using n(2,3) by (cases xs) (auto simp: dropWhile_eq_Nil_conv)
  then show "trim xs \<noteq> []" using t by simp
  then obtain zs z where b: "?b = zs @ [z]" using t by (cases ?b rule: rev_cases) auto
  then have "\<not> isspace z" using hd_dropWhile [of isspace "rev xs"] by (cases "dropWhile isspace (rev xs)") auto
  moreover have "\<forall>u\<in>set ?t. isspace u" by (auto dest: set_takeWhileD)
  moreover have xs: "xs = zs @ z # ?t" using x b by simp
  moreover have "bytes m s xs" using c by (simp add: cstr_def bytes_append)
  ultimately have l: "strim_loop (s + of_nat (length zs + length ?t)) s m = Some (s + of_nat (length zs))"
    using strim_loop_cstr [of m s zs z ?t] n(1) by simp
  have "length xs = Suc (length zs + length ?t)" using arg_cong [OF xs, of length] by simp
  then have "s + of_nat (length xs) - 1 = s + of_nat (length zs + length ?t)" by simp
  moreover have "s + of_nat (length (trim xs)) - 1 = s + of_nat (length zs)" using t b by simp
  ultimately show "strim_loop (s + of_nat (length xs) - 1) s m = Some (s + of_nat (length (trim xs)) - 1)" using l by (simp only:)
qed

lemma strim_cstr:
  assumes c: "cstr m s xs" and n: "unat s + length xs < 2 ^ 32"
  shows "\<exists>m'. strim s m = Some (s + of_nat (span isspace xs), m') \<and> cstr m' (s + of_nat (span isspace xs)) (trim xs)"
proof -
  let ?r = "dropWhile isspace xs" and ?s = "s + of_nat (span isspace xs)"
  have x: "xs = takeWhile isspace xs @ ?r" by simp
  then have r: "cstr m ?s ?r" using c cstr_append [of m s "takeWhile isspace xs" ?r] by simp
  have t: "trim xs = trim ?r" by (simp add: trim_def dropWhile_idem)
  show ?thesis
  proof (cases "?r = []")
    case True
    have "strlen ?s m = Some 0" "trim ?r = []" "cstr m ?s []" using strlen_cstr [OF r] r unfolding True by (simp_all add: trim_def)
    then show ?thesis using t skip_spaces_cstr [OF c] by (simp add: strim_def)
  next
    case False
    have l: "length xs = span isspace xs + length ?r" by (metis length_append x)
    then have "unat ?s = unat s + span isspace xs" using n by (simp add: unat_word_ariths unat_of_nat)
    then have b: "unat ?s + length ?r < 2 ^ 32" using n l by simp
    note B = strim_body [OF r b False hd_dropWhile [OF False]]
    obtain ts where ts: "?r = trim ?r @ ts" using B(3) by blast
    let ?p = "?s + of_nat (length (trim ?r))"
    have "cstr m ?s (trim ?r @ ts)" using r ts by simp
    then have m': "cstr (m(?p \<mapsto> 0)) ?s (trim ?r)" by (rule cstr_trunc)
    have "length (trim ?r) \<le> length ?r" using arg_cong [OF ts, of length] by simp
    then have "?p \<in> dom m" by (rule cstr_dom [OF r])
    then have "store_byte ?p 0 m = Some (m(?p \<mapsto> 0))" by (rule store_byte_put)
    moreover have "(of_nat (length ?r) :: u32) \<noteq> 0"
      using False of_nat_unat_length [of ?r] b by (metis length_0_conv unsigned_0 add_lessD1 add.commute)
    ultimately have "strim s m = Some (?s, m(?p \<mapsto> 0))"
      using skip_spaces_cstr [OF c] strlen_cstr [OF r] B(1) by (simp add: strim_def)
    then show ?thesis using m' t by auto
  qed
qed

section \<open>Splitting\<close>

lemma strsep_cstr:
  assumes s: "s \<noteq> NULL" and c: "cstr m s xs" and y: "cstr m ct ys" and n: "unat s + length xs < 2 ^ 32"
  shows "if set xs \<inter> set ys = {} then strsep s ct m = Some (s, NULL, m)
    else \<exists>m' as d bs. xs = as @ d # bs \<and> set as \<inter> set ys = {} \<and> d \<in> set ys \<and>
      strsep s ct m = Some (s, s + of_nat (length as) + 1, m') \<and> cstr m' s as \<and> cstr m' (s + of_nat (length as) + 1) bs"
proof (cases "set xs \<inter> set ys = {}")
  case True
  then show ?thesis using s strpbrk_cstr [OF c y] by (simp add: strsep_def)
next
  case False
  let ?as = "takeWhile (\<lambda>x. x \<notin> set ys) xs" and ?r = "dropWhile (\<lambda>x. x \<notin> set ys) xs"
  have "?r \<noteq> []" using False by (auto simp: dropWhile_eq_Nil_conv)
  then obtain d bs where r: "?r = d # bs" by (cases ?r) auto
  then have x: "xs = ?as @ d # bs" by (metis takeWhile_dropWhile_id)
  have d: "d \<in> set ys" using hd_dropWhile [OF \<open>?r \<noteq> []\<close>] r by simp
  have a: "set ?as \<inter> set ys = {}" by (auto dest: set_takeWhileD)
  let ?p = "s + of_nat (length ?as)"
  have c': "cstr m s (?as @ d # bs)" using c x by simp
  have l: "length ?as \<le> length xs" by (rule length_takeWhile_le)
  have "unat ?p = unat s + length ?as" using n l by (simp add: unat_word_ariths unat_of_nat)
  moreover have "unat s \<noteq> 0" using s by (simp add: word_unat_eq_iff)
  ultimately have "?p \<noteq> NULL" by auto
  moreover have "store_byte ?p 0 m = Some (m(?p \<mapsto> 0))" by (rule store_byte_put, rule cstr_dom [OF c l])
  ultimately have "strsep s ct m = Some (s, ?p + 1, m(?p \<mapsto> 0))"
    using s False strpbrk_cstr [OF c y] by (simp add: strsep_def)
  then show ?thesis using False x d a cstr_trunc [OF c'] cstr_rest [OF c'] by auto
qed

section \<open>Bounded copies\<close>

lemma memcpy_put:
  assumes "bytes m src xs" "length xs = unat n" "copyable m dst src (unat n)" "blk dst (unat n) \<inter> blk src (unat n) = {}"
  shows "memcpy regs dst src n m = Some (dst, put m dst xs)"
proof -
  have "unat n \<le> 2 ^ 32" using assms(3) by (simp add: copyable_def)
  then show ?thesis using mem_copy_fwd_copied [OF assms(3) fwd_safe_disjoint [OF assms(4)]] copied_put [OF assms(1), of dst] assms(2)
    by (simp add: memcpy_def)
qed

text \<open>The tail of \<open>strlcpy\<close> and \<open>strlcat\<close>: a piece of the source and a terminator.\<close>

lemma memcpy_terminated:
  assumes c: "cstr m src xs" and k: "unat n \<le> length xs" and cp: "copyable m dst src (unat n)"
    and d: "blk dst (Suc (unat n)) \<subseteq> dom m" "blk dst (Suc (unat n)) \<inter> blk src (Suc (length xs)) = {}"
  shows "do { (u, m) \<leftarrow> memcpy regs dst src n m; store_byte (dst + n) 0 m } = Some (put m dst (take (unat n) xs @ [0]))"
proof -
  have b: "bytes m src (take (unat n) xs)"
    using c bytes_append [of m src "take (unat n) xs" "drop (unat n) xs"] by (simp add: cstr_def bytes_append)
  have s: "blk dst (Suc (unat n)) = blk dst (unat n) \<union> {dst + n}" using blk_add [of dst "unat n" 1] by simp
  have "blk dst (unat n) \<inter> blk src (unat n) = {}" using d(2) s blk_mono [of "unat n" "Suc (length xs)" src] k by (auto simp del: blk_Suc)
  then have m: "memcpy regs dst src n m = Some (dst, put m dst (take (unat n) xs))" using memcpy_put [OF b _ cp] k by simp
  have "length (take (unat n) xs) = unat n" using k by simp
  then have "dst + n \<in> dom (put m dst (take (unat n) xs))" "put m dst (take (unat n) xs @ [0]) = (put m dst (take (unat n) xs))(dst + n \<mapsto> 0)"
    using dom_put [of dst "take (unat n) xs" m] d(1) s by (auto simp: put_append simp del: blk_Suc)
  then show ?thesis using m store_byte_put by simp
qed

end
