(* ===== verification/Vsprintf.thy ===== *)
theory Vsprintf
  imports Strings_Write
begin

text \<open>
  Numbers as text, from \<open>lib/vsprintf.c\<close>: reading them (\<open>simple_strtoull\<close> and its relatives) and the decimal output of
  \<open>put_dec\<close>, which gets the digits from binary coded sixteenths by multiplications and shifts.
\<close>

section \<open>Reading numbers\<close>

definition TOLOWER :: "u8 \<Rightarrow> u8" where "TOLOWER x = x OR 0x20"

definition simple_guess_base :: "addr \<Rightarrow> mem \<Rightarrow> u32 option" where
  "simple_guess_base cp m = do {
     c0 \<leftarrow> m cp;
     if c0 = 0x30 then do {
       c1 \<leftarrow> m (cp + 1);
       if TOLOWER c1 = 0x78 then do {
         c2 \<leftarrow> m (cp + 2);
         Some (if isxdigit c2 then 16 else 8) }
       else Some 8 }
     else Some 10 }"

definition digit_value :: "u8 \<Rightarrow> u32" where
  "digit_value c = (if isdigit c then ucast c - 0x30 else ucast (TOLOWER c) - 0x61 + 10)"

partial_function (option) simple_strtoull_loop :: "addr \<Rightarrow> u32 \<Rightarrow> u64 \<Rightarrow> mem \<Rightarrow> (u64 \<times> addr) option" where
  "simple_strtoull_loop cp base result m = do {
     c \<leftarrow> m cp;
     if isxdigit c then
       (let value = digit_value c in
        if value \<ge> base then Some (result, cp)
        else simple_strtoull_loop (cp + 1) base (result * ucast base + ucast value) m)
     else Some (result, cp) }"

text \<open>The end of the number is part of the result; a caller that passes no \<open>endp\<close> leaves it out.\<close>

definition simple_strtoull :: "addr \<Rightarrow> u32 \<Rightarrow> mem \<Rightarrow> (u64 \<times> addr) option" where
  "simple_strtoull cp base m = do {
     base \<leftarrow> (if base = 0 then simple_guess_base cp m else Some base);
     cp \<leftarrow> (if base = 16 then do {
            c0 \<leftarrow> m cp;
            if c0 = 0x30 then do {
              c1 \<leftarrow> m (cp + 1);
              Some (if TOLOWER c1 = 0x78 then cp + 2 else cp) }
            else Some cp }
          else Some cp);
     simple_strtoull_loop cp base 0 m }"

definition simple_strtoul :: "addr \<Rightarrow> u32 \<Rightarrow> mem \<Rightarrow> (u32 \<times> addr) option" where
  "simple_strtoul cp base m = do { (r, e) \<leftarrow> simple_strtoull cp base m; Some (ucast r, e) }"

definition simple_strtol :: "addr \<Rightarrow> u32 \<Rightarrow> mem \<Rightarrow> (u32 \<times> addr) option" where
  "simple_strtol cp base m = do {
     c \<leftarrow> m cp;
     if c = 0x2d then do { (r, e) \<leftarrow> simple_strtoul (cp + 1) base m; Some (- r, e) }
     else simple_strtoul cp base m }"

definition simple_strtoll :: "addr \<Rightarrow> u32 \<Rightarrow> mem \<Rightarrow> (u64 \<times> addr) option" where
  "simple_strtoll cp base m = do {
     c \<leftarrow> m cp;
     if c = 0x2d then do { (r, e) \<leftarrow> simple_strtoull (cp + 1) base m; Some (- r, e) }
     else simple_strtoull cp base m }"

text \<open>The strict readers return zero or \<open>- EINVAL\<close> and, through \<open>res\<close>, the number, which is zero after an error.\<close>

definition EINVAL_code :: int where "EINVAL_code = 22"

definition strict_strtoul :: "addr \<Rightarrow> u32 \<Rightarrow> mem \<Rightarrow> (int \<times> u32) option" where
  "strict_strtoul cp base m = do {
     n \<leftarrow> strlen cp m;
     if n = 0 then Some (- EINVAL_code, 0)
     else do {
       (val, tail) \<leftarrow> simple_strtoul cp base m;
       if tail = cp then Some (- EINVAL_code, 0)
       else do {
         c \<leftarrow> m tail;
         Some (if c = 0 \<or> n = tail - cp + 1 \<and> c = 0x0a then (0, val) else (- EINVAL_code, 0)) } } }"

definition strict_strtol :: "addr \<Rightarrow> u32 \<Rightarrow> mem \<Rightarrow> (int \<times> u32) option" where
  "strict_strtol cp base m = do {
     c \<leftarrow> m cp;
     if c = 0x2d then do {
       (ret, res) \<leftarrow> strict_strtoul (cp + 1) base m;
       Some (ret, if ret = 0 then - res else res) }
     else strict_strtoul cp base m }"

definition strict_strtoull :: "addr \<Rightarrow> u32 \<Rightarrow> mem \<Rightarrow> (int \<times> u64) option" where
  "strict_strtoull cp base m = do {
     n \<leftarrow> strlen cp m;
     if n = 0 then Some (- EINVAL_code, 0)
     else do {
       (val, tail) \<leftarrow> simple_strtoull cp base m;
       if tail = cp then Some (- EINVAL_code, 0)
       else do {
         c \<leftarrow> m tail;
         Some (if c = 0 \<or> n = tail - cp + 1 \<and> c = 0x0a then (0, val) else (- EINVAL_code, 0)) } } }"

definition strict_strtoll :: "addr \<Rightarrow> u32 \<Rightarrow> mem \<Rightarrow> (int \<times> u64) option" where
  "strict_strtoll cp base m = do {
     c \<leftarrow> m cp;
     if c = 0x2d then do {
       (ret, res) \<leftarrow> strict_strtoull (cp + 1) base m;
       Some (ret, if ret = 0 then - res else res) }
     else strict_strtoull cp base m }"

partial_function (option) skip_atoi_loop :: "addr \<Rightarrow> u32 \<Rightarrow> mem \<Rightarrow> (u32 \<times> addr) option" where
  "skip_atoi_loop s i m = do {
     c \<leftarrow> m s;
     if isdigit c then skip_atoi_loop (s + 1) (i * 10 + ucast c - 0x30) m else Some (i, s) }"

definition skip_atoi :: "addr \<Rightarrow> mem \<Rightarrow> (u32 \<times> addr) option" where
  "skip_atoi s m = skip_atoi_loop s 0 m"

section \<open>Writing decimal numbers\<close>

text \<open>The digits come out with the least significant one first.\<close>

definition put_dec_trunc :: "addr \<Rightarrow> u32 \<Rightarrow> mem \<Rightarrow> (addr \<times> mem) option" where
  "put_dec_trunc buf q m = do {
     let d1 = drop_bit 4 q AND 0xf;
     let d2 = drop_bit 8 q AND 0xf;
     let d3 = drop_bit 12 q;
     let d0 = 6 * (d3 + d2 + d1) + (q AND 0xf);
     let q = drop_bit 11 (d0 * 0xcd);
     let d0 = d0 - 10 * q;
     m \<leftarrow> store_byte buf (ucast (d0 + 0x30)) m;
     let buf = buf + 1;
     let d1 = q + 9 * d3 + 5 * d2 + d1;
     if d1 \<noteq> 0 then do {
       let q = drop_bit 11 (d1 * 0xcd);
       let d1 = d1 - 10 * q;
       m \<leftarrow> store_byte buf (ucast (d1 + 0x30)) m;
       let buf = buf + 1;
       let d2 = q + 2 * d2;
       if d2 \<noteq> 0 \<or> d3 \<noteq> 0 then do {
         let q = drop_bit 7 (d2 * 0xd);
         let d2 = d2 - 10 * q;
         m \<leftarrow> store_byte buf (ucast (d2 + 0x30)) m;
         let buf = buf + 1;
         let d3 = q + 4 * d3;
         if d3 \<noteq> 0 then do {
           let q = drop_bit 11 (d3 * 0xcd);
           let d3 = d3 - 10 * q;
           m \<leftarrow> store_byte buf (ucast (d3 + 0x30)) m;
           let buf = buf + 1;
           if q \<noteq> 0 then do {
             m \<leftarrow> store_byte buf (ucast (q + 0x30)) m;
             Some (buf + 1, m) }
           else Some (buf, m) }
         else Some (buf, m) }
       else Some (buf, m) }
     else Some (buf, m) }"

definition put_dec_full :: "addr \<Rightarrow> u32 \<Rightarrow> mem \<Rightarrow> (addr \<times> mem) option" where
  "put_dec_full buf q m = do {
     let d1 = drop_bit 4 q AND 0xf;
     let d2 = drop_bit 8 q AND 0xf;
     let d3 = drop_bit 12 q;
     let d0 = 6 * (d3 + d2 + d1) + (q AND 0xf);
     let q = drop_bit 11 (d0 * 0xcd);
     let d0 = d0 - 10 * q;
     m \<leftarrow> store_byte buf (ucast (d0 + 0x30)) m;
     let buf = buf + 1;
     let d1 = q + 9 * d3 + 5 * d2 + d1;
     let q = drop_bit 11 (d1 * 0xcd);
     let d1 = d1 - 10 * q;
     m \<leftarrow> store_byte buf (ucast (d1 + 0x30)) m;
     let buf = buf + 1;
     let d2 = q + 2 * d2;
     let q = drop_bit 7 (d2 * 0xd);
     let d2 = d2 - 10 * q;
     m \<leftarrow> store_byte buf (ucast (d2 + 0x30)) m;
     let buf = buf + 1;
     let d3 = q + 4 * d3;
     let q = drop_bit 11 (d3 * 0xcd);
     let d3 = d3 - 10 * q;
     m \<leftarrow> store_byte buf (ucast (d3 + 0x30)) m;
     let buf = buf + 1;
     m \<leftarrow> store_byte buf (ucast (q + 0x30)) m;
     Some (buf + 1, m) }"

partial_function (option) put_dec :: "addr \<Rightarrow> u64 \<Rightarrow> mem \<Rightarrow> (addr \<times> mem) option" where
  "put_dec buf num m =
     (if num < 100000 then put_dec_trunc buf (ucast num) m
      else do {
        let rem = ucast (num mod 100000);
        (buf, m) \<leftarrow> put_dec_full buf rem m;
        put_dec buf (num div 100000) m })"

end
