(* ===== verification/Vsprintf_Dec.thy ===== *)
theory Vsprintf_Dec
  imports Vsprintf
begin

text \<open>
  Decimal numbers: the shifts and multiplications of \<open>put_dec\<close> give the decimal digits, and reading the digits gives back the number.
\<close>

section \<open>Decimal digits\<close>

definition digit :: "nat \<Rightarrow> u8" where "digit d = of_nat (48 + d)"

fun dec :: "nat \<Rightarrow> u8 list" where
  "dec n = (if n < 10 then [digit n] else digit (n mod 10) # dec (n div 10))"

declare dec.simps [simp del]

primrec dec_full :: "nat \<Rightarrow> nat \<Rightarrow> u8 list" where
  "dec_full 0 n = []"
| "dec_full (Suc k) n = digit (n mod 10) # dec_full k (n div 10)"

lemma dec_split: "10 ^ k \<le> n \<Longrightarrow> dec n = dec_full k (n mod 10 ^ k) @ dec (n div 10 ^ k)"
proof (induction k arbitrary: n)
  case (Suc k)
  then have "10 ^ k \<le> n div 10" by (simp add: less_eq_div_iff_mult_less_eq)
  from Suc.IH [OF this] have "dec (n div 10) = dec_full k (n div 10 mod 10 ^ k) @ dec (n div 10 div 10 ^ k)" .
  moreover have "\<not> n < 10" using Suc.prems by (metis le_antisym less_imp_le_nat linorder_not_le nat_le_linear one_le_numeral order_less_le_trans power_Suc self_le_power zero_less_Suc power_one_right power_increasing)
  moreover have "n mod (10 * 10 ^ k) mod 10 = n mod 10" by (simp add: mod_mult2_eq)
  moreover have "n mod (10 * 10 ^ k) div 10 = n div 10 mod 10 ^ k" by (simp add: mod_mult2_eq)
  ultimately show ?case by (subst dec.simps) (simp add: div_mult2_eq)
qed simp

lemma and_15: "n AND 15 = n mod (16 :: nat)"
  using take_bit_eq_mask [of 4 n] by (simp add: take_bit_eq_mod mask_eq_exp_minus_1)

lemma div10: "k < 400 \<Longrightarrow> k * 205 div 2048 = k div (10 :: nat)"
proof -
  assume k: "k < 400"
  define a b where "a = k div 10" and "b = k mod 10"
  then have e: "k = 10 * a + b" "b < 10" "a < 40" using k by auto
  then have "k * 205 = 2048 * a + (2 * a + 205 * b)" "2 * a + 205 * b < 2048" by auto
  then show ?thesis using a_def by simp
qed

lemma div10': "k < 65 \<Longrightarrow> k * 13 div 128 = k div (10 :: nat)"
proof -
  assume k: "k < 65"
  define a b where "a = k div 10" and "b = k mod 10"
  then have e: "k = 10 * a + b" "b < 10" by simp_all
  then have "a < 6 \<or> a = 6 \<and> b < 5" using k by linarith
  note e = e this
  then have "k * 13 = 128 * a + (2 * a + 13 * b)" "2 * a + 13 * b < 128" by auto
  then show ?thesis using a_def by simp
qed

lemma word_div10: "k < 400 \<Longrightarrow> drop_bit 11 (of_nat k * 0xcd :: u32) = of_nat (k div 10)"
proof -
  assume k: "k < 400"
  have "unat (of_nat k * 0xcd :: u32) = k * 205" using k by (simp add: unat_word_ariths unat_of_nat)
  moreover have "unat (drop_bit 11 (of_nat k * 0xcd :: u32)) = drop_bit 11 (unat (of_nat k * 0xcd :: u32))" by (rule unat_drop_bit_eq)
  moreover have "drop_bit 11 (k * 205) = k * 205 div 2 ^ 11" by (rule drop_bit_eq_div)
  ultimately have "unat (drop_bit 11 (of_nat k * 0xcd :: u32)) = k div 10" using div10 [OF k] by simp
  then show ?thesis by (rule unat_eq_of_nat)
qed

lemma word_div10': "k < 65 \<Longrightarrow> drop_bit 7 (of_nat k * 0xd :: u32) = of_nat (k div 10)"
proof -
  assume k: "k < 65"
  have "unat (of_nat k * 0xd :: u32) = k * 13" using k by (simp add: unat_word_ariths unat_of_nat)
  moreover have "unat (drop_bit 7 (of_nat k * 0xd :: u32)) = drop_bit 7 (unat (of_nat k * 0xd :: u32))" by (rule unat_drop_bit_eq)
  moreover have "drop_bit 7 (k * 13) = k * 13 div 2 ^ 7" by (rule drop_bit_eq_div)
  ultimately have "unat (drop_bit 7 (of_nat k * 0xd :: u32)) = k div 10" using div10' [OF k] by simp
  then show ?thesis by (rule unat_eq_of_nat)
qed

lemma word_mod10: "(of_nat k - 10 * of_nat (k div 10) :: u32) = of_nat (k mod 10)"
proof -
  have "(of_nat k :: u32) = of_nat (10 * (k div 10) + k mod 10)" by simp
  then show ?thesis by (simp only: of_nat_add of_nat_mult) simp
qed

lemma word_digit: "d < 10 \<Longrightarrow> ucast (of_nat d + 0x30 :: u32) = digit d"
proof -
  assume d: "d < 10"
  have "(of_nat d + 0x30 :: u32) = of_nat (48 + d)" by simp
  moreover have "(ucast (of_nat (48 + d) :: u32) :: u8) = of_nat (48 + d)"
    using d by (simp only: word_unat_eq_iff unsigned_ucast_eq unat_of_nat) (simp add: take_bit_eq_mod)
  ultimately show ?thesis by (simp only: digit_def)
qed

text \<open>The sixteenths of a number below 100000, and how the digits come from them.\<close>

lemma sixteenths:
  assumes "unat (q :: u32) = n"
  shows "drop_bit 4 q AND 0xf = of_nat (n div 16 mod 16)" "drop_bit 8 q AND 0xf = of_nat (n div 256 mod 16)"
    "drop_bit 12 q = of_nat (n div 4096)" "q AND 0xf = of_nat (n mod 16)"
proof -
  have d: "unat (drop_bit k q) = n div 2 ^ k" for k
  proof -
    have "unat (drop_bit k q) = drop_bit k (unat q)" by (rule unat_drop_bit_eq)
    also have "\<dots> = n div 2 ^ k" unfolding assms by (rule drop_bit_eq_div)
    finally show ?thesis .
  qed
  have a: "unat (x AND 0xf) = unat x mod 16" for x :: u32 using and_15 [of "unat x"] by (simp add: unsigned_and_eq)
  show "drop_bit 4 q AND 0xf = of_nat (n div 16 mod 16)" by (rule unat_eq_of_nat) (simp only: a d, simp)
  show "drop_bit 8 q AND 0xf = of_nat (n div 256 mod 16)" by (rule unat_eq_of_nat) (simp only: a d, simp)
  show "drop_bit 12 q = of_nat (n div 4096)" by (rule unat_eq_of_nat) (simp only: d, simp)
  show "q AND 0xf = of_nat (n mod 16)" by (rule unat_eq_of_nat) (simp only: a assms)
qed

lemma tens: "(n :: nat) = 10 * a + b \<Longrightarrow> b mod 10 = n mod 10" "(n :: nat) = 10 * a + b \<Longrightarrow> n div 10 = a + b div 10"
  by simp_all

lemma digits_from_sixteenths:
  assumes n: "n < (100000 :: nat)" and e: "e0 = n mod 16" "e1 = n div 16 mod 16" "e2 = n div 256 mod 16" "e3 = n div 4096"
    and N: "N0 = 6 * (e3 + e2 + e1) + e0" "N1 = N0 div 10 + 9 * e3 + 5 * e2 + e1" "N2 = N1 div 10 + 2 * e2" "N3 = N2 div 10 + 4 * e3"
  shows "N0 < 400" "N0 mod 10 = n mod 10" "N1 < 400" "N1 mod 10 = n div 10 mod 10" "N1 \<noteq> 0 \<longleftrightarrow> 10 \<le> n"
    "N2 < 65" "N2 mod 10 = n div 100 mod 10" "N2 \<noteq> 0 \<or> e3 \<noteq> 0 \<longleftrightarrow> 100 \<le> n" "N3 < 400" "N3 = n div 1000" "N3 div 10 = n div 10000"
proof -
  have b: "e0 < 16" "e1 < 16" "e2 < 16" "e3 < 25" using n e by auto
  have "n div 256 = n div 16 div 16" "n div 4096 = n div 16 div 16 div 16" 
    using div_mult2_eq [of n 16 16] div_mult2_eq [of n 256 16] by simp_all
  then have "n = 16 * (n div 16) + e0" "n div 16 = 16 * (n div 16 div 16) + e1" "n div 16 div 16 = 16 * e3 + e2"
    unfolding e by (simp_all only: mult_div_mod_eq)
  then have s: "n = 4096 * e3 + 256 * e2 + 16 * e1 + e0" by linarith
  show "N0 < 400" using b unfolding N(1) by simp
  have n0: "n = 10 * (409 * e3 + 25 * e2 + e1) + N0" unfolding s N(1) by simp
  show "N0 mod 10 = n mod 10" by (rule tens(1) [OF n0])
  have n1: "n div 10 = 10 * (40 * e3 + 2 * e2) + N1" unfolding tens(2) [OF n0] N(2) by simp
  show "N1 mod 10 = n div 10 mod 10" by (rule tens(1) [OF n1])
  have c0: "N0 div 10 < 40" using \<open>N0 < 400\<close> by simp
  then show "N1 < 400" using b unfolding N(2) by simp
  show "N1 \<noteq> 0 \<longleftrightarrow> 10 \<le> n" using n1 N(2) n0 by auto
  have "n div 100 = n div 10 div 10" using div_mult2_eq [of n 10 10] by simp
  then have n2: "n div 100 = 10 * (4 * e3) + N2" unfolding tens(2) [OF n1] N(3) by simp
  show "N2 mod 10 = n div 100 mod 10" by (rule tens(1) [OF n2])
  have "N0 div 10 \<le> 33" "N1 div 10 \<le> 34" using b \<open>N0 < 400\<close> c0 unfolding N(1,2) by simp_all
  then show "N2 < 65" using b unfolding N(3) by simp
  show "N2 \<noteq> 0 \<or> e3 \<noteq> 0 \<longleftrightarrow> 100 \<le> n" using n2 by auto
  have "n div 1000 = n div 100 div 10" using div_mult2_eq [of n 100 10] by simp
  then show n3: "N3 = n div 1000" unfolding tens(2) [OF n2] N(4) by simp
  then show "N3 < 400" using n by simp
  show "N3 div 10 = n div 10000" using div_mult2_eq [of n 1000 10] n3 by simp
qed

text \<open>The two routines with plain digits in the place of the multiplications and shifts.\<close>

lemma of_nat_small_0: "k < 400 \<Longrightarrow> (of_nat k :: u32) = 0 \<longleftrightarrow> k = 0"
  by (auto simp: word_unat_eq_iff unat_of_nat)

lemma put_dec_digits:
  assumes n: "unat q = n" "n < 100000"
  shows "put_dec_trunc buf q m = do {
      m \<leftarrow> store_byte buf (digit (n mod 10)) m;
      if 10 \<le> n then do {
        m \<leftarrow> store_byte (buf + 1) (digit (n div 10 mod 10)) m;
        if 100 \<le> n then do {
          m \<leftarrow> store_byte (buf + 1 + 1) (digit (n div 100 mod 10)) m;
          if n div 1000 \<noteq> 0 then do {
            m \<leftarrow> store_byte (buf + 1 + 1 + 1) (digit (n div 1000 mod 10)) m;
            if n div 10000 \<noteq> 0 then do {
              m \<leftarrow> store_byte (buf + 1 + 1 + 1 + 1) (digit (n div 10000)) m;
              Some (buf + 1 + 1 + 1 + 1 + 1, m) }
            else Some (buf + 1 + 1 + 1 + 1, m) }
          else Some (buf + 1 + 1 + 1, m) }
        else Some (buf + 1 + 1, m) }
      else Some (buf + 1, m) }"
    and "put_dec_full buf q m = do {
      m \<leftarrow> store_byte buf (digit (n mod 10)) m;
      m \<leftarrow> store_byte (buf + 1) (digit (n div 10 mod 10)) m;
      m \<leftarrow> store_byte (buf + 1 + 1) (digit (n div 100 mod 10)) m;
      m \<leftarrow> store_byte (buf + 1 + 1 + 1) (digit (n div 1000 mod 10)) m;
      m \<leftarrow> store_byte (buf + 1 + 1 + 1 + 1) (digit (n div 10000)) m;
      Some (buf + 1 + 1 + 1 + 1 + 1, m) }"
proof -
  define e0 e1 e2 e3 where e: "e0 = n mod 16" "e1 = n div 16 mod 16" "e2 = n div 256 mod 16" "e3 = n div 4096"
  define N0 where N0: "N0 = 6 * (e3 + e2 + e1) + e0"
  define N1 where N1: "N1 = N0 div 10 + 9 * e3 + 5 * e2 + e1"
  define N2 where N2: "N2 = N1 div 10 + 2 * e2"
  define N3 where N3: "N3 = N2 div 10 + 4 * e3"
  note D = digits_from_sixteenths [OF n(2) e N0 N1 N2 N3]
  have w0: "6 * (of_nat e3 + of_nat e2 + of_nat e1) + of_nat e0 = (of_nat N0 :: u32)" unfolding N0 by simp
  have w1: "of_nat (N0 div 10) + 9 * of_nat e3 + 5 * of_nat e2 + of_nat e1 = (of_nat N1 :: u32)" unfolding N1 by simp
  have w2: "of_nat (N1 div 10) + 2 * of_nat e2 = (of_nat N2 :: u32)" unfolding N2 by simp
  have w3: "of_nat (N2 div 10) + 4 * of_nat e3 = (of_nat N3 :: u32)" unfolding N3 by simp
  have "e3 < 400" "N3 div 10 < 400" "N2 < 400" "N3 div 10 < 10" using n(2) D(9,11) D(6) e(4) by simp_all
  note S = sixteenths [OF n(1), folded e] and Z = of_nat_small_0 [OF D(3)] of_nat_small_0 [OF \<open>N2 < 400\<close>] of_nat_small_0 [OF \<open>e3 < 400\<close>]
    of_nat_small_0 [OF D(9)] of_nat_small_0 [OF \<open>N3 div 10 < 400\<close>]
  note R = Let_def S w0 w1 w2 w3 word_div10 [OF D(1)] word_div10 [OF D(3)] word_div10' [OF D(6)] word_div10 [OF D(9)] word_mod10
    word_digit [OF mod_less_divisor [OF zero_less_numeral]] word_digit [OF \<open>N3 div 10 < 10\<close>]
  have z: "(N1 \<noteq> 0) = (10 \<le> n)" "(N2 \<noteq> 0 \<or> e3 \<noteq> 0) = (100 \<le> n)" by (rule D(5), rule D(8))
  have t: "N0 mod 10 = n mod 10" "N1 mod 10 = n div 10 mod 10" "N2 mod 10 = n div 100 mod 10" "n div 1000 = N3" "n div 10000 = N3 div 10"
    by (rule D(2), rule D(4), rule D(7), rule D(10) [symmetric], rule D(11) [symmetric])
  show "put_dec_trunc buf q m = do {
      m \<leftarrow> store_byte buf (digit (n mod 10)) m;
      if 10 \<le> n then do {
        m \<leftarrow> store_byte (buf + 1) (digit (n div 10 mod 10)) m;
        if 100 \<le> n then do {
          m \<leftarrow> store_byte (buf + 1 + 1) (digit (n div 100 mod 10)) m;
          if n div 1000 \<noteq> 0 then do {
            m \<leftarrow> store_byte (buf + 1 + 1 + 1) (digit (n div 1000 mod 10)) m;
            if n div 10000 \<noteq> 0 then do {
              m \<leftarrow> store_byte (buf + 1 + 1 + 1 + 1) (digit (n div 10000)) m;
              Some (buf + 1 + 1 + 1 + 1 + 1, m) }
            else Some (buf + 1 + 1 + 1 + 1, m) }
          else Some (buf + 1 + 1 + 1, m) }
        else Some (buf + 1 + 1, m) }
      else Some (buf + 1, m) }" unfolding put_dec_trunc_def by (simp only: R Z z t)
  show "put_dec_full buf q m = do {
      m \<leftarrow> store_byte buf (digit (n mod 10)) m;
      m \<leftarrow> store_byte (buf + 1) (digit (n div 10 mod 10)) m;
      m \<leftarrow> store_byte (buf + 1 + 1) (digit (n div 100 mod 10)) m;
      m \<leftarrow> store_byte (buf + 1 + 1 + 1) (digit (n div 1000 mod 10)) m;
      m \<leftarrow> store_byte (buf + 1 + 1 + 1 + 1) (digit (n div 10000)) m;
      Some (buf + 1 + 1 + 1 + 1 + 1, m) }" unfolding put_dec_full_def by (simp only: R Z z t)
qed

lemma dec_cases:
  "n < 10 \<Longrightarrow> dec n = [digit (n mod 10)]"
  "10 \<le> n \<Longrightarrow> n < 100 \<Longrightarrow> dec n = [digit (n mod 10), digit (n div 10 mod 10)]"
  "100 \<le> n \<Longrightarrow> n < 1000 \<Longrightarrow> dec n = [digit (n mod 10), digit (n div 10 mod 10), digit (n div 100 mod 10)]"
  "1000 \<le> n \<Longrightarrow> n < 10000 \<Longrightarrow> dec n = [digit (n mod 10), digit (n div 10 mod 10), digit (n div 100 mod 10), digit (n div 1000 mod 10)]"
  "10000 \<le> n \<Longrightarrow> n < 100000 \<Longrightarrow> dec n = [digit (n mod 10), digit (n div 10 mod 10), digit (n div 100 mod 10), digit (n div 1000 mod 10), digit (n div 10000)]"
proof -
  have d: "k < 10 \<Longrightarrow> dec k = [digit (k mod 10)]" for k by (simp add: dec.simps)
  have s: "10 \<le> k \<Longrightarrow> dec k = digit (k mod 10) # dec (k div 10)" for k by (subst dec.simps) simp
  have v: "n div 10 div 10 = n div 100" "n div 100 div 10 = n div 1000" "n div 1000 div 10 = n div 10000"
    using div_mult2_eq [of n 10 10] div_mult2_eq [of n 100 10] div_mult2_eq [of n 1000 10] by simp_all
  show "n < 10 \<Longrightarrow> dec n = [digit (n mod 10)]" by (rule d)
  show "10 \<le> n \<Longrightarrow> n < 100 \<Longrightarrow> dec n = [digit (n mod 10), digit (n div 10 mod 10)]" by (simp add: s d)
  show "100 \<le> n \<Longrightarrow> n < 1000 \<Longrightarrow> dec n = [digit (n mod 10), digit (n div 10 mod 10), digit (n div 100 mod 10)]"
    by (simp add: s d v)
  show "1000 \<le> n \<Longrightarrow> n < 10000 \<Longrightarrow> dec n = [digit (n mod 10), digit (n div 10 mod 10), digit (n div 100 mod 10), digit (n div 1000 mod 10)]"
    by (simp add: s d v)
  show "10000 \<le> n \<Longrightarrow> n < 100000 \<Longrightarrow> dec n = [digit (n mod 10), digit (n div 10 mod 10), digit (n div 100 mod 10), digit (n div 1000 mod 10), digit (n div 10000)]"
    by (simp add: s d v)
qed

lemma put_dec_trunc_put:
  assumes n: "unat q = n" "n < 100000" and b: "blk buf (length (dec n)) \<subseteq> dom m"
  shows "put_dec_trunc buf q m = Some (buf + of_nat (length (dec n)), put m buf (dec n))"
proof -
  consider "n < 10" | "10 \<le> n" "n < 100" | "100 \<le> n" "n < 1000" | "1000 \<le> n" "n < 10000" | "10000 \<le> n" by linarith
  then show ?thesis
  proof cases
    case 1
    then show ?thesis using b unfolding put_dec_digits(1) [OF n] by (simp add: dec_cases store_byte_put)
  next
    case 2
    then show ?thesis using b unfolding put_dec_digits(1) [OF n] by (simp add: dec_cases store_byte_put add.assoc)
  next
    case 3
    then show ?thesis using b unfolding put_dec_digits(1) [OF n] by (simp add: dec_cases store_byte_put add.assoc)
  next
    case 4
    then show ?thesis using b unfolding put_dec_digits(1) [OF n] by (simp add: dec_cases store_byte_put add.assoc)
  next
    case 5
    then show ?thesis using b n(2) unfolding put_dec_digits(1) [OF n] by (simp add: dec_cases store_byte_put add.assoc div_greater_zero_iff)
  qed
qed

lemma put_dec_full_put:
  assumes n: "unat q = n" "n < 100000" and b: "blk buf 5 \<subseteq> dom m"
  shows "put_dec_full buf q m = Some (buf + 5, put m buf (dec_full 5 n))"
proof -
  have v: "n div 10 div 10 = n div 100" "n div 100 div 10 = n div 1000" "n div 1000 div 10 = n div 10000"
    using div_mult2_eq [of n 10 10] div_mult2_eq [of n 100 10] div_mult2_eq [of n 1000 10] by simp_all
  have five: "(5 :: nat) = Suc (Suc (Suc (Suc (Suc 0))))" by simp
  have "n div 10000 mod 10 = n div 10000" using n(2) by simp
  then show ?thesis using b unfolding put_dec_digits(2) [OF n] five by (simp add: v store_byte_put add.assoc)
qed

lemma length_dec_full [simp]: "length (dec_full k n) = k"
  by (induction k arbitrary: n) simp_all

lemma put_dec_put:
  assumes "unat (num :: u64) = n" "blk buf (length (dec n)) \<subseteq> dom m"
  shows "put_dec buf num m = Some (buf + of_nat (length (dec n)), put m buf (dec n))"
  using assms
proof (induction n arbitrary: num buf m rule: less_induct)
  case (less n)
  show ?case
  proof (cases "n < 100000")
    case True
    then have "num < 100000" using less.prems(1) by (simp add: word_less_nat_alt)
    moreover have "unat (ucast num :: u32) = n" using True less.prems(1) by (simp add: unsigned_ucast_eq take_bit_eq_mod)
    ultimately show ?thesis using put_dec_trunc_put [OF _ True less.prems(2)] by (subst put_dec.simps) simp
  next
    case False
    let ?r = "n mod 100000" and ?k = "n div 100000"
    have g: "\<not> num < 100000" using False less.prems(1) by (simp add: word_less_nat_alt)
    have d: "dec n = dec_full 5 ?r @ dec ?k" using dec_split [of 5 n] False by simp
    have k: "unat (num div 100000) = ?k" "unat (num mod 100000) = ?r" using less.prems(1) by (simp_all add: unat_div unat_mod)
    have r: "unat (ucast (num mod 100000) :: u32) = ?r" using k(2) by (simp add: unsigned_ucast_eq take_bit_eq_mod)
    have b: "blk buf 5 \<subseteq> dom m" "blk (buf + 5) (length (dec ?k)) \<subseteq> dom m"
      using less.prems(2) unfolding d by (simp_all add: blk_add)
    have f: "put_dec_full buf (ucast (num mod 100000)) m = Some (buf + 5, put m buf (dec_full 5 ?r))"
      by (rule put_dec_full_put [OF r _ b(1)]) simp
    have "dom (put m buf (dec_full 5 ?r)) = dom m" using b(1) by (intro dom_put) simp
    with b(2) have "put_dec (buf + 5) (num div 100000) (put m buf (dec_full 5 ?r)) =
        Some (buf + 5 + of_nat (length (dec ?k)), put (put m buf (dec_full 5 ?r)) (buf + 5) (dec ?k))"
      using False by (intro less.IH k(1)) simp_all
    then show ?thesis using g f unfolding d by (subst put_dec.simps) (simp add: put_append add.assoc)
  qed
qed

section \<open>Reading digits\<close>

definition value_of :: "u32 \<Rightarrow> u8 list \<Rightarrow> u64 \<Rightarrow> u64" where
  "value_of base xs r = foldl (\<lambda>r c. r * ucast base + ucast (digit_value c)) r xs"

abbreviation digits_of :: "u32 \<Rightarrow> u8 list \<Rightarrow> u8 list" where
  "digits_of base xs \<equiv> takeWhile (\<lambda>c. isxdigit c \<and> digit_value c < base) xs"

lemma isxdigit_NUL: "\<not> isxdigit 0"
  by (simp add: isxdigit_def ismask_def ctype_def class_defs)

lemma strtoull_loop_cstr: "cstr m s xs \<Longrightarrow>
  simple_strtoull_loop s base r m = Some (value_of base (digits_of base xs) r, s + of_nat (length (digits_of base xs)))"
proof (induction xs arbitrary: s r)
  case Nil
  then show ?case by (subst simple_strtoull_loop.simps) (simp add: isxdigit_NUL value_of_def)
next
  case (Cons x xs)
  then show ?case by (subst simple_strtoull_loop.simps) (auto simp: value_of_def Let_def add.assoc not_le)
qed

lemma strtoull_cstr: "cstr m s xs \<Longrightarrow> base \<noteq> 0 \<Longrightarrow> base \<noteq> 16 \<Longrightarrow>
  simple_strtoull s base m = Some (value_of base (digits_of base xs) 0, s + of_nat (length (digits_of base xs)))"
  by (simp add: simple_strtoull_def strtoull_loop_cstr)

section \<open>There and back\<close>

lemma digit_facts: "d < 10 \<Longrightarrow> isxdigit (digit d) \<and> digit_value (digit d) = of_nat d \<and> digit d \<noteq> 0 \<and> digit d \<noteq> 0x2d \<and> digit d \<noteq> 0x0a"
proof -
  assume "d < 10"
  then have "d \<in> {0, 1, 2, 3, 4, 5, 6, 7, 8, 9}" by auto
  then show ?thesis
    by (elim insertE emptyE) (simp_all add: digit_def digit_value_def isxdigit_def isdigit_def ismask_def ctype_def class_defs)
qed

lemma dec_digits: "c \<in> set (dec n) \<Longrightarrow> \<exists>d<10. c = digit d"
proof (induction n rule: dec.induct)
  case (1 n)
  have "c = digit (n mod 10) \<or> \<not> n < 10 \<and> c \<in> set (dec (n div 10))" using 1(2) by (subst (asm) dec.simps) (auto split: if_splits)
  moreover have "n mod 10 < 10" by simp
  ultimately show ?case using 1(1) by blast
qed

lemma dec_not_Nil: "dec n \<noteq> []"
  by (simp add: dec.simps [of n])

lemma length_dec: "n < 10 ^ Suc k \<Longrightarrow> length (dec n) \<le> Suc k"
proof (induction k arbitrary: n)
  case 0
  then show ?case by (simp add: dec.simps [of n])
next
  case (Suc k)
  then have "n div 10 < 10 ^ Suc k" by (simp add: less_mult_imp_div_less)
  from Suc.IH [OF this] show ?case by (simp add: dec.simps [of n])
qed

lemma value_of_snoc: "value_of base (xs @ [c]) r = value_of base xs r * ucast base + ucast (digit_value c)"
  by (simp add: value_of_def)

lemma value_of_dec: "value_of 10 (rev (dec n)) 0 = of_nat n"
proof (induction n rule: dec.induct)
  case (1 n)
  have u: "ucast (of_nat d :: u32) = (of_nat d :: u64)" if "d < 10" for d
    using that by (simp only: word_unat_eq_iff unsigned_ucast_eq unat_of_nat) (simp add: take_bit_eq_mod)
  show ?case
  proof (cases "n < 10")
    case True
    then show ?thesis using digit_facts [OF True] u [OF True] by (simp add: dec.simps [of n] value_of_def)
  next
    case False
    have m: "n mod 10 < 10" by simp
    have "value_of 10 (rev (dec n)) 0 = of_nat (n div 10) * 10 + of_nat (n mod 10)"
      using False 1 digit_facts [OF m] u [OF m] by (subst dec.simps) (simp add: value_of_snoc)
    also have "\<dots> = of_nat (n div 10 * 10 + n mod 10)" by (simp only: of_nat_add of_nat_mult of_nat_numeral)
    also have "n div 10 * 10 + n mod 10 = n" by (rule div_mult_mod_eq)
    finally show ?thesis .
  qed
qed

lemma digits_of_dec:
  assumes "ys = [] \<or> \<not> isxdigit (hd ys)"
  shows "digits_of 10 (rev (dec n) @ ys) = rev (dec n)"
proof -
  have c: "isxdigit c \<and> digit_value c < 10" if "c \<in> set (rev (dec n))" for c
  proof -
    from that dec_digits obtain d where d: "d < 10" "c = digit d" by auto
    have "unat (of_nat d :: u32) = d" using d(1) by (simp add: unat_of_nat)
    then show ?thesis using d digit_facts [OF d(1)] by (simp add: word_less_nat_alt)
  qed
  have "digits_of 10 ys = []" using assms by (cases ys) auto
  then show ?thesis using c by (subst takeWhile_append2) auto
qed

lemma strtoull_dec:
  assumes "cstr m s (rev (dec n) @ ys)" "ys = [] \<or> \<not> isxdigit (hd ys)"
  shows "simple_strtoull s 10 m = Some (of_nat n, s + of_nat (length (dec n)))"
  using strtoull_cstr [OF assms(1), of 10] digits_of_dec [OF assms(2)] value_of_dec by simp



end
