(* ===== verification/Iosched_Tunables.thy ===== *)
theory Iosched_Tunables
  imports Elevator_Spec Vsprintf_Dec
begin

text \<open>
  The tunables of the schedulers: the routines behind a write to an attribute of a queue.  The text comes from the page that sysfs fills, a string
  in a byte memory; the number in it is limited to a range and stored in the data of the scheduler, times as jiffies.
\<close>

section \<open>Milliseconds\<close>

definition LONG_MAX :: u32 where "LONG_MAX = drop_bit 1 (- 1)"

definition MAX_JIFFY_OFFSET :: u32 where "MAX_JIFFY_OFFSET = drop_bit 1 LONG_MAX - 1"

definition MSEC_PER_SEC :: u32 where "MSEC_PER_SEC = 1000"

definition msecs_to_jiffies :: "u32 \<Rightarrow> u32" where
  "msecs_to_jiffies m =
     (if sint m < 0 then MAX_JIFFY_OFFSET else (m + MSEC_PER_SEC div HZ - 1) div (MSEC_PER_SEC div HZ))"

section \<open>Storing a number\<close>

definition INT_MIN :: u32 where "INT_MIN = - INT_MAX - 1"

text \<open>The limits and the conversion of \<open>STORE_FUNCTION\<close>, the same macro in the three files; \<open>int\<close> comparisons are signed.\<close>

definition STORE_FUNCTION :: "u32 \<Rightarrow> u32 \<Rightarrow> bool \<Rightarrow> u32 \<Rightarrow> u32" where
  "STORE_FUNCTION lo hi conv data =
     (let data = (if sint data < sint lo then lo else if sint data > sint hi then hi else data)
      in if conv then msecs_to_jiffies data else data)"

definition sio_var_store :: "addr \<Rightarrow> u32 \<Rightarrow> mem \<Rightarrow> (u32 \<times> u32) option" where
  "sio_var_store page cnt m = do { (var, _) \<leftarrow> simple_strtol page 10 m; Some (var, cnt) }"

definition sio_sync_expire_store :: "addr \<Rightarrow> u32 \<Rightarrow> mem \<Rightarrow> sio_data \<Rightarrow> (u32 \<times> sio_data) option" where
  "sio_sync_expire_store page cnt m sd = do {
     (data, ret) \<leftarrow> sio_var_store page cnt m;
     Some (ret, sd\<lparr>sd_fifo_expire := (sd_fifo_expire sd)(SYNC := STORE_FUNCTION 0 INT_MAX True data)\<rparr>) }"

definition sio_async_expire_store :: "addr \<Rightarrow> u32 \<Rightarrow> mem \<Rightarrow> sio_data \<Rightarrow> (u32 \<times> sio_data) option" where
  "sio_async_expire_store page cnt m sd = do {
     (data, ret) \<leftarrow> sio_var_store page cnt m;
     Some (ret, sd\<lparr>sd_fifo_expire := (sd_fifo_expire sd)(ASYNC := STORE_FUNCTION 0 INT_MAX True data)\<rparr>) }"

definition sio_fifo_batch_store :: "addr \<Rightarrow> u32 \<Rightarrow> mem \<Rightarrow> sio_data \<Rightarrow> (u32 \<times> sio_data) option" where
  "sio_fifo_batch_store page cnt m sd = do {
     (data, ret) \<leftarrow> sio_var_store page cnt m;
     Some (ret, sd\<lparr>sd_fifo_batch := STORE_FUNCTION 0 INT_MAX False data\<rparr>) }"

definition deadline_var_store :: "addr \<Rightarrow> u32 \<Rightarrow> mem \<Rightarrow> (u32 \<times> u32) option" where
  "deadline_var_store page cnt m = do { (var, _) \<leftarrow> simple_strtol page 10 m; Some (var, cnt) }"

definition deadline_read_expire_store :: "addr \<Rightarrow> u32 \<Rightarrow> mem \<Rightarrow> deadline_data \<Rightarrow> (u32 \<times> deadline_data) option" where
  "deadline_read_expire_store page cnt m dd = do {
     (data, ret) \<leftarrow> deadline_var_store page cnt m;
     Some (ret, dd\<lparr>dd_fifo_expire := (dd_fifo_expire dd)(READ := STORE_FUNCTION 0 INT_MAX True data)\<rparr>) }"

definition deadline_write_expire_store :: "addr \<Rightarrow> u32 \<Rightarrow> mem \<Rightarrow> deadline_data \<Rightarrow> (u32 \<times> deadline_data) option" where
  "deadline_write_expire_store page cnt m dd = do {
     (data, ret) \<leftarrow> deadline_var_store page cnt m;
     Some (ret, dd\<lparr>dd_fifo_expire := (dd_fifo_expire dd)(WRITE := STORE_FUNCTION 0 INT_MAX True data)\<rparr>) }"

definition deadline_writes_starved_store :: "addr \<Rightarrow> u32 \<Rightarrow> mem \<Rightarrow> deadline_data \<Rightarrow> (u32 \<times> deadline_data) option" where
  "deadline_writes_starved_store page cnt m dd = do {
     (data, ret) \<leftarrow> deadline_var_store page cnt m;
     Some (ret, dd\<lparr>dd_writes_starved := STORE_FUNCTION INT_MIN INT_MAX False data\<rparr>) }"

definition deadline_front_merges_store :: "addr \<Rightarrow> u32 \<Rightarrow> mem \<Rightarrow> deadline_data \<Rightarrow> (u32 \<times> deadline_data) option" where
  "deadline_front_merges_store page cnt m dd = do {
     (data, ret) \<leftarrow> deadline_var_store page cnt m;
     Some (ret, dd\<lparr>dd_front_merges := STORE_FUNCTION 0 1 False data\<rparr>) }"

definition deadline_fifo_batch_store :: "addr \<Rightarrow> u32 \<Rightarrow> mem \<Rightarrow> deadline_data \<Rightarrow> (u32 \<times> deadline_data) option" where
  "deadline_fifo_batch_store page cnt m dd = do {
     (data, ret) \<leftarrow> deadline_var_store page cnt m;
     Some (ret, dd\<lparr>dd_fifo_batch := STORE_FUNCTION 0 INT_MAX False data\<rparr>) }"

definition vr_var_store :: "addr \<Rightarrow> u32 \<Rightarrow> mem \<Rightarrow> (u32 \<times> u32) option" where
  "vr_var_store page cnt m = do { (var, _) \<leftarrow> simple_strtol page 10 m; Some (var, cnt) }"

definition vr_sync_expire_store :: "addr \<Rightarrow> u32 \<Rightarrow> mem \<Rightarrow> vr_data \<Rightarrow> (u32 \<times> vr_data) option" where
  "vr_sync_expire_store page cnt m vd = do {
     (data, ret) \<leftarrow> vr_var_store page cnt m;
     Some (ret, vd\<lparr>vd_fifo_expire := (vd_fifo_expire vd)(SYNC := STORE_FUNCTION 0 INT_MAX True data)\<rparr>) }"

definition vr_async_expire_store :: "addr \<Rightarrow> u32 \<Rightarrow> mem \<Rightarrow> vr_data \<Rightarrow> (u32 \<times> vr_data) option" where
  "vr_async_expire_store page cnt m vd = do {
     (data, ret) \<leftarrow> vr_var_store page cnt m;
     Some (ret, vd\<lparr>vd_fifo_expire := (vd_fifo_expire vd)(ASYNC := STORE_FUNCTION 0 INT_MAX True data)\<rparr>) }"

definition vr_fifo_batch_store :: "addr \<Rightarrow> u32 \<Rightarrow> mem \<Rightarrow> vr_data \<Rightarrow> (u32 \<times> vr_data) option" where
  "vr_fifo_batch_store page cnt m vd = do {
     (data, ret) \<leftarrow> vr_var_store page cnt m;
     Some (ret, vd\<lparr>vd_fifo_batch := STORE_FUNCTION 0 INT_MAX False data\<rparr>) }"

definition vr_rev_penalty_store :: "addr \<Rightarrow> u32 \<Rightarrow> mem \<Rightarrow> vr_data \<Rightarrow> (u32 \<times> vr_data) option" where
  "vr_rev_penalty_store page cnt m vd = do {
     (data, ret) \<leftarrow> vr_var_store page cnt m;
     Some (ret, vd\<lparr>vd_rev_penalty := STORE_FUNCTION 0 INT_MAX False data\<rparr>) }"

lemmas sio_store_defs = sio_var_store_def sio_sync_expire_store_def sio_async_expire_store_def sio_fifo_batch_store_def

lemmas deadline_store_defs = deadline_var_store_def deadline_read_expire_store_def deadline_write_expire_store_def
  deadline_writes_starved_store_def deadline_front_merges_store_def deadline_fifo_batch_store_def

lemmas vr_store_defs = vr_var_store_def vr_sync_expire_store_def vr_async_expire_store_def vr_fifo_batch_store_def vr_rev_penalty_store_def

section \<open>Limits\<close>

lemma sint_range: "- (2 ^ 31) \<le> sint (x :: u32)" "sint x < 2 ^ 31"
  using sint_greater_eq [of x] sint_less [of x] by simp_all

lemma msecs_to_jiffies_id: "0 \<le> sint m \<Longrightarrow> msecs_to_jiffies m = m"
  by (simp add: msecs_to_jiffies_def MSEC_PER_SEC_def HZ_def)

text \<open>A value limited from zero to \<open>INT_MAX\<close>, as milliseconds or not, is the number, or zero for a negative one.\<close>

lemma STORE_FUNCTION_INT_MAX: "STORE_FUNCTION 0 INT_MAX conv x = (if sint x < 0 then 0 else x)"
  using sint_range [of x] by (simp add: STORE_FUNCTION_def msecs_to_jiffies_id INT_MAX_def)

lemma STORE_FUNCTION_0_1: "STORE_FUNCTION 0 1 False x = (if sint x \<le> 0 then 0 else 1)"
proof -
  have "x = 0" if "sint x = 0" using that by (simp add: signed_word_eqI)
  moreover have "x = 1" if "sint x = 1" using that by (simp add: signed_word_eqI)
  ultimately show ?thesis by (auto simp: STORE_FUNCTION_def)
qed

lemma STORE_FUNCTION_any: "STORE_FUNCTION INT_MIN INT_MAX False x = x"
  using sint_range [of x] by (simp add: STORE_FUNCTION_def INT_MIN_def INT_MAX_def)

lemma nonneg_uint: "0 \<le> sint (x :: u32) \<Longrightarrow> uint x = sint x"
  using sint_range [of x] by (simp add: uint_sint take_bit_int_eq_self)

lemma nonneg_range: "(if sint x < 0 then 0 else x) \<le> INT_MAX"
  using sint_range [of x] nonneg_uint [of x] by (simp add: INT_MAX_def word_le_def)

lemma not_yet_after: "v \<le> INT_MAX \<Longrightarrow> \<not> time_after j (j + v)"
proof -
  assume "v \<le> INT_MAX"
  then have "uint v < 2 ^ 31" by (simp add: INT_MAX_def word_le_def)
  then have "sint v = uint v" unfolding sint_uint by (intro signed_take_bit_int_eq_self) (simp_all add: order_trans [OF _ uint_ge_0])
  then show ?thesis by (simp add: time_after_def)
qed

section \<open>The number in the page\<close>

definition number :: "u8 list \<Rightarrow> u32" where
  "number xs = (if xs \<noteq> [] \<and> hd xs = 0x2d then - ucast (value_of 10 (digits_of 10 (tl xs)) 0)
                else ucast (value_of 10 (digits_of 10 xs) 0))"

lemma strtol_cstr: "cstr m s xs \<Longrightarrow> \<exists>e. simple_strtol s 10 m = Some (number xs, e)"
proof (cases "xs \<noteq> [] \<and> hd xs = 0x2d")
  case True
  assume c: "cstr m s xs"
  with True obtain ys where "xs = 0x2d # ys" "m s = Some 0x2d" "cstr m (s + 1) ys" by (cases xs) auto
  then show ?thesis using strtoull_cstr [of m "s + 1" ys 10] by (simp add: simple_strtol_def simple_strtoul_def number_def)
next
  case False
  assume c: "cstr m s xs"
  with False obtain a where "m s = Some a" "a \<noteq> 0x2d" by (cases xs) auto
  then show ?thesis using strtoull_cstr [OF c, of 10] False by (auto simp: simple_strtol_def simple_strtoul_def number_def)
qed

text \<open>What a user writes: the decimal digits of a number and a newline, with a sign or without.\<close>

definition line :: "nat \<Rightarrow> u8 list" where "line n = rev (dec n) @ [0x0a]"

lemma digits_line: "ucast (value_of 10 (digits_of 10 (line n)) 0) = (of_nat n :: u32)"
proof -
  have "\<not> isxdigit 0x0a" by (simp add: isxdigit_def ismask_def ctype_def class_defs)
  then have "digits_of 10 (line n) = rev (dec n)" unfolding line_def by (intro digits_of_dec) simp
  moreover have "ucast (of_nat n :: u64) = (of_nat n :: u32)"
    by (simp only: word_unat_eq_iff unsigned_ucast_eq unat_of_nat take_bit_eq_mod) (simp add: mod_mod_cancel)
  ultimately show ?thesis by (simp add: value_of_dec)
qed

lemma hd_line: "line n \<noteq> [] \<and> hd (line n) \<noteq> 0x2d"
proof -
  have "hd (line n) \<in> set (dec n)" using dec_not_Nil [of n] by (simp add: line_def hd_append hd_rev)
  then obtain d where "d < 10" "hd (line n) = digit d" using dec_digits by blast
  then show ?thesis using digit_facts [of d] by (simp add: line_def)
qed

lemma number_line: "number (line n) = of_nat n" "number (0x2d # line n) = - of_nat n"
  using hd_line [of n] digits_line [of n] by (simp_all add: number_def)

lemma sint_of_int_u32: "- (2 ^ 31) \<le> i \<Longrightarrow> i < 2 ^ 31 \<Longrightarrow> sint (of_int i :: u32) = i"
  by (simp add: signed_of_int signed_take_bit_int_eq_self)

lemma sint_of_nat_u32: "n < 2 ^ 31 \<Longrightarrow> sint (of_nat n :: u32) = int n"
  using sint_of_int_u32 [of "int n"] by simp

lemma sint_minus_of_nat_u32: "n \<le> 2 ^ 31 \<Longrightarrow> sint (- of_nat n :: u32) = - int n"
  using sint_of_int_u32 [of "- int n"] by simp

section \<open>The invariants do not depend on the tunables\<close>

lemma held_tune:
  assumes "held sinv q X S w R" "sinv d (q_nodes q) (q_reqs q) S w R = sinv (elevator_data q) (q_nodes q) (q_reqs q) S w R"
  shows "held sinv (q\<lparr>elevator_data := d\<rparr>) X S w R"
  using assms by (simp add: held_def queue_rep_def)

lemma sio_inv_tune [simp]:
  "sio_inv (d\<lparr>sd_fifo_batch := v\<rparr>) = sio_inv d" "sio_inv (d\<lparr>sd_fifo_expire := f\<rparr>) = sio_inv d"
  by (simp_all add: fun_eq_iff sio_inv_def)

lemma deadline_inv_tune [simp]:
  "deadline_inv (d\<lparr>dd_fifo_batch := v\<rparr>) = deadline_inv d" "deadline_inv (d\<lparr>dd_fifo_expire := f\<rparr>) = deadline_inv d"
  "deadline_inv (d\<lparr>dd_writes_starved := v\<rparr>) = deadline_inv d" "deadline_inv (d\<lparr>dd_front_merges := v\<rparr>) = deadline_inv d"
  by (simp_all add: fun_eq_iff deadline_inv_def deadline_lists_def deadline_trees_def)

lemma vr_inv_tune [simp]:
  "vr_inv (d\<lparr>vd_fifo_batch := v\<rparr>) = vr_inv d" "vr_inv (d\<lparr>vd_fifo_expire := f\<rparr>) = vr_inv d"
  "vr_inv (d\<lparr>vd_rev_penalty := v\<rparr>) = vr_inv d"
  by (simp_all add: fun_eq_iff vr_inv_def vr_lists_def vr_tree_def vr_near_def)

section \<open>Writing a tunable\<close>


definition tuning_page :: mem where
  "tuning_page = (\<lambda>_. Some 0)(0x1000 := Some 0x31, 0x1001 := Some 0x36, 0x1002 := Some 0x0a)"

lemma line_16: "line 16 = [0x31, 0x36, 0x0a]"
  by (simp add: line_def dec.simps [of 16] dec.simps [of "Suc 0"] digit_def)

lemma tuning_page_line: "cstr tuning_page 0x1000 (line 16)"
  by (simp add: line_16 tuning_page_def)


text \<open>
  C24: the same for the deadline scheduler, whose front merges can only be switched on and off and whose \<open>writes_starved\<close> takes every number.
\<close>

theorem deadline_tunable_stored:
  assumes "cstr m page xs" "held deadline_inv q X S w R"
  shows "\<exists>v u b. v \<le> INT_MAX \<and> b \<in> {0, 1} \<and> (\<forall>n < 2 ^ 31. xs = line n \<longrightarrow> v = of_nat n \<and> u = v \<and> (b = 0 \<longleftrightarrow> n = 0)) \<and>
    (\<forall>n \<le> 2 ^ 31. xs = 0x2d # line n \<longrightarrow> v = 0 \<and> u = - of_nat n \<and> b = 0) \<and>
    (let d = elevator_data q;
         d1 = d\<lparr>dd_fifo_expire := (dd_fifo_expire d)(READ := v)\<rparr>;
         d2 = d\<lparr>dd_fifo_expire := (dd_fifo_expire d)(WRITE := v)\<rparr>;
         d3 = d\<lparr>dd_writes_starved := u\<rparr>;
         d4 = d\<lparr>dd_front_merges := b\<rparr>;
         d5 = d\<lparr>dd_fifo_batch := v\<rparr>
     in deadline_read_expire_store page cnt m d = Some (cnt, d1) \<and> deadline_write_expire_store page cnt m d = Some (cnt, d2) \<and>
        deadline_writes_starved_store page cnt m d = Some (cnt, d3) \<and> deadline_front_merges_store page cnt m d = Some (cnt, d4) \<and>
        deadline_fifo_batch_store page cnt m d = Some (cnt, d5) \<and>
        (\<forall>d' \<in> {d1, d2, d3, d4, d5}. held deadline_inv (q\<lparr>elevator_data := d'\<rparr>) X S w R))"
proof -
  define v where "v = (if sint (number xs) < 0 then 0 else number xs)"
  define b :: u32 where "b = (if sint (number xs) \<le> 0 then 0 else 1)"
  have "v \<le> INT_MAX" unfolding v_def by (rule nonneg_range)
  moreover have "b \<in> {0, 1}" by (simp add: b_def)
  moreover have "v = of_nat n \<and> number xs = v \<and> (b = 0 \<longleftrightarrow> n = 0)" if "n < 2 ^ 31" "xs = line n" for n
    using that sint_of_nat_u32 [of n] by (simp add: v_def b_def number_line)
  moreover have "v = 0 \<and> number xs = - of_nat n \<and> b = 0" if "n \<le> 2 ^ 31" "xs = 0x2d # line n" for n
    using that sint_minus_of_nat_u32 [of n] by (simp add: v_def b_def number_line)
  moreover from strtol_cstr [OF assms(1)] obtain e where e: "simple_strtol page 10 m = Some (number xs, e)" by blast
  moreover have "held deadline_inv (q\<lparr>elevator_data := d'\<rparr>) X S w R" if "deadline_inv d' = deadline_inv (elevator_data q)" for d'
    using that by (intro held_tune [OF assms(2)]) simp
  ultimately show ?thesis
    by (intro exI [of _ v] exI [of _ "number xs"] exI [of _ b])
      (simp add: Let_def deadline_store_defs STORE_FUNCTION_INT_MAX STORE_FUNCTION_0_1 STORE_FUNCTION_any flip: v_def b_def)
qed

theorem deadline_tunable_stored_witness:
  "\<exists>q S w d. held deadline_inv q {0x4000} S w {0x4000} \<and> deadline_front_merges_store 0x1000 3 tuning_page (elevator_data q) = Some (3, d) \<and>
     dd_front_merges d = 1 \<and> held deadline_inv (q\<lparr>elevator_data := d\<rparr>) {0x4000} S w {0x4000}"
proof -
  from deadline_stock obtain q S w where h: "held deadline_inv q {0x4000} S w {0x4000}" by (auto simp: sched_rep_def)
  let ?d = "(elevator_data q)\<lparr>dd_front_merges := 1\<rparr>"
  from deadline_tunable_stored [OF tuning_page_line h, of 3] obtain v u b :: u32 where b: "b \<in> {0, 1}" and
    n: "\<forall>n < 2 ^ 31. line 16 = line n \<longrightarrow> v = of_nat n \<and> u = v \<and> (b = 0 \<longleftrightarrow> n = 0)" and
    v: "deadline_front_merges_store 0x1000 3 tuning_page (elevator_data q) = Some (3, (elevator_data q)\<lparr>dd_front_merges := b\<rparr>)"
      "held deadline_inv (q\<lparr>elevator_data := (elevator_data q)\<lparr>dd_front_merges := b\<rparr>\<rparr>) {0x4000} S w {0x4000}"
    by (simp only: Let_def ball_simps) (elim exE conjE, rule that, assumption+)
  have "b = 1" using b n [rule_format, of 16] by simp
  with v have "deadline_front_merges_store 0x1000 3 tuning_page (elevator_data q) = Some (3, ?d)"
    "held deadline_inv (q\<lparr>elevator_data := ?d\<rparr>) {0x4000} S w {0x4000}" by simp_all
  moreover have "dd_front_merges ?d = 1" by simp
  ultimately show ?thesis using h by blast
qed

text \<open>The V(R) scheduler likewise; a penalty of zero is read as \<open>INT_MAX\<close> when requests are compared.\<close>

lemma vr_tunable_stored:
  assumes "cstr m page xs" "held vr_inv q X S w R"
  shows "\<exists>v. v \<le> INT_MAX \<and> (\<forall>n < 2 ^ 31. xs = line n \<longrightarrow> v = of_nat n) \<and>
    (let d = elevator_data q;
         d1 = d\<lparr>vd_fifo_expire := (vd_fifo_expire d)(SYNC := v)\<rparr>;
         d2 = d\<lparr>vd_fifo_expire := (vd_fifo_expire d)(ASYNC := v)\<rparr>;
         d3 = d\<lparr>vd_fifo_batch := v\<rparr>;
         d4 = d\<lparr>vd_rev_penalty := v\<rparr>
     in vr_sync_expire_store page cnt m d = Some (cnt, d1) \<and> vr_async_expire_store page cnt m d = Some (cnt, d2) \<and>
        vr_fifo_batch_store page cnt m d = Some (cnt, d3) \<and> vr_rev_penalty_store page cnt m d = Some (cnt, d4) \<and>
        (\<forall>d' \<in> {d1, d2, d3, d4}. held vr_inv (q\<lparr>elevator_data := d'\<rparr>) X S w R))"
proof -
  define v where "v = (if sint (number xs) < 0 then 0 else number xs)"
  have "v \<le> INT_MAX" unfolding v_def by (rule nonneg_range)
  moreover have "v = of_nat n" if "n < 2 ^ 31" "xs = line n" for n
    using that sint_of_nat_u32 [of n] by (simp add: v_def number_line)
  moreover from strtol_cstr [OF assms(1)] obtain e where e: "simple_strtol page 10 m = Some (number xs, e)" by blast
  moreover have "held vr_inv (q\<lparr>elevator_data := d'\<rparr>) X S w R" if "vr_inv d' = vr_inv (elevator_data q)" for d'
    using that by (intro held_tune [OF assms(2)]) simp
  ultimately show ?thesis
    by (intro exI [of _ v]) (simp add: Let_def vr_store_defs STORE_FUNCTION_INT_MAX flip: v_def)
qed

end
