(* ===== verification/Strings_Spec.thy ===== *)
theory Strings_Spec
  imports Strings_Write
begin

text \<open>The properties of the string routines.\<close>

lemma span_all: "span P xs = length xs \<longleftrightarrow> (\<forall>x\<in>set xs. P x)"
  by (induction xs) auto

text \<open>Memory for the examples: every byte is mapped.\<close>

definition page :: mem where "page = (\<lambda>_. Some 0)"

lemma dom_page [simp]: "dom page = UNIV" "a \<in> dom page" "page a = Some 0"
  by (auto simp: page_def)

lemma blk_numeral [simp]: "blk a (numeral k) = insert a (blk (a + 1) (pred_numeral k))"
  by (simp add: numeral_eq_Suc)

lemma unat_u32: "unat (n :: u32) < 2 ^ 32"
  using unsigned_less [of n] by simp

text \<open>
  C28: \<open>strcmp\<close> and \<open>strncmp\<close> compare strings in lexicographic order of unsigned characters: the result is zero just for equal
  strings, minus one when the first comes before the second and one otherwise; \<open>strncmp\<close> compares the first \<open>n\<close> characters.
\<close>

theorem strcmp_order:
  assumes "cstr m s xs" "cstr m t ys"
  shows "strcmp s t m = Some (if xs = ys then 0 else if ord_class.lexordp xs ys then - 1 else 1) \<and>
    strncmp s t n m = Some (order (take (unat n) xs) (take (unat n) ys))"
  using strcmp_cstr [OF assms] strncmp_cstr [OF assms] by (simp add: order_def)

theorem strcmp_order_witness:
  "strcmp 0x100 0x200 (put (put page 0x100 [0x61, 0x62]) 0x200 [0x61, 0xe4]) = Some (- 1) \<and>
   strncmp 0x100 0x200 1 (put (put page 0x100 [0x61, 0x62]) 0x200 [0x61, 0xe4]) = Some 0"
  using strcmp_order [of "put (put page 0x100 [0x61, 0x62]) 0x200 [0x61, 0xe4]" "0x100" "[0x61, 0x62]" "0x200" "[0x61, 0xe4]" 1]
  by simp

text \<open>
  C35: the comparisons that ignore case agree in sign with the lexicographic order of the strings with every letter lowered;
  \<open>strnicmp\<close> looks at the first \<open>n\<close> characters only and finds all strings equal for \<open>n = 0\<close>.
\<close>

theorem casecmp_order:
  assumes "cstr m s xs" "cstr m t ys"
  shows "\<exists>r q. strcasecmp s t m = Some r \<and> sgn r = order (map tolower xs) (map tolower ys) \<and>
    strnicmp s t n m = Some q \<and> sgn q = order (map tolower (take (unat n) xs)) (map tolower (take (unat n) ys))"
  using strcasecmp_cstr [OF assms] strnicmp_loop_cstr [OF assms, of n] by (cases "n = 0") (auto simp: strnicmp_def)

theorem casecmp_order_witness:
  "\<exists>r q. strcasecmp 0x100 0x200 (put (put page 0x100 [0x61, 0x62]) 0x200 [0x41, 0x42]) = Some r \<and> sgn r = 0 \<and>
   strnicmp 0x100 0x200 0 (put (put page 0x100 [0x61, 0x62]) 0x200 [0x41, 0x42]) = Some q \<and> sgn q = 0"
  using casecmp_order [of "put (put page 0x100 [0x61, 0x62]) 0x200 [0x41, 0x42]" "0x100" "[0x61, 0x62]" "0x200" "[0x41, 0x42]" 0]
  by (simp add: tolower_def isupper_def ismask_def ctype_def class_defs)

text \<open>
  C36: \<open>strncasecmp\<close> with a bound of zero compares the whole strings: the bound is decremented before it is tested and wraps
  around.  For a positive bound it compares as many characters as it should.
\<close>

theorem strncasecmp_zero:
  assumes "cstr m s xs" "cstr m t ys"
  shows "\<exists>r. strncasecmp s t n m = Some r \<and> sgn r = (if n = 0 then order (map tolower xs) (map tolower ys)
    else order (map tolower (take (unat n) xs)) (map tolower (take (unat n) ys)))"
proof (cases "n = 0")
  case True
  have "unat (- 1 :: u32) = 2 ^ 32 - 1" by (simp add: unsigned_minus_1_eq_mask mask_eq_exp_minus_1)
  moreover have "length xs < 2 ^ 32" "length ys < 2 ^ 32" using cstr_length assms by blast+
  ultimately show ?thesis using strncasecmp_cstr [OF assms, of n] True by simp
next
  case False
  then have "Suc (unat (n - 1)) = unat n" using unat_dec [of n] by (cases "unat n") (auto simp: word_unat_eq_iff)
  then show ?thesis using strncasecmp_cstr [OF assms, of n] False by simp
qed

theorem strncasecmp_zero_witness:
  "\<exists>r. strncasecmp 0x100 0x200 0 (put (put page 0x100 [0x61]) 0x200 [0x62]) = Some r \<and> sgn r = - 1"
  using strncasecmp_zero [of "put (put page 0x100 [0x61]) 0x200 [0x62]" "0x100" "[0x61]" "0x200" "[0x62]" 0]
  by (simp add: tolower_def isupper_def ismask_def ctype_def class_defs)

text \<open>
  C37: \<open>strlen\<close> counts the characters before the terminator, which are always fewer than \<open>2 ^ 32\<close>, and \<open>strnlen\<close> never counts
  nor reads more than its bound.
\<close>

theorem strlen_bounds:
  assumes "cstr m s xs"
  shows "strlen s m = Some (of_nat (length xs)) \<and> unat (of_nat (length xs) :: u32) = length xs \<and>
    strnlen s n m = Some (of_nat (min (length xs) (unat n))) \<and>
    strnlen s n (m |` blk s (unat n)) = Some (of_nat (min (length xs) (unat n)))"
proof -
  have l: "length xs < 2 ^ 32" by (rule cstr_length [OF assms])
  have "strnlen_loop s n (m |` B) = strnlen_loop s n m" if "blk s (unat n) \<subseteq> B" for B
    using assms that
  proof (induction xs arbitrary: s n)
    case Nil
    then show ?case by (cases "unat n"; subst (1 2) strnlen_loop.simps) (auto simp: word_unat_eq_iff)
  next
    case (Cons x xs)
    show ?case
    proof (cases "n = 0")
      case False
      then have "unat n = Suc (unat (n - 1))" using unat_dec [of n] by (cases "unat n") (auto simp: word_unat_eq_iff)
      then have "blk (s + 1) (unat (n - 1)) \<subseteq> B" "s \<in> B" using Cons.prems(2) by auto
      then show ?thesis using Cons False by (subst (1 2) strnlen_loop.simps) simp
    qed (subst (1 2) strnlen_loop.simps, simp)
  qed
  then have "strnlen s n (m |` blk s (unat n)) = strnlen s n m" by (simp add: strnlen_def)
  then show ?thesis using strlen_cstr [OF assms] strnlen_loop_cstr [OF assms, of n] l by (simp add: strnlen_def unat_of_nat)
qed

theorem strlen_bounds_witness:
  "strlen 0x100 (put page 0x100 [0x61, 0x62, 0x63]) = Some 3 \<and>
   strnlen 0x100 2 (put page 0x100 [0x61, 0x62, 0x63] |` blk 0x100 2) = Some 2"
  using strlen_bounds [of "put page 0x100 [0x61, 0x62, 0x63]" "0x100" "[0x61, 0x62, 0x63]" 2]
  by simp

text \<open>
  C27: a string that \<open>strcpy\<close> has copied is there: the destination holds the string, the source still does, comparing them finds
  no difference, and no byte outside the destination changes.
\<close>

theorem strcpy_roundtrip:
  assumes "cstr m src xs" "blk dest (Suc (length xs)) \<subseteq> dom m" "blk dest (Suc (length xs)) \<inter> blk src (Suc (length xs)) = {}"
  shows "\<exists>m'. strcpy dest src m = Some (dest, m') \<and> cstr m' dest xs \<and> cstr m' src xs \<and> strcmp dest src m' = Some 0 \<and>
    strlen dest m' = strlen src m \<and> (\<forall>a. a \<notin> blk dest (Suc (length xs)) \<longrightarrow> m' a = m a)"
proof (intro exI conjI)
  let ?m = "put m dest (xs @ [0])"
  show "strcpy dest src m = Some (dest, ?m)" using strcpy_loop_cstr [OF assms] by (simp add: strcpy_def)
  show d: "cstr ?m dest xs" using assms(1) by (intro cstr_put cstr_length [OF assms(1)]) (simp add: cstr_def)
  show s: "cstr ?m src xs" using assms(1,3) by (subst cstr_frame) (auto simp: Int_commute)
  show "strcmp dest src ?m = Some 0" using strcmp_cstr [OF d s] by (simp add: order_def)
  show "strlen dest ?m = strlen src m" using strlen_cstr [OF d] strlen_cstr [OF assms(1)] by simp
  show "\<forall>a. a \<notin> blk dest (Suc (length xs)) \<longrightarrow> ?m a = m a" using put_other [of _ dest "xs @ [0]" m] by simp
qed

theorem strcpy_roundtrip_witness:
  "\<exists>m'. strcpy 0x200 0x100 (put page 0x100 [0x61, 0x62]) = Some (0x200, m') \<and> cstr m' 0x200 [0x61, 0x62]"
  using strcpy_roundtrip [of "put page 0x100 [0x61, 0x62]" "0x100" "[0x61, 0x62]" "0x200"] by auto

text \<open>
  C32: \<open>strncpy\<close> writes exactly \<open>n\<close> bytes: the string, cut off if it is too long and then without a terminator, padded with zeros
  if it is shorter.
\<close>

theorem strncpy_padded:
  assumes "cstr m src xs" "blk dest (unat n) \<subseteq> dom m" "blk dest (unat n) \<inter> blk src (Suc (length xs)) = {}"
  shows "\<exists>m'. strncpy dest src n m = Some (dest, m') \<and> bytes m' dest (take (unat n) (xs @ replicate (unat n) 0)) \<and>
    cstr m' src xs \<and> (\<forall>a. a \<notin> blk dest (unat n) \<longrightarrow> m' a = m a)"
proof (intro exI conjI)
  let ?ys = "take (unat n) xs @ replicate (unat n - length xs) 0" and ?m = "put m dest (take (unat n) xs @ replicate (unat n - length xs) 0)"
  have l: "length ?ys = unat n" by simp
  have u: "unat n \<le> 2 ^ 32" using unat_u32 [of n] by (rule less_imp_le)
  show "strncpy dest src n m = Some (dest, ?m)" using strncpy_loop_cstr [OF assms] by (simp add: strncpy_def)
  have "bytes ?m dest ?ys" using u l by (intro put_bytes) simp
  then show "bytes ?m dest (take (unat n) (xs @ replicate (unat n) 0))" by simp
  show "cstr ?m src xs" using assms(1,3) l by (subst cstr_frame) simp_all
  show "\<forall>a. a \<notin> blk dest (unat n) \<longrightarrow> ?m a = m a" using put_other [of _ dest ?ys m] l by simp
qed

theorem strncpy_padded_witness:
  "\<exists>m'. strncpy 0x200 0x100 3 (put page 0x100 [0x61, 0x62]) = Some (0x200, m') \<and> bytes m' 0x200 [0x61, 0x62, 0]"
  using strncpy_padded [of "put page 0x100 [0x61, 0x62]" "0x100" "[0x61, 0x62]" "0x200" 3] by auto

lemma cstr_append_put:
  assumes c: "cstr m dest ys" and us: "0 \<notin> set us" "length ys + length us < 2 ^ 32"
  shows "cstr (put m (dest + of_nat (length ys)) (us @ [0])) dest (ys @ us)"
proof -
  let ?p = "dest + of_nat (length ys)"
  have "blk ?p (length (us @ [0])) \<inter> blk dest (length ys) = {}"
  proof (rule ccontr)
    assume "blk ?p (length (us @ [0])) \<inter> blk dest (length ys) \<noteq> {}"
    then obtain i j where ij: "i < Suc (length us)" "j < length ys" "?p + of_nat i = dest + of_nat j" by (auto simp: blk_def)
    then have "unat (of_nat (length ys + i) :: u32) = unat (of_nat j :: u32)" by (simp add: add.assoc)
    then show False using ij us(2) by (simp add: unat_of_nat del: of_nat_add)
  qed
  then have "bytes (put m ?p (us @ [0])) dest ys" using put_frame [of ?p "us @ [0]" dest ys m] c by (simp add: cstr_def bytes_append)
  moreover have "cstr (put m ?p (us @ [0])) ?p us" using us by (intro cstr_put) auto
  ultimately show ?thesis using c by (simp add: cstr_append) (simp add: cstr_def)
qed

text \<open>
  C33: \<open>strcat\<close> appends the string and \<open>strncat\<close> at most \<open>n\<close> characters of it; both leave a terminated string and write only
  behind the end of the first string.
\<close>

theorem strcat_append:
  assumes "cstr m dest ys" "cstr m src xs" "n \<noteq> 0" "blk (dest + of_nat (length ys)) (Suc (length xs)) \<subseteq> dom m"
    "blk dest (Suc (length ys + length xs)) \<inter> blk src (Suc (length xs)) = {}" "length ys + length xs < 2 ^ 32"
  shows "\<exists>m' m''. strcat dest src m = Some (dest, m') \<and> cstr m' dest (ys @ xs) \<and> cstr m' src xs \<and>
    strncat dest src n m = Some (dest, m'') \<and> cstr m'' dest (ys @ take (unat n) xs) \<and> cstr m'' src xs"
proof -
  let ?p = "dest + of_nat (length ys)" and ?zs = "take (unat n) xs"
  let ?m' = "put m ?p (xs @ [0])" and ?m'' = "put m ?p (?zs @ [0])"
  have b: "blk dest (Suc (length ys + length xs)) = blk dest (length ys) \<union> blk ?p (Suc (length xs))"
    using blk_add [of dest "length ys" "Suc (length xs)"] by simp
  then have d: "blk ?p (Suc (length xs)) \<inter> blk src (Suc (length xs)) = {}" using assms(5) by blast
  have sub: "blk ?p (Suc (min (length xs) (unat n))) \<subseteq> blk ?p (Suc (length xs))" by (rule blk_mono) simp
  have keep: "cstr (put m ?p (us @ [0])) dest (ys @ us) \<and> cstr (put m ?p (us @ [0])) src xs"
    if us: "length us \<le> length xs" "0 \<notin> set us" for us
  proof
    show "cstr (put m ?p (us @ [0])) dest (ys @ us)" using us assms(6) by (intro cstr_append_put [OF assms(1)]) auto
    have "blk ?p (length (us @ [0])) \<subseteq> blk ?p (Suc (length xs))" using us(1) by (intro blk_mono) simp
    then show "cstr (put m ?p (us @ [0])) src xs" using d assms(2) by (subst cstr_frame) (auto simp del: blk_Suc)
  qed
  have x: "0 \<notin> set xs" "0 \<notin> set ?zs" using assms(2) by (auto simp: cstr_def dest: in_set_takeD)
  have "strcat dest src m = Some (dest, ?m')"
    using string_end_cstr [OF assms(1)] strcpy_loop_cstr [OF assms(2,4) d] by (simp add: strcat_def)
  moreover have "strncat_loop ?p src n m = Some ?m''"
    using sub assms(4) d by (intro strncat_loop_cstr [OF assms(2,3)]) blast+
  then have "strncat dest src n m = Some (dest, ?m'')" using string_end_cstr [OF assms(1)] assms(3) by (simp add: strncat_def)
  ultimately show ?thesis using keep [OF _ x(1)] keep [OF _ x(2)] by auto
qed

theorem strcat_append_witness:
  "\<exists>m' m''. strcat 0x200 0x100 (put (put page 0x100 [0x62, 0x63]) 0x200 [0x61]) = Some (0x200, m') \<and> cstr m' 0x200 [0x61, 0x62, 0x63] \<and>
   strncat 0x200 0x100 1 (put (put page 0x100 [0x62, 0x63]) 0x200 [0x61]) = Some (0x200, m'') \<and> cstr m'' 0x200 [0x61, 0x62]"
  using strcat_append [of "put (put page 0x100 [0x62, 0x63]) 0x200 [0x61]" "0x200" "[0x61]" "0x100" "[0x62, 0x63]" 1] by auto

text \<open>
  C25: \<open>strlcpy\<close> returns the length of the source and leaves a terminated string that fits into the buffer, the source or as much
  of it as there is room for; nothing outside the buffer changes, and a buffer of size zero is not touched.
\<close>

theorem strlcpy_bounded:
  assumes "cstr m src xs" "copyable m dest src (min (length xs) (unat sz - 1))" "blk dest (unat sz) \<subseteq> dom m"
    "blk dest (unat sz) \<inter> blk src (Suc (length xs)) = {}"
  shows "\<exists>m'. strlcpy regs dest src sz m = Some (of_nat (length xs), m') \<and> (\<forall>a. a \<notin> blk dest (unat sz) \<longrightarrow> m' a = m a) \<and>
    (if sz = 0 then m' = m else cstr m' dest (take (unat sz - 1) xs))"
proof (cases "sz = 0")
  case True
  then show ?thesis using strlen_cstr [OF assms(1)] by (simp add: strlcpy_def)
next
  case False
  let ?n = "if of_nat (length xs) \<ge> sz then sz - 1 else of_nat (length xs)" and ?ys = "take (unat sz - 1) xs"
  have l: "unat (of_nat (length xs) :: u32) = length xs" using cstr_length [OF assms(1)] by (rule of_nat_unat_length)
  have s0: "0 < unat sz" using False by (simp add: word_unat_eq_iff)
  have n: "unat ?n = min (length xs) (unat sz - 1)" using l s0 unat_dec [OF False] by (auto simp: word_le_nat_alt)
  have le: "Suc (unat ?n) \<le> unat sz" using n s0 by simp
  have b: "blk dest (Suc (unat ?n)) \<subseteq> blk dest (unat sz)" by (rule blk_mono [OF le])
  have t: "take (unat ?n) xs = ?ys" unfolding n by (simp add: min_def)
  have "do { (u, m) \<leftarrow> memcpy regs dest src ?n m; store_byte (dest + ?n) 0 m } = Some (put m dest (?ys @ [0]))"
    unfolding t [symmetric] using assms b n by (intro memcpy_terminated) auto
  then have "strlcpy regs dest src sz m = Some (of_nat (length xs), put m dest (?ys @ [0]))"
    using strlen_cstr [OF assms(1)] False by (simp add: strlcpy_def Let_def case_prod_unfold bind_eq_Some_conv)
  moreover have "cstr (put m dest (?ys @ [0])) dest ?ys"
    using assms(1) cstr_length [OF assms(1)] by (intro cstr_put) (auto simp: cstr_def dest: in_set_takeD)
  moreover have "length (?ys @ [0]) = Suc (unat ?n)" using n by simp
  then have "put m dest (?ys @ [0]) a = m a" if "a \<notin> blk dest (unat sz)" for a using that b by (intro put_other) (auto simp del: blk_Suc)
  ultimately show ?thesis using False by auto
qed

theorem strlcpy_bounded_witness:
  "\<exists>m'. strlcpy \<lparr>srcp = 0, dstp = 0, len = 0, a0 = 7, a1 = 7, a2 = 7, a3 = 7, cmem = page\<rparr> 0x200 0x100 3 (put page 0x100 [0x61, 0x62, 0x63]) =
     Some (3, m') \<and> cstr m' 0x200 [0x61, 0x62]"
  using strlcpy_bounded [of "put page 0x100 [0x61, 0x62, 0x63]" "0x100" "[0x61, 0x62, 0x63]" "0x200" 3
      "\<lparr>srcp = 0, dstp = 0, len = 0, a0 = 7, a1 = 7, a2 = 7, a3 = 7, cmem = page\<rparr>"]
  by (auto simp: copyable_def)

text \<open>
  C26: \<open>strlcat\<close> stops the machine when the buffer has no terminated string shorter than its size.  Otherwise it appends what
  fits, leaves a terminated string and returns the length that the whole result would have.
\<close>

theorem strlcat_bug:
  assumes "cstr m dest ys" "cstr m src xs" "copyable m (dest + of_nat (length ys)) src (min (length xs) (unat n - length ys - 1))"
    "blk (dest + of_nat (length ys)) (unat n - length ys) \<subseteq> dom m"
    "blk (dest + of_nat (length ys)) (unat n - length ys) \<inter> blk src (Suc (length xs)) = {}"
  shows "if unat n \<le> length ys then strlcat regs dest src n m = None
    else \<exists>m'. strlcat regs dest src n m = Some (of_nat (length ys + length xs), m') \<and> cstr m' dest (ys @ take (unat n - length ys - 1) xs)"
proof -
  have l: "unat (of_nat (length xs) :: u32) = length xs" "unat (of_nat (length ys) :: u32) = length ys"
    by (rule of_nat_unat_length, rule cstr_length [OF assms(2)], rule of_nat_unat_length, rule cstr_length [OF assms(1)])
  note L = strlen_cstr [OF assms(1)] strlen_cstr [OF assms(2)]
  show ?thesis
  proof (cases "unat n \<le> length ys")
    case True
    then have "n \<le> of_nat (length ys)" using l by (simp add: word_le_nat_alt)
    then show ?thesis using True L by (simp add: strlcat_def)
  next
    case False
    let ?p = "dest + of_nat (length ys)" and ?k = "n - of_nat (length ys)" and ?zs = "take (unat n - length ys - 1) xs"
    have k: "unat ?k = unat n - length ys" using False l by (simp add: unat_sub word_le_nat_alt)
    then have k0: "?k \<noteq> 0" using False by (auto simp: word_unat_eq_iff)
    let ?n = "if of_nat (length xs) \<ge> ?k then ?k - 1 else of_nat (length xs)"
    have n: "unat ?n = min (length xs) (unat n - length ys - 1)" using l k False unat_dec [OF k0] by (auto simp: word_le_nat_alt)
    have b: "blk ?p (Suc (unat ?n)) \<subseteq> blk ?p (unat n - length ys)" using n False by (intro blk_mono) simp
    have t: "take (unat ?n) xs = ?zs" unfolding n by (simp add: min_def)
    have "do { (u, m) \<leftarrow> memcpy regs ?p src ?n m; store_byte (?p + ?n) 0 m } = Some (put m ?p (?zs @ [0]))"
      unfolding t [symmetric] using assms b n by (intro memcpy_terminated) auto
    moreover have "\<not> n \<le> of_nat (length ys)" using False l by (simp add: word_le_nat_alt)
    ultimately have "strlcat regs dest src n m = Some (of_nat (length ys + length xs), put m ?p (?zs @ [0]))"
      using L by (simp add: strlcat_def Let_def case_prod_unfold bind_eq_Some_conv)
    moreover have "cstr (put m ?p (?zs @ [0])) dest (ys @ ?zs)"
      using assms(2) False unat_u32 [of n] by (intro cstr_append_put [OF assms(1)]) (auto simp: cstr_def dest: in_set_takeD)
    ultimately show ?thesis using False by auto
  qed
qed

theorem strlcat_bug_witness:
  "strlcat \<lparr>srcp = 0, dstp = 0, len = 0, a0 = 7, a1 = 7, a2 = 7, a3 = 7, cmem = page\<rparr> 0x200 0x100 1
     (put (put page 0x100 [0x62, 0x63]) 0x200 [0x61]) = None"
  using strlcat_bug [of "put (put page 0x100 [0x62, 0x63]) 0x200 [0x61]" "0x200" "[0x61]" "0x100" "[0x62, 0x63]" 1
      "\<lparr>srcp = 0, dstp = 0, len = 0, a0 = 7, a1 = 7, a2 = 7, a3 = 7, cmem = page\<rparr>"]
  by (simp add: copyable_def)

text \<open>
  C34: \<open>strchr\<close> finds the first and \<open>strrchr\<close> the last occurrence of a character, the terminator included, and \<open>strnchr\<close> the first
  one among the first \<open>n\<close> characters, the terminator excluded; they return \<open>NULL\<close> when there is none.
\<close>

theorem strchr_first_last:
  assumes "cstr m s xs" "s \<noteq> NULL" "unat s + length xs < 2 ^ 32"
  shows "strchr s c m = Some (if ucast c \<in> set (xs @ [0]) then s + of_nat (span (\<lambda>x. x \<noteq> ucast c) (xs @ [0])) else NULL) \<and>
    strrchr s c m = Some (if ucast c \<in> set (xs @ [0]) then s + of_nat (length xs - span (\<lambda>x. x \<noteq> ucast c) (rev (xs @ [0]))) else NULL) \<and>
    strnchr s n c m = Some (if ucast c \<in> set (take (unat n) xs) then s + of_nat (span (\<lambda>x. x \<noteq> ucast c) xs) else NULL)"
proof (intro conjI)
  have "span (\<lambda>x. x \<noteq> ucast c) (xs @ [0]) = span (\<lambda>x. x \<noteq> ucast c) xs" if "ucast c \<in> set (xs @ [0])"
    using that span_all [of "\<lambda>x. x \<noteq> ucast c" xs] by (cases "ucast c \<in> set xs") (auto simp: takeWhile_append)
  then show "strchr s c m = Some (if ucast c \<in> set (xs @ [0]) then s + of_nat (span (\<lambda>x. x \<noteq> ucast c) (xs @ [0])) else NULL)"
    using strchr_cstr [OF assms(1), of c] by auto
  have "bytes m s (xs @ [0])" using assms(1) by (simp add: cstr_def)
  moreover have "0 < unat s" using assms(2) by (simp add: word_unat_eq_iff)
  ultimately have "strrchr_loop (s + of_nat (length (xs @ [0]) - 1)) s c m = Some (if ucast c \<in> set (xs @ [0]) then
      s + of_nat (length (xs @ [0]) - 1 - span (\<lambda>x. x \<noteq> ucast c) (rev (xs @ [0]))) else NULL)"
    using assms(3) by (intro strrchr_loop_cstr) simp_all
  then show "strrchr s c m = Some (if ucast c \<in> set (xs @ [0]) then s + of_nat (length xs - span (\<lambda>x. x \<noteq> ucast c) (rev (xs @ [0]))) else NULL)"
    using strlen_cstr [OF assms(1)] by (simp add: strrchr_def)
qed (rule strnchr_cstr [OF assms(1)])

theorem strchr_first_last_witness:
  "strchr 0x100 0x61 (put page 0x100 [0x62, 0x61, 0x61]) = Some 0x101 \<and> strrchr 0x100 0x61 (put page 0x100 [0x62, 0x61, 0x61]) = Some 0x102 \<and>
   strnchr 0x100 1 0x61 (put page 0x100 [0x62, 0x61, 0x61]) = Some NULL"
  using strchr_first_last [of "put page 0x100 [0x62, 0x61, 0x61]" "0x100" "[0x62, 0x61, 0x61]" "0x61" 1] by simp

text \<open>
  \<open>strspn\<close> is the length of the longest prefix with characters of the set only, \<open>strcspn\<close> of the longest one without them, and
  \<open>strpbrk\<close> returns \<open>NULL\<close> if that is the whole string and the place behind it otherwise.
\<close>

theorem strspn_span:
  assumes "cstr m s xs" "cstr m a ys"
  shows "strspn s a m = Some (of_nat (length (takeWhile (\<lambda>x. x \<in> set ys) xs))) \<and>
    (\<exists>n. strcspn s a m = Some n \<and> n = of_nat (length (takeWhile (\<lambda>x. x \<notin> set ys) xs)) \<and>
      strpbrk s a m = Some (if unat n = length xs then NULL else s + n))"
proof -
  have l: "length xs < 2 ^ 32" by (rule cstr_length [OF assms(1)])
  have le: "span (\<lambda>x. x \<notin> set ys) xs \<le> length xs" by (rule length_takeWhile_le)
  have "span (\<lambda>x. x \<notin> set ys) xs = length xs \<longleftrightarrow> set xs \<inter> set ys = {}" by (auto simp: span_all)
  moreover have "unat (of_nat (span (\<lambda>x. x \<notin> set ys) xs) :: u32) = span (\<lambda>x. x \<notin> set ys) xs" using l le by (simp add: unat_of_nat)
  ultimately show ?thesis using strspn_loop_cstr [OF assms, of 0] strcspn_loop_cstr [OF assms, of 0] strpbrk_cstr [OF assms]
    by (simp add: strspn_def strcspn_def)
qed

theorem strspn_span_witness:
  "strspn 0x100 0x200 (put (put page 0x100 [0x61, 0x61, 0x62]) 0x200 [0x61]) = Some 2"
  using strspn_span [of "put (put page 0x100 [0x61, 0x61, 0x62]) 0x200 [0x61]" "0x100" "[0x61, 0x61, 0x62]" "0x200" "[0x61]"] by simp

text \<open>
  C29: \<open>strstr\<close> finds the first place where the second string occurs in the first one, and returns \<open>NULL\<close> just when it occurs
  nowhere.
\<close>

theorem strstr_first:
  assumes "cstr m s xs" "cstr m t ys"
  shows "\<exists>r. strstr s t m = Some r \<and> ((\<forall>i. \<not> occurs ys xs i) \<and> r = NULL \<or>
    (\<exists>i. occurs ys xs i \<and> (\<forall>j<i. \<not> occurs ys xs j) \<and> r = s + of_nat i))"
proof (cases "ys = []")
  case True
  then have "strstr s t m = Some s" using strlen_cstr [OF assms(2)] by (simp add: strstr_def)
  moreover have "occurs ys xs 0" using True by (simp add: occurs_def)
  ultimately show ?thesis by (intro exI [of _ s] conjI disjI2 exI [of _ 0]) simp_all
next
  case False
  have l: "unat (of_nat (length xs) :: u32) = length xs" "unat (of_nat (length ys) :: u32) = length ys"
    by (rule of_nat_unat_length, rule cstr_length [OF assms(1)], rule of_nat_unat_length, rule cstr_length [OF assms(2)])
  then have "(of_nat (length ys) :: u32) \<noteq> 0" using False by (metis length_0_conv unsigned_0)
  moreover have "bytes m s xs" "bytes m t ys" using assms by (auto simp: cstr_def bytes_append)
  ultimately show ?thesis using strstr_loop_bytes [of m s xs t ys "of_nat (length xs)" "of_nat (length ys)"] l False
      strlen_cstr [OF assms(1)] strlen_cstr [OF assms(2)] by (simp add: strstr_def)
qed

theorem strstr_first_witness:
  "\<exists>r. strstr 0x100 0x200 (put (put page 0x100 [0x61, 0x62, 0x62]) 0x200 [0x62]) = Some r \<and> r = 0x101"
proof -
  have o: "occurs [0x62] [0x61, 0x62, 0x62] i \<longleftrightarrow> i = 1 \<or> i = 2" for i
    by (cases i; cases "i - 1"; cases "i - 2") (auto simp: occurs_def)
  have c: "cstr (put (put page 0x100 [0x61, 0x62, 0x62]) 0x200 [0x62]) 0x100 [0x61, 0x62, 0x62]"
    "cstr (put (put page 0x100 [0x61, 0x62, 0x62]) 0x200 [0x62]) 0x200 [0x62]" by simp_all
  from strstr_first [OF c] obtain r where r: "strstr 0x100 0x200 (put (put page 0x100 [0x61, 0x62, 0x62]) 0x200 [0x62]) = Some r"
    "(\<forall>i. \<not> occurs [0x62] [0x61, 0x62, 0x62] i) \<or> (\<exists>i. occurs [0x62] [0x61, 0x62, 0x62] i \<and>
       (\<forall>j<i. \<not> occurs [0x62] [0x61, 0x62, 0x62] j) \<and> r = 0x100 + of_nat i)" by blast
  from r(2) obtain i where i: "i = 1 \<or> i = 2" "\<forall>j<i. \<not> (j = 1 \<or> j = 2)" "r = 0x100 + of_nat i" unfolding o by blast
  then have "i = 1" by (auto dest: spec [of _ 1])
  then show ?thesis using r(1) i(3) by simp
qed

text \<open>
  C31: \<open>strim\<close> returns the string without white space at both ends, in the memory of the old one.
\<close>

theorem strim_trims:
  assumes "cstr m s xs" "unat s + length xs < 2 ^ 32"
  shows "\<exists>r m'. strim s m = Some (r, m') \<and> r = s + of_nat (length (takeWhile isspace xs)) \<and>
    cstr m' r (rev (dropWhile isspace (rev (dropWhile isspace xs))))"
  using strim_cstr [OF assms] by (simp add: trim_def)

theorem strim_trims_witness:
  "\<exists>r m'. strim 0x100 (put page 0x100 [0x20, 0x61, 0x09, 0x62, 0x0a]) = Some (r, m') \<and> r = 0x101 \<and> cstr m' r [0x61, 0x09, 0x62]"
proof -
  have "isspace 0x20" "isspace 0x09" "isspace 0x0a" "\<not> isspace 0x61" "\<not> isspace 0x62"
    by (simp_all add: isspace_def ismask_def ctype_def class_defs)
  then show ?thesis using strim_trims [of "put page 0x100 [0x20, 0x61, 0x09, 0x62, 0x0a]" "0x100" "[0x20, 0x61, 0x09, 0x62, 0x0a]"] by simp
qed

text \<open>
  C30: \<open>strsep\<close> cuts the first token off: it ends the string at the first character of the set and leaves the pointer on the rest
  behind it, or \<open>NULL\<close> when no character of the set occurs.  Token, separator and rest together are the old string.
\<close>

theorem strsep_token:
  assumes "s \<noteq> NULL" "cstr m s xs" "cstr m ct ys" "unat s + length xs < 2 ^ 32"
  shows "\<exists>p m'. strsep s ct m = Some (s, p, m') \<and>
    (set xs \<inter> set ys = {} \<and> p = NULL \<and> m' = m \<or>
     (\<exists>as d bs. xs = as @ d # bs \<and> set as \<inter> set ys = {} \<and> d \<in> set ys \<and> p = s + of_nat (length as) + 1 \<and> cstr m' s as \<and> cstr m' p bs))"
  using strsep_cstr [OF assms] by (cases "set xs \<inter> set ys = {}") auto

theorem strsep_token_witness:
  "\<exists>m'. strsep 0x100 0x200 (put (put page 0x100 [0x61, 0x2c, 0x62]) 0x200 [0x2c]) = Some (0x100, 0x102, m') \<and>
     cstr m' 0x100 [0x61] \<and> cstr m' 0x102 [0x62]"
proof -
  let ?m = "put (put page 0x100 [0x61, 0x2c, 0x62]) 0x200 [0x2c]"
  have c: "(0x100 :: addr) \<noteq> NULL" "cstr ?m 0x100 [0x61, 0x2c, 0x62]" "cstr ?m 0x200 [0x2c]"
    "unat (0x100 :: addr) + length [0x61, 0x2c, 0x62 :: u8] < 2 ^ 32" by simp_all
  have n: "set [0x61, 0x2c, 0x62 :: u8] \<inter> set [0x2c] \<noteq> {}" by simp
  from strsep_token [OF c] n obtain p m' as d bs where r: "strsep 0x100 0x200 ?m = Some (0x100, p, m')"
    "[0x61, 0x2c, 0x62] = as @ d # bs" "set as \<inter> set [0x2c] = {}" "d \<in> set [0x2c]" "p = 0x100 + of_nat (length as) + 1"
    "cstr m' 0x100 as" "cstr m' p bs" by blast
  have "as = [0x61] \<and> bs = [0x62]" using r(2-4) by (auto simp: Cons_eq_append_conv)
  then show ?thesis using r by simp
qed

text \<open>
  C38: \<open>sysfs_streq\<close> holds just for equal strings and for strings of which one is the other with a newline at its end.
\<close>

theorem sysfs_streq_newline:
  assumes "cstr m s xs" "cstr m t ys"
  shows "sysfs_streq s t m = Some (xs = ys \<or> ys = xs @ [0x0a] \<or> xs = ys @ [0x0a])"
  by (rule sysfs_streq_cstr [OF assms])

theorem sysfs_streq_newline_witness:
  "sysfs_streq 0x100 0x200 (put (put page 0x100 [0x61, 0x0a]) 0x200 [0x61]) = Some True"
  using sysfs_streq_newline [of "put (put page 0x100 [0x61, 0x0a]) 0x200 [0x61]" "0x100" "[0x61, 0x0a]" "0x200" "[0x61]"] by simp

text \<open>
  \<open>memset\<close> fills a block and nothing else; in it, \<open>memcmp\<close> then finds no difference to a block of the same characters,
  and \<open>memchr\<close> and \<open>memscan\<close> find the character in front, or report that it is not there, the one with \<open>NULL\<close> and the other with
  the end of the block.
\<close>

theorem memset_block:
  assumes "blk s (unat n) \<subseteq> dom m" "bytes m t (replicate (unat n) (ucast c))" "blk s (unat n) \<inter> blk t (unat n) = {}"
  shows "\<exists>m'. memset s c n m = Some (s, m') \<and> memcmp s t n m' = Some 0 \<and> (\<forall>a. a \<notin> blk s (unat n) \<longrightarrow> m' a = m a) \<and>
    memchr s d n m' = Some (if n \<noteq> 0 \<and> (ucast d :: u8) = ucast c then s else NULL) \<and>
    memscan s d n m' = Some (if ucast (ucast c :: u8) = d then s else s + n)"
proof (intro exI conjI)
  let ?xs = "replicate (unat n) (ucast c)" and ?m = "put m s (replicate (unat n) (ucast c))"
  show "memset s c n m = Some (s, ?m)" using memset_loop_put [OF assms(1), of c] by (simp add: memset_def)
  have b: "bytes ?m s ?xs" using unat_u32 [of n] by (intro put_bytes) simp
  have "bytes ?m t ?xs" using assms(2,3) by (subst put_frame) simp_all
  from memcmp_eq [OF b this, of n] show "memcmp s t n ?m = Some 0" by auto
  show "\<forall>a. a \<notin> blk s (unat n) \<longrightarrow> ?m a = m a" using put_other [of _ s ?xs m] by simp
  have n: "unat n = 0 \<longleftrightarrow> n = 0" by (simp add: word_unat_eq_iff)
  show "memchr s d n ?m = Some (if n \<noteq> 0 \<and> (ucast d :: u8) = ucast c then s else NULL)"
    using memchr_bytes [OF b, of n d] n by (cases "unat n") auto
  show "memscan s d n ?m = Some (if ucast (ucast c :: u8) = d then s else s + n)"
    using memscan_bytes [OF b, of n d] by (auto simp: takeWhile_replicate)
qed

theorem memset_block_witness:
  "\<exists>m'. memset 0x100 0x61 2 (put page 0x200 [0x61, 0x61]) = Some (0x100, m') \<and> memchr 0x100 0x261 2 m' = Some 0x100"
proof -
  let ?m = "put page 0x200 [0x61, 0x61]"
  have "replicate 2 (0x61 :: u8) = [0x61, 0x61]" by (simp add: numeral_2_eq_2)
  then have c: "blk 0x100 (unat (2 :: u32)) \<subseteq> dom ?m" "bytes ?m 0x200 (replicate (unat (2 :: u32)) (ucast (0x61 :: u32)))"
    "blk 0x100 (unat (2 :: u32)) \<inter> blk 0x200 (unat (2 :: u32)) = {}" by simp_all
  have "(ucast (0x261 :: u32) :: u8) = ucast (0x61 :: u32)" "(2 :: u32) \<noteq> 0" by simp_all
  then have "(if (2 :: u32) \<noteq> 0 \<and> (ucast (0x261 :: u32) :: u8) = ucast (0x61 :: u32) then 0x100 else NULL) = (0x100 :: addr)"
    by (simp only: if_True simp_thms)
  with memset_block [OF c, of "0x261"] show ?thesis by (elim exE conjE) (intro exI conjI, assumption, simp only:)
qed

end
