(* ===== verification/Spec2Isabelle.thy ===== *)
theory Spec2Isabelle
  imports Iosched_Tunables Strings_Spec Rbtree_Spec
begin

text \<open>
  A verification development for the block layer's I/O schedulers and for the library routines below them, in the Linux 2.6.35
  kernel of this repository (\<open>src/Kernel\<close>, built for a 32-bit little-endian ARM with \<open>CONFIG_LBDAF\<close>, one processor,
  \<open>HZ = 1000\<close>, no \<open>CONFIG_DEBUG_LIST\<close> and no \<open>CONFIG_BLK_DEV_INTEGRITY\<close>).

  \<^bold>\<open>The parts and how they interact.\<close>  A request comes into a \<open>request_queue\<close> through \<open>block/elevator.c\<close>, which keeps a hash of the
  requests that may be merged and a dispatch queue, and hands the request to a scheduler: noop, sio (the default one),
  deadline or V(R).  The schedulers keep requests on linked lists (\<open>include/linux/list.h\<close>) and in red-black trees
  (\<open>lib/rbtree.c\<close>) and give them back one at a time through the dispatch queue, from which the driver fetches them.  Beside them
  stand the block copy routines (\<open>lib/memcopy.c\<close>) and the string routines (\<open>lib/string.c\<close>, \<open>lib/ctype.c\<close>) that the whole kernel uses, and
  the conversions between numbers and text (\<open>lib/vsprintf.c\<close>), with which the schedulers read their tunables.

  \<^bold>\<open>Conventions\<close> (theory \<open>Kernel_Prelude\<close>).  Machine integers are words of their width and wrap around; pointers are 32-bit words.
  Objects live in partial maps from addresses, one map per kind of object; an access outside the map, a failed \<open>BUG_ON\<close>
  and a loop that does not return are the value \<open>None\<close>.  Loops are \<open>partial_function (option)\<close>, so there is no fuel: a
  theorem that a routine equals \<open>Some\<close> says that it returns and touches live objects only.  What the source gets from elsewhere
  (allocators, the driver's strategy routine, \<open>elevator_get\<close>) is an argument of the definitions that use it.

  \<^bold>\<open>Red-black trees\<close> (\<open>Rbtree\<close>, \<open>Rbtree_Rep\<close>, \<open>Rbtree_Ops\<close>, \<open>Rbtree_Insert\<close>, \<open>Rbtree_Erase\<close>, \<open>Rbtree_Walk\<close>, \<open>Rbtree_Spec\<close>): each routine of
  \<open>lib/rbtree.c\<close> on a memory of nodes whose parent pointer and colour share a word.  The memory represents a tree with a focus
  (\<open>zrep\<close>); insertion and removal are shown to return, to keep the order of the nodes and to restore the colour and
  black-height invariants; the walks enumerate the nodes in order.  The locale \<open>ordered_tree\<close> is what clients rely on.

  \<^bold>\<open>Lists and chains\<close> (\<open>Klist\<close>, \<open>Klist_Splice\<close>, \<open>Khlist\<close>): the operations of \<open>list.h\<close> on memories of \<open>list_head\<close> and \<open>hlist_node\<close> objects.
  A memory represents a family of disjoint rings (\<open>rings\<close>) or of chains (\<open>hash_rep\<close>), and each operation changes the sequences the way
  its name says.

  \<^bold>\<open>Requests and the elevator core\<close> (\<open>Blk_Request\<close>, \<open>Elevator\<close>): the record \<open>request_queue\<close> has the members of the queue, of its requests
  and bios, and the scheduler's private data (\<open>elevator_data\<close>).  One definition per routine of \<open>block/elevator.c\<close> (hash, trees,
  dispatch queue, merging, insertion points, requeueing, draining), with what it calls of \<open>blk-core.c\<close> and \<open>blk-barrier.c\<close>.
  \<open>Elevator_Tree\<close>, \<open>Elevator_Queue\<close> and \<open>Elevator_Hash\<close> say what these do to the lists, trees and chains; \<open>Elevator_Sched\<close> has the
  interface of a scheduler, the locale \<open>elevator\<close> with its operations, an invariant on its data and the laws they obey, and
  \<open>Elevator_Core\<close> proves the routines of \<open>elevator.c\<close> once over every scheduler that obeys them.

  \<^bold>\<open>The schedulers\<close> (\<open>Iosched_Noop\<close>, \<open>Iosched_Sio\<close>, \<open>Iosched_Deadline\<close>, \<open>Iosched_Vr\<close>): every operation of the four files on the queue, an
  invariant each, and the interpretation of \<open>elevator\<close> on them.

  \<^bold>\<open>Life of a queue\<close> (\<open>Elevator_Init\<close>, \<open>Elevator_Life\<close>, \<open>Elevator_Spec\<close>): \<open>elevator_init\<close> with its error paths, and the locale \<open>elevator_type\<close> of a
  scheduler with its initialisation, interpreted on the four.  The step relation \<open>elv_step\<close> has every operation of the block layer on a
  queue; whatever sequence follows \<open>elevator_init\<close>, no operation faults and every request is in exactly one place, and
  the runs implement the abstract life of a request (\<open>move\<close>).  Draining ends and loses nothing, merges are with adjacent requests,
  a request given back is where it was, and an expired request is dispatched after a bounded number of calls.

  \<^bold>\<open>Block copy\<close> (\<open>Memcopy\<close>, \<open>Memcopy_Words\<close>, \<open>Memcopy_Fwd\<close>, \<open>Memcopy_Bwd\<close>, \<open>Memcopy_Correct\<close>): \<open>memcpy\<close> and \<open>memmove\<close> with their byte loops and
  the unrolled word loops that are entered in the middle, on a byte memory.  They copy exactly the block, for every alignment and
  overlap, for blocks of at most \<open>2 ^ 31\<close> bytes; the words that the loops read around the source have to be mapped.

  \<^bold>\<open>Strings\<close> (\<open>Ctype\<close>, \<open>Strings\<close>, \<open>Strings_Read\<close>, \<open>Strings_Write\<close>, \<open>Strings_Spec\<close>): every routine of \<open>lib/string.c\<close> on the same memory, against
  functions on the list of the characters (\<open>cstr\<close>).  Copies are between blocks that do not overlap, and \<open>strrchr\<close>, \<open>strim\<close>
  and \<open>strsep\<close>, which compare pointers, are for strings that do not reach around the end of the address space.

  \<^bold>\<open>Numbers as text\<close> (\<open>Vsprintf\<close>, \<open>Vsprintf_Dec\<close>): the readers of \<open>lib/vsprintf.c\<close> and the decimal output of \<open>put_dec\<close>.  Its multiplications and
  shifts give the decimal digits of every 64-bit number, and the readers get the number back from them.

  \<^bold>\<open>Tunables\<close> (\<open>Iosched_Tunables\<close>): the routines behind a write to an attribute of sio, deadline and V(R).  Whatever text is written, they
  return, keep the stored value within its limits and leave the queue as it was.

  \<^bold>\<open>Not modelled.\<close>  In the modelled files: the \<open>rb_augment\<close> hooks of \<open>rbtree.c\<close>, which no modelled client uses; registration, switching and
  the sysfs dispatch of \<open>elevator.c\<close>, which need modules, kobjects and the lock of the queue; the routines that show a tunable and
  \<open>vsnprintf\<close>, the format interpreter with variable arguments that they call; the debugging and tracing calls.  Locking: the operations run under the queue lock, so each is one step.  The remaining schedulers
  (\<open>cfq\<close>, \<open>bfq\<close>), the rest of the block layer and the other subsystems of the kernel are outside this development.
\<close>

end
